(* ===== verification/Poco_Prelude.thy ===== *)
theory Poco_Prelude
  imports Main "HOL-Library.Word" "HOL-Library.Sublist"
begin

text \<open>
  Shared vocabulary of the development: how a C++ exception, an output parameter and an
  iterator are represented, and the list lemmas the component proofs rest on.

  \<^item> An operation that may throw yields an \<open>outcome\<close>: \<open>Returns s\<close> with the state it leaves
    behind, or \<open>Throws e s\<close> with the exception and the state at the throw (an output
    parameter or an object that was already partly written stays so).
  \<^item> A pair of iterators \<open>(it, end)\<close> into a string is the list of the characters still
    ahead of \<open>it\<close>; \<open>it == end\<close> is the empty list and \<open>*it++\<close> takes its head.
  \<^item> A C++ \<open>char\<close> is an 8-bit \<open>char\<close>; it is signed when it is converted to \<open>int\<close>.
\<close>

named_theorems outcome_simps \<open>unfolding of sequenced operations\<close>
named_theorems seg_simps \<open>splitting and joining of path segments\<close>

section \<open>Exceptions and outcomes\<close>

text \<open>
  The exception classes of Foundation and JSON the modelled code throws, with the message where
  the code gives one. \<open>AssertionViolation\<close> is what the \<open>poco_assert\<close> macro raises. \<open>StdOutOfRange\<close> is the \<open>std::out_of_range\<close> of the standard string. The last two
  are not exceptions: \<open>UndefinedBehaviour\<close> marks an execution the C++ standard gives no
  meaning to (signed overflow, a write past the end of an array), and \<open>StackOverflow\<close> an
  unbounded recursion.
\<close>

datatype exn =
    SyntaxException string
  | PathSyntaxException string
  | NotFoundException string
  | SystemException string
  | InvalidAccessException string
  | JSONException string
  | DataFormatException
  | RangeException
  | StdOutOfRange
  | AssertionViolation
  | UndefinedBehaviour
  | StackOverflow

datatype 's outcome = Returns 's | Throws exn 's

fun state_of :: "'s outcome \<Rightarrow> 's" where
  "state_of (Returns s) = s"
| "state_of (Throws e s) = s"

fun and_then :: "'s outcome \<Rightarrow> ('s \<Rightarrow> 's outcome) \<Rightarrow> 's outcome" where
  "and_then (Returns s) f = f s"
| "and_then (Throws e s) f = Throws e s"

fun map_outcome_state :: "('s \<Rightarrow> 't) \<Rightarrow> 's outcome \<Rightarrow> 't outcome" where
  "map_outcome_state f (Returns s) = Returns (f s)"
| "map_outcome_state f (Throws e s) = Throws e (f s)"

definition returns :: "'s outcome \<Rightarrow> bool" where
  "returns m \<longleftrightarrow> (case m of Returns _ \<Rightarrow> True | Throws _ _ \<Rightarrow> False)"

lemma returns_simps [simp, outcome_simps]:
  "returns (Returns s)" "\<not> returns (Throws e s)"
  by (simp_all add: returns_def)

lemma returns_iff: "returns m \<longleftrightarrow> m = Returns (state_of m)"
  by (cases m) simp_all

lemma and_then_assoc [outcome_simps]:
  "and_then (and_then m f) g = and_then m (\<lambda>s. and_then (f s) g)"
  by (cases m) simp_all

lemma and_then_Returns_conv:
  "and_then m f = Returns t \<longleftrightarrow> (\<exists>s. m = Returns s \<and> f s = Returns t)"
  by (cases m) auto

lemma and_then_Throws_conv:
  "and_then m f = Throws e t \<longleftrightarrow> m = Throws e t \<or> (\<exists>s. m = Returns s \<and> f s = Throws e t)"
  by (cases m) auto

lemma map_outcome_state_Returns [simp]:
  "map_outcome_state f m = Returns t \<longleftrightarrow> (\<exists>s. m = Returns s \<and> t = f s)"
  by (cases m) auto

lemma map_outcome_state_compose [simp]:
  "map_outcome_state f (map_outcome_state g m) = map_outcome_state (f \<circ> g) m"
  by (cases m) simp_all

lemma map_outcome_state_id [simp]: "map_outcome_state (\<lambda>s. s) m = m"
  by (cases m) simp_all

lemma state_of_map [simp]: "state_of (map_outcome_state f m) = f (state_of m)"
  by (cases m) simp_all

lemma state_of_and_then:
  "P (state_of m) \<Longrightarrow> (\<And>s. P s \<Longrightarrow> P (state_of (f s))) \<Longrightarrow> P (state_of (and_then m f))"
  by (cases m) simp_all

definition returned :: "'s outcome \<Rightarrow> 's option" where
  "returned m = (case m of Returns s \<Rightarrow> Some s | Throws _ _ \<Rightarrow> None)"

lemma returned_Some [simp]: "returned m = Some s \<longleftrightarrow> m = Returns s"
  by (cases m) (simp_all add: returned_def)

section \<open>Encoders and decoders\<close>

text \<open>The contract of an encoder and its decoder: what was encoded is decoded to itself. Then the
  encoder loses nothing, and the decoder accepts every encoded text.\<close>

locale codec =
  fixes enc :: "'a \<Rightarrow> 'b" and dec :: "'b \<Rightarrow> 'a option" and encodable :: "'a \<Rightarrow> bool"
  assumes dec_enc: "encodable x \<Longrightarrow> dec (enc x) = Some x"
begin

lemma enc_inject: "encodable x \<Longrightarrow> encodable y \<Longrightarrow> enc x = enc y \<longleftrightarrow> x = y"
  by (metis dec_enc option.inject)

lemma dec_accepts: "encodable x \<Longrightarrow> dec (enc x) \<noteq> None"
  by (simp add: dec_enc)

lemma enc_dec_enc: "encodable x \<Longrightarrow> map_option enc (dec (enc x)) = Some (enc x)"
  by (simp add: dec_enc)

end

section \<open>Characters\<close>

text \<open>The value of a C++ \<open>char\<close> after integral promotion (the type is signed), and the
  conversion back.\<close>

definition uchar :: "char \<Rightarrow> nat" where
  "uchar c = (of_char c :: nat)"

definition schar :: "char \<Rightarrow> int" where
  "schar c = (if uchar c < 128 then int (uchar c) else int (uchar c) - 256)"

definition to_char :: "int \<Rightarrow> char" where
  "to_char n = char_of (n mod 256)"

text \<open>The range tests \<open>c >= lo && c <= hi\<close> of the code.\<close>

definition between :: "char \<Rightarrow> char \<Rightarrow> char \<Rightarrow> bool" where
  "between lo hi c \<longleftrightarrow> schar lo \<le> schar c \<and> schar c \<le> schar hi"

lemma uchar_less [simp]: "uchar c < 256"
  by (simp add: uchar_def)

lemma char_of_uchar [simp]: "char_of (uchar c) = c"
  by (simp add: uchar_def)

lemma uchar_char_of [simp]: "uchar (char_of (n :: nat)) = n mod 256"
  by (simp add: uchar_def)

lemma uchar_inject: "uchar c = uchar d \<longleftrightarrow> c = d"
  by (metis char_of_uchar)

lemma to_char_nat: "to_char (int n) = char_of n"
proof -
  have "(int n mod 256) = int (n mod 256)" by (simp add: zmod_int)
  then show ?thesis by (simp add: to_char_def)
qed

lemma to_char_schar [simp]: "to_char (schar c) = c"
proof (cases "uchar c < 128")
  case True
  then show ?thesis by (simp add: schar_def to_char_nat)
next
  case False
  have "(int (uchar c) - 256) mod 256 = int (uchar c) mod 256" by simp
  then have "to_char (schar c) = to_char (int (uchar c))"
    using False by (simp add: schar_def to_char_def)
  then show ?thesis by (simp add: to_char_nat)
qed

lemma schar_inject [simp]: "schar c = schar d \<longleftrightarrow> c = d"
  by (metis to_char_schar)

lemma schar_bounds: "- 128 \<le> schar c" "schar c < 128"
proof -
  have "uchar c < 256" by (rule uchar_less)
  then show "- 128 \<le> schar c" and "schar c < 128"
    by (auto simp: schar_def simp del: uchar_less)
qed

section \<open>Scanning and lists\<close>

text \<open>The idiom \<open>while (it != end && P(*it)) s += *it++;\<close>: what was read and what is left.\<close>

definition scan :: "(char \<Rightarrow> bool) \<Rightarrow> string \<Rightarrow> string \<times> string" where
  "scan P it = (takeWhile P it, dropWhile P it)"

lemma scan_append: "scan P it = (s, rest) \<Longrightarrow> it = s @ rest"
  by (auto simp: scan_def)

lemma scan_shorter: "scan P it = (s, c # rest) \<Longrightarrow> length rest < length it"
  using scan_append [of P it s "c # rest"] by simp

lemma takeWhile_append_stop [simp]:
  "\<lbrakk>list_all P xs; \<not> P y\<rbrakk> \<Longrightarrow> takeWhile P (xs @ y # ys) = xs"
  by (induction xs) auto

lemma dropWhile_append_stop [simp]:
  "\<lbrakk>list_all P xs; \<not> P y\<rbrakk> \<Longrightarrow> dropWhile P (xs @ y # ys) = y # ys"
  by (induction xs) auto

lemma takeWhile_all [simp]: "list_all P xs \<Longrightarrow> takeWhile P xs = xs"
  by (induction xs) auto

lemma dropWhile_all [simp]: "list_all P xs \<Longrightarrow> dropWhile P xs = []"
  by (induction xs) auto

lemma list_all_takeWhile [simp]: "list_all P (takeWhile P xs)"
  by (induction xs) auto

lemma list_all_takeWhileI: "list_all Q xs \<Longrightarrow> list_all Q (takeWhile P xs)"
  by (induction xs) auto

lemma length_dropWhile_less [simp]:
  "length (dropWhile P xs) < Suc (length xs)"
  by (simp add: le_imp_less_Suc length_dropWhile_le)

text \<open>A text without certain characters, which a scan reads as a whole.\<close>

definition lacks :: "string \<Rightarrow> string \<Rightarrow> bool" where
  "lacks bad s \<longleftrightarrow> list_all (\<lambda>c. c \<notin> set bad) s"

lemma lacks_append [simp]: "lacks bad (s @ t) \<longleftrightarrow> lacks bad s \<and> lacks bad t"
  by (simp add: lacks_def)

lemma lacks_Nil [simp]: "lacks bad []"
  by (simp add: lacks_def)

lemma lacks_Cons [simp]: "lacks bad (c # s) \<longleftrightarrow> c \<notin> set bad \<and> lacks bad s"
  by (simp add: lacks_def)

lemma lacks_scan:
  assumes "lacks bad s" "set bad' \<subseteq> set bad" "rest = [] \<or> hd rest \<in> set bad'"
  shows "scan (\<lambda>c. c \<notin> set bad') (s @ rest) = (s, rest)"
proof -
  have all: "list_all (\<lambda>c. c \<notin> set bad') s"
    using assms(1,2) unfolding lacks_def list_all_iff by blast
  then show ?thesis using assms(3) by (cases rest) (auto simp: scan_def)
qed

lemma lacks_mono: "lacks bad s \<Longrightarrow> set bad' \<subseteq> set bad \<Longrightarrow> lacks bad' s"
  unfolding lacks_def list_all_iff by blast

section \<open>Words\<close>

text \<open>Words are equal when their bits are, one by one.\<close>

lemma word_eq_bits:
  fixes a b :: "'a :: len word"
  assumes "list_all (\<lambda>n. bit a n = bit b n) [0..<LENGTH('a)]"
  shows "a = b"
  using assms by (intro bit_word_eqI) (simp add: list_all_iff)

lemma word8_eqI: "list_all (\<lambda>n. bit a n = bit b n) [0, 1, 2, 3, 4, 5, 6, 7] \<Longrightarrow> a = (b :: 8 word)"
proof -
  have "[0..<8] = [0, 1, 2, 3, 4, 5, 6, 7]" by code_simp
  then show "list_all (\<lambda>n. bit a n = bit b n) [0, 1, 2, 3, 4, 5, 6, 7] \<Longrightarrow> a = b" using word_eq_bits [of a b] by simp
qed

lemma word16_eqI: "list_all (\<lambda>n. bit a n = bit b n) [0, 1, 2, 3, 4, 5, 6, 7, 8, 9, 10, 11, 12, 13, 14, 15] \<Longrightarrow> a = (b :: 16 word)"
proof -
  have "[0..<16] = [0, 1, 2, 3, 4, 5, 6, 7, 8, 9, 10, 11, 12, 13, 14, 15]" by code_simp
  then show "list_all (\<lambda>n. bit a n = bit b n) [0, 1, 2, 3, 4, 5, 6, 7, 8, 9, 10, 11, 12, 13, 14, 15] \<Longrightarrow> a = b" using word_eq_bits [of a b] by simp
qed

lemma word32_eqI: "list_all (\<lambda>n. bit a n = bit b n) [0, 1, 2, 3, 4, 5, 6, 7, 8, 9, 10, 11, 12, 13, 14, 15, 16, 17, 18, 19, 20, 21, 22, 23, 24, 25, 26, 27, 28, 29, 30, 31] \<Longrightarrow> a = (b :: 32 word)"
proof -
  have "[0..<32] = [0, 1, 2, 3, 4, 5, 6, 7, 8, 9, 10, 11, 12, 13, 14, 15, 16, 17, 18, 19, 20, 21, 22, 23, 24, 25, 26, 27, 28, 29, 30, 31]" by code_simp
  then show "list_all (\<lambda>n. bit a n = bit b n) [0, 1, 2, 3, 4, 5, 6, 7, 8, 9, 10, 11, 12, 13, 14, 15, 16, 17, 18, 19, 20, 21, 22, 23, 24, 25, 26, 27, 28, 29, 30, 31] \<Longrightarrow> a = b" using word_eq_bits [of a b] by simp
qed

lemma no_bit8 [simp]: "8 \<le> n \<Longrightarrow> \<not> bit (w :: 8 word) n"
  by (auto dest: bit_imp_le_length)

lemma no_bit16 [simp]: "16 \<le> n \<Longrightarrow> \<not> bit (w :: 16 word) n"
  by (auto dest: bit_imp_le_length)

lemma no_bit32 [simp]: "32 \<le> n \<Longrightarrow> \<not> bit (w :: 32 word) n"
  by (auto dest: bit_imp_le_length)

end
