(* ===== verification/Ascii.thy ===== *)
theory Ascii
  imports Poco_Prelude
begin

text \<open>
  The ASCII character classification of Foundation (\<open>Ascii.h\<close>, \<open>Ascii.cpp\<close>): a table of
  property bits indexed by character code, the tests built on it, and the case
  conversions. The lemmas state which characters each test accepts, so that the string
  and number components never look at the table again.
\<close>

unbundle bit_operations_syntax

section \<open>The property table\<close>

definition ACP_CONTROL :: int where "ACP_CONTROL = 0x0001"
definition ACP_SPACE :: int where "ACP_SPACE = 0x0002"
definition ACP_PUNCT :: int where "ACP_PUNCT = 0x0004"
definition ACP_DIGIT :: int where "ACP_DIGIT = 0x0008"
definition ACP_HEXDIGIT :: int where "ACP_HEXDIGIT = 0x0010"
definition ACP_ALPHA :: int where "ACP_ALPHA = 0x0020"
definition ACP_LOWER :: int where "ACP_LOWER = 0x0040"
definition ACP_UPPER :: int where "ACP_UPPER = 0x0080"
definition ACP_GRAPH :: int where "ACP_GRAPH = 0x0100"
definition ACP_PRINT :: int where "ACP_PRINT = 0x0200"

lemmas ACP_defs = ACP_CONTROL_def ACP_SPACE_def ACP_PUNCT_def ACP_DIGIT_def ACP_HEXDIGIT_def
  ACP_ALPHA_def ACP_LOWER_def ACP_UPPER_def ACP_GRAPH_def ACP_PRINT_def

text \<open>The 128 rows of the table, equal neighbours written as one run.\<close>

definition CHARACTER_PROPERTIES :: "int list" where
  "CHARACTER_PROPERTIES =
     replicate 9 ACP_CONTROL @
     replicate 5 (ACP_CONTROL OR ACP_SPACE) @
     replicate 18 ACP_CONTROL @
     [ACP_SPACE OR ACP_PRINT] @
     replicate 15 (ACP_PUNCT OR ACP_GRAPH OR ACP_PRINT) @
     replicate 10 (ACP_DIGIT OR ACP_HEXDIGIT OR ACP_GRAPH OR ACP_PRINT) @
     replicate 7 (ACP_PUNCT OR ACP_GRAPH OR ACP_PRINT) @
     replicate 6 (ACP_HEXDIGIT OR ACP_ALPHA OR ACP_UPPER OR ACP_GRAPH OR ACP_PRINT) @
     replicate 20 (ACP_ALPHA OR ACP_UPPER OR ACP_GRAPH OR ACP_PRINT) @
     replicate 6 (ACP_PUNCT OR ACP_GRAPH OR ACP_PRINT) @
     replicate 6 (ACP_HEXDIGIT OR ACP_ALPHA OR ACP_LOWER OR ACP_GRAPH OR ACP_PRINT) @
     replicate 20 (ACP_ALPHA OR ACP_LOWER OR ACP_GRAPH OR ACP_PRINT) @
     replicate 4 (ACP_PUNCT OR ACP_GRAPH OR ACP_PRINT) @
     [ACP_CONTROL]"

section \<open>Classification and case conversion\<close>

text \<open>The argument is a C++ \<open>int\<close>; \<open>isAscii\<close> tests it as a 32-bit pattern.\<close>

definition isAscii :: "int \<Rightarrow> bool" where
  "isAscii ch \<longleftrightarrow> (word_of_int ch :: 32 word) AND 0xFFFFFF80 = 0"

definition properties :: "int \<Rightarrow> int" where
  "properties ch = (if isAscii ch then CHARACTER_PROPERTIES ! nat ch else 0)"

definition hasProperties :: "int \<Rightarrow> int \<Rightarrow> bool" where
  "hasProperties ch props \<longleftrightarrow> (properties ch AND props) = props"

definition hasSomeProperties :: "int \<Rightarrow> int \<Rightarrow> bool" where
  "hasSomeProperties ch props \<longleftrightarrow> (properties ch AND props) \<noteq> 0"

definition isSpace :: "int \<Rightarrow> bool" where
  "isSpace ch = hasProperties ch ACP_SPACE"

definition isDigit :: "int \<Rightarrow> bool" where
  "isDigit ch = hasProperties ch ACP_DIGIT"

definition isHexDigit :: "int \<Rightarrow> bool" where
  "isHexDigit ch = hasProperties ch ACP_HEXDIGIT"

definition isPunct :: "int \<Rightarrow> bool" where
  "isPunct ch = hasProperties ch ACP_PUNCT"

definition isAlpha :: "int \<Rightarrow> bool" where
  "isAlpha ch = hasProperties ch ACP_ALPHA"

definition isAlphaNumeric :: "int \<Rightarrow> bool" where
  "isAlphaNumeric ch = hasSomeProperties ch (ACP_ALPHA OR ACP_DIGIT)"

definition isLower :: "int \<Rightarrow> bool" where
  "isLower ch = hasProperties ch ACP_LOWER"

definition isUpper :: "int \<Rightarrow> bool" where
  "isUpper ch = hasProperties ch ACP_UPPER"

definition toLower :: "int \<Rightarrow> int" where
  "toLower ch = (if isUpper ch then ch + 32 else ch)"

definition toUpper :: "int \<Rightarrow> int" where
  "toUpper ch = (if isLower ch then ch - 32 else ch)"

section \<open>What the table says\<close>

lemma length_CHARACTER_PROPERTIES [simp]: "length CHARACTER_PROPERTIES = 128"
  by (simp add: CHARACTER_PROPERTIES_def)

lemma isAscii_iff:
  assumes "- (2 ^ 31) \<le> ch" "ch < 2 ^ 31"
  shows "isAscii ch \<longleftrightarrow> 0 \<le> ch \<and> ch < 128"
proof -
  have m: "(0xFFFFFF80 :: 32 word) = NOT (mask 7)"
    by (simp add: mask_eq_exp_minus_1)
  let ?w = "word_of_int ch :: 32 word"
  have "isAscii ch \<longleftrightarrow> take_bit 7 ?w = ?w"
    unfolding isAscii_def m by (auto simp: bit_eq_iff bit_simps)
  also have "\<dots> \<longleftrightarrow> uint ?w < 128"
    by (simp add: word_uint_eq_iff unsigned_take_bit_eq take_bit_int_eq_self_iff)
  also have "\<dots> \<longleftrightarrow> 0 \<le> ch \<and> ch < 128"
  proof (cases "0 \<le> ch")
    case True
    with assms have "ch mod 2 ^ 32 = ch" by simp
    with True show ?thesis by (simp add: uint_word_of_int)
  next
    case False
    have "(ch + 2 ^ 32) mod 2 ^ 32 = ch + 2 ^ 32"
      using False assms by (intro mod_pos_pos_trivial) auto
    then have "ch mod 2 ^ 32 = ch + 2 ^ 32" by simp
    with False assms show ?thesis by (simp add: uint_word_of_int)
  qed
  finally show ?thesis .
qed

lemma properties_schar:
  "properties (schar c) = (if uchar c < 128 then CHARACTER_PROPERTIES ! uchar c else 0)"
proof -
  have "isAscii (schar c) \<longleftrightarrow> 0 \<le> schar c \<and> schar c < 128"
    using schar_bounds [of c] by (intro isAscii_iff) simp_all
  also have "\<dots> \<longleftrightarrow> uchar c < 128"
    using uchar_less [of c] by (auto simp: schar_def simp del: uchar_less)
  finally show ?thesis by (simp add: properties_def schar_def)
qed

text \<open>Each test against the table, row by row.\<close>

lemma table_row: "list_all P [0..<128] \<Longrightarrow> n < 128 \<Longrightarrow> P n"
  by (simp add: list_all_iff)

lemma isSpace_char:
  "isSpace (schar c) \<longleftrightarrow> 9 \<le> uchar c \<and> uchar c \<le> 13 \<or> uchar c = 32"
proof -
  have "list_all (\<lambda>i. (CHARACTER_PROPERTIES ! i AND ACP_SPACE = ACP_SPACE)
          = (9 \<le> i \<and> i \<le> 13 \<or> i = 32)) [0..<128]"
    by code_simp
  from table_row [OF this] show ?thesis
    by (auto simp: isSpace_def hasProperties_def properties_schar ACP_SPACE_def)
qed

lemma isDigit_char: "isDigit (schar c) \<longleftrightarrow> 48 \<le> uchar c \<and> uchar c \<le> 57"
proof -
  have "list_all (\<lambda>i. (CHARACTER_PROPERTIES ! i AND ACP_DIGIT = ACP_DIGIT)
          = (48 \<le> i \<and> i \<le> 57)) [0..<128]"
    by code_simp
  from table_row [OF this] show ?thesis
    by (auto simp: isDigit_def hasProperties_def properties_schar ACP_DIGIT_def)
qed

lemma isHexDigit_char:
  "isHexDigit (schar c) \<longleftrightarrow> 48 \<le> uchar c \<and> uchar c \<le> 57
     \<or> 65 \<le> uchar c \<and> uchar c \<le> 70 \<or> 97 \<le> uchar c \<and> uchar c \<le> 102"
proof -
  have "list_all (\<lambda>i. (CHARACTER_PROPERTIES ! i AND ACP_HEXDIGIT = ACP_HEXDIGIT)
          = (48 \<le> i \<and> i \<le> 57 \<or> 65 \<le> i \<and> i \<le> 70 \<or> 97 \<le> i \<and> i \<le> 102)) [0..<128]"
    by code_simp
  from table_row [OF this] show ?thesis
    by (auto simp: isHexDigit_def hasProperties_def properties_schar ACP_HEXDIGIT_def)
qed

lemma isLower_char: "isLower (schar c) \<longleftrightarrow> 97 \<le> uchar c \<and> uchar c \<le> 122"
proof -
  have "list_all (\<lambda>i. (CHARACTER_PROPERTIES ! i AND ACP_LOWER = ACP_LOWER)
          = (97 \<le> i \<and> i \<le> 122)) [0..<128]"
    by code_simp
  from table_row [OF this] show ?thesis
    by (auto simp: isLower_def hasProperties_def properties_schar ACP_LOWER_def)
qed

lemma isUpper_char: "isUpper (schar c) \<longleftrightarrow> 65 \<le> uchar c \<and> uchar c \<le> 90"
proof -
  have "list_all (\<lambda>i. (CHARACTER_PROPERTIES ! i AND ACP_UPPER = ACP_UPPER)
          = (65 \<le> i \<and> i \<le> 90)) [0..<128]"
    by code_simp
  from table_row [OF this] show ?thesis
    by (auto simp: isUpper_def hasProperties_def properties_schar ACP_UPPER_def)
qed

lemma isAlpha_char: "isAlpha (schar c) \<longleftrightarrow> isLower (schar c) \<or> isUpper (schar c)"
proof -
  have "list_all (\<lambda>i. (CHARACTER_PROPERTIES ! i AND ACP_ALPHA = ACP_ALPHA)
          = (97 \<le> i \<and> i \<le> 122 \<or> 65 \<le> i \<and> i \<le> 90)) [0..<128]"
    by code_simp
  from table_row [OF this] show ?thesis
    by (auto simp: isAlpha_def hasProperties_def properties_schar ACP_ALPHA_def
        isLower_char isUpper_char)
qed

lemma isAlphaNumeric_char:
  "isAlphaNumeric (schar c) \<longleftrightarrow> isAlpha (schar c) \<or> isDigit (schar c)"
proof -
  have "list_all (\<lambda>i. (CHARACTER_PROPERTIES ! i AND (ACP_ALPHA OR ACP_DIGIT) \<noteq> 0)
          = (97 \<le> i \<and> i \<le> 122 \<or> 65 \<le> i \<and> i \<le> 90 \<or> 48 \<le> i \<and> i \<le> 57)) [0..<128]"
    by code_simp
  from table_row [OF this] show ?thesis
    by (auto simp: isAlphaNumeric_def hasSomeProperties_def properties_schar
        isAlpha_char isLower_char isUpper_char isDigit_char)
qed

section \<open>Case conversion of a character\<close>

text \<open>\<open>Ascii::toLower\<close> and \<open>Ascii::toUpper\<close> on a \<open>char\<close> whose result is stored in a \<open>char\<close>.\<close>

definition lowerc :: "char \<Rightarrow> char" where
  "lowerc c = to_char (toLower (schar c))"

definition upperc :: "char \<Rightarrow> char" where
  "upperc c = to_char (toUpper (schar c))"

lemma lowerc_eq:
  "lowerc c = (if 65 \<le> uchar c \<and> uchar c \<le> 90 then char_of (uchar c + 32) else c)"
proof (cases "65 \<le> uchar c \<and> uchar c \<le> 90")
  case True
  then have "isUpper (schar c)" by (simp add: isUpper_char)
  with True have "toLower (schar c) = int (uchar c + 32)"
    by (simp add: toLower_def) (simp add: schar_def)
  with True show ?thesis by (simp only: lowerc_def to_char_nat if_True simp_thms)
next
  case False
  then have "\<not> isUpper (schar c)" by (simp add: isUpper_char)
  with False show ?thesis by (simp only: lowerc_def toLower_def if_False to_char_schar)
qed

lemma upperc_eq:
  "upperc c = (if 97 \<le> uchar c \<and> uchar c \<le> 122 then char_of (uchar c - 32) else c)"
proof (cases "97 \<le> uchar c \<and> uchar c \<le> 122")
  case True
  then have "isLower (schar c)" by (simp add: isLower_char)
  with True have "toUpper (schar c) = int (uchar c - 32)"
    by (simp add: toUpper_def) (simp add: schar_def)
  with True show ?thesis by (simp only: upperc_def to_char_nat if_True simp_thms)
next
  case False
  then have "\<not> isLower (schar c)" by (simp add: isLower_char)
  with False show ?thesis by (simp only: upperc_def toUpper_def if_False to_char_schar)
qed

lemma uchar_lowerc:
  "uchar (lowerc c) = (if 65 \<le> uchar c \<and> uchar c \<le> 90 then uchar c + 32 else uchar c)"
  by (simp add: lowerc_eq)

lemma lowerc_idem [simp]: "lowerc (lowerc c) = lowerc c"
  by (simp add: uchar_lowerc lowerc_eq [of "lowerc c"]) (simp add: lowerc_eq)

lemma lowerc_upperc [simp]: "lowerc (upperc c) = lowerc c"
  by (auto simp: lowerc_eq upperc_eq)

section \<open>Properties\<close>

text \<open>the classification functions of \<open>Poco::Ascii\<close> agree with the character ranges of ASCII on
  every \<open>char\<close>, a negative one included, and the case conversions are inverse up to case.\<close>

theorem ascii_classes:
  "(isSpace (schar c) \<longleftrightarrow> 9 \<le> uchar c \<and> uchar c \<le> 13 \<or> uchar c = 32)
   \<and> (isDigit (schar c) \<longleftrightarrow> 48 \<le> uchar c \<and> uchar c \<le> 57)
   \<and> (isHexDigit (schar c) \<longleftrightarrow> isDigit (schar c)
        \<or> 65 \<le> uchar c \<and> uchar c \<le> 70 \<or> 97 \<le> uchar c \<and> uchar c \<le> 102)
   \<and> (isLower (schar c) \<longleftrightarrow> 97 \<le> uchar c \<and> uchar c \<le> 122)
   \<and> (isUpper (schar c) \<longleftrightarrow> 65 \<le> uchar c \<and> uchar c \<le> 90)
   \<and> (isAlphaNumeric (schar c) \<longleftrightarrow> isLower (schar c) \<or> isUpper (schar c) \<or> isDigit (schar c))
   \<and> to_char (toLower (schar (to_char (toUpper (schar c))))) = to_char (toLower (schar c))"
proof -
  have "lowerc (upperc c) = lowerc c" by simp
  then have "to_char (toLower (schar (to_char (toUpper (schar c))))) = to_char (toLower (schar c))"
    by (simp only: lowerc_def upperc_def)
  then show ?thesis
    using isSpace_char [of c] isDigit_char [of c] isHexDigit_char [of c] isLower_char [of c]
      isUpper_char [of c] isAlphaNumeric_char [of c] isAlpha_char [of c] by blast
qed

end
