(* ===== verification/Strings.thy ===== *)
theory Strings
  imports Ascii
begin

text \<open>
  The string utilities of Foundation (\<open>String.h\<close>): trimming, case conversion,
  case-insensitive comparison, translation, replacement and concatenation. Strings are
  lists of \<open>char\<close>; an index that the code moves down to \<open>-1\<close> is kept one higher, as a
  natural number.
\<close>

abbreviation space :: "char \<Rightarrow> bool" where
  "space c \<equiv> isSpace (schar c)"

section \<open>Trimming and case conversion\<close>

definition trimLeft :: "string \<Rightarrow> string" where
  "trimLeft str = snd (scan space str)"

text \<open>\<open>while (pos >= 0 && Ascii::isSpace(str[pos])) --pos;\<close> with \<open>pos + 1\<close> as the argument.\<close>

fun back_over_space :: "string \<Rightarrow> nat \<Rightarrow> nat" where
  "back_over_space str 0 = 0"
| "back_over_space str (Suc pos) =
     (if space (str ! pos) then back_over_space str pos else Suc pos)"

definition trimRight :: "string \<Rightarrow> string" where
  "trimRight str = take (back_over_space str (length str)) str"

text \<open>The two loops of \<open>trim\<close>: \<open>first\<close> moves up while \<open>first <= last\<close>, then \<open>last\<close> moves
  down while \<open>last >= first\<close>; \<open>end\<close> is \<open>last + 1\<close>.\<close>

function trim_first :: "string \<Rightarrow> nat \<Rightarrow> nat \<Rightarrow> nat" where
  "trim_first str first end =
     (if first < end \<and> space (str ! first) then trim_first str (Suc first) end else first)"
  by pat_completeness auto
termination
  by (relation "measure (\<lambda>(str, first, end). end - first)") auto

function trim_last :: "string \<Rightarrow> nat \<Rightarrow> nat \<Rightarrow> nat" where
  "trim_last str first end =
     (if first < end \<and> space (str ! (end - 1)) then trim_last str first (end - 1) else end)"
  by pat_completeness auto
termination
  by (relation "measure (\<lambda>(str, first, end). end)") auto

declare trim_first.simps [simp del] trim_last.simps [simp del]

definition trim :: "string \<Rightarrow> string" where
  "trim str =
     (let first = trim_first str 0 (length str);
          end = trim_last str first (length str)
      in take (end - first) (drop first str))"

definition trimInPlace :: "string \<Rightarrow> string" where
  "trimInPlace str =
     (let first = trim_first str 0 (length str);
          end = trim_last str first (length str);
          resized = take end str
      in drop first resized)"

definition toUpperStr :: "string \<Rightarrow> string" where
  "toUpperStr str = map upperc str"

definition toLowerStr :: "string \<Rightarrow> string" where
  "toLowerStr str = map lowerc str"

section \<open>Case-insensitive comparison\<close>

fun icompare :: "string \<Rightarrow> string \<Rightarrow> int" where
  "icompare [] [] = 0"
| "icompare [] (b # it2) = -1"
| "icompare (a # it1) [] = 1"
| "icompare (a # it1) (b # it2) =
     (let c1 = schar (lowerc a); c2 = schar (lowerc b)
      in if c1 < c2 then -1 else if c1 > c2 then 1 else icompare it1 it2)"

text \<open>
  The overload that compares the part of \<open>str\<close> given by \<open>pos\<close> and \<open>n\<close>. The bound check adds
  two values of the 64-bit \<open>size_type\<close>; when the sum wraps, \<open>n\<close> is not cut and the end
  iterator lies outside the string.
\<close>

definition icompare_part :: "string \<Rightarrow> nat \<Rightarrow> nat \<Rightarrow> string \<Rightarrow> exn + int" where
  "icompare_part str pos n it2 =
     (let sz = length str;
          pos = (if pos > sz then sz else pos);
          n = (if (pos + n) mod 2 ^ 64 > sz then sz - pos else n)
      in if pos + n > sz then Inl UndefinedBehaviour
         else Inr (icompare (take n (drop pos str)) it2))"

definition icompare_n1_n2 :: "string \<Rightarrow> nat \<Rightarrow> string \<Rightarrow> nat \<Rightarrow> exn + int" where
  "icompare_n1_n2 str1 n1 str2 n2 =
     (let n2 = (if n2 > length str2 then length str2 else n2)
      in icompare_part str1 0 n1 (take n2 str2))"

definition icompare_n :: "string \<Rightarrow> nat \<Rightarrow> string \<Rightarrow> exn + int" where
  "icompare_n str1 n str2 =
     (let n = (if n > length str2 then length str2 else n)
      in icompare_part str1 0 n (take n str2))"

text \<open>The functor \<open>CILess\<close>, the order of the case-insensitive maps.\<close>

definition CILess :: "string \<Rightarrow> string \<Rightarrow> bool" where
  "CILess s1 s2 \<longleftrightarrow> icompare s1 s2 < 0"

section \<open>Translation, replacement, concatenation\<close>

text \<open>\<open>std::string::find\<close> of a character and of a string, from a start position; \<open>None\<close> is \<open>npos\<close>.\<close>

fun find_char :: "string \<Rightarrow> char \<Rightarrow> nat option" where
  "find_char [] c = None"
| "find_char (d # s) c = (if d = c then Some 0 else map_option Suc (find_char s c))"

fun find_str :: "string \<Rightarrow> string \<Rightarrow> nat option" where
  "find_str [] pat = (if pat = [] then Some 0 else None)"
| "find_str (d # s) pat =
     (if prefix pat (d # s) then Some 0 else map_option Suc (find_str s pat))"

definition find_str_from :: "string \<Rightarrow> string \<Rightarrow> nat \<Rightarrow> nat option" where
  "find_str_from str pat start =
     (if start > length str then None
      else map_option (\<lambda>k. start + k) (find_str (drop start str) pat))"

definition translate :: "string \<Rightarrow> string \<Rightarrow> string \<Rightarrow> string" where
  "translate str from to =
     concat (map (\<lambda>c. case find_char from c of
                        None \<Rightarrow> [c]
                      | Some pos \<Rightarrow> if pos < length to then [to ! pos] else []) str)"

lemma find_str_bound: "find_str s pat = Some k \<Longrightarrow> k + length pat \<le> length s"
proof (induction s arbitrary: k)
  case (Cons d s)
  then show ?case
    by (cases "prefix pat (d # s)") (auto dest: prefix_length_le)
qed (auto split: if_splits)

lemma find_str_from_bound:
  "find_str_from str pat start = Some pos \<Longrightarrow> start \<le> pos \<and> pos + length pat \<le> length str"
  by (fastforce simp: find_str_from_def dest: find_str_bound split: if_splits)

text \<open>
  The \<open>do\<close> loop of \<open>replaceInPlace\<close>: \<open>result\<close> grows, \<open>start\<close> moves behind each occurrence. The
  last \<open>append\<close> throws when \<open>start\<close> is beyond the string.
\<close>

function replace_loop :: "string \<Rightarrow> string \<Rightarrow> string \<Rightarrow> nat \<Rightarrow> string \<Rightarrow> exn + string" where
  "replace_loop str from to start result =
     (if from = [] then Inl AssertionViolation
      else case find_str_from str from start of
        Some pos \<Rightarrow>
          replace_loop str from to (pos + length from)
            (result @ take (pos - start) (drop start str) @ to)
      | None \<Rightarrow>
          if start > length str then Inl StdOutOfRange
          else Inr (result @ drop start str))"
  by pat_completeness auto
termination
proof (relation "measure (\<lambda>(str, from, to, start, result). Suc (length str) - start)")
  fix str pat to result :: string and start pos :: nat
  assume "pat \<noteq> []" "find_str_from str pat start = Some pos"
  then have "start \<le> pos" "pos + length pat \<le> length str" "0 < length pat"
    using find_str_from_bound by auto
  then show "((str, pat, to, pos + length pat, result @ take (pos - start) (drop start str) @ to),
      str, pat, to, start, result)
    \<in> measure (\<lambda>(str, from, to, start, result). Suc (length str) - start)"
    by (cases pat) auto
qed simp

declare replace_loop.simps [simp del]

definition replaceInPlace :: "string \<Rightarrow> string \<Rightarrow> string \<Rightarrow> nat \<Rightarrow> exn + string" where
  "replaceInPlace str from to start =
     (if from = [] then Inl AssertionViolation
      else replace_loop str from to start (take start str))"

text \<open>\<open>cat\<close> with a delimiter: the delimiter is written only once the result is not empty.\<close>

definition cat_delim :: "string \<Rightarrow> string list \<Rightarrow> string" where
  "cat_delim delim parts =
     foldl (\<lambda>result s. (if result \<noteq> [] then result @ delim else result) @ s) [] parts"

section \<open>Lemmas\<close>

lemma back_over_space_spec:
  "n \<le> length str \<Longrightarrow>
     back_over_space str n \<le> n
   \<and> (\<forall>i. back_over_space str n \<le> i \<and> i < n \<longrightarrow> space (str ! i))
   \<and> (0 < back_over_space str n \<longrightarrow> \<not> space (str ! (back_over_space str n - 1)))"
proof (induction n)
  case (Suc n)
  then show ?case by (auto simp: less_Suc_eq)
qed simp

text \<open>The end of the kept part, as an index: everything behind it is white space.\<close>

lemma take_eq_rev_dropWhile:
  assumes "k \<le> length xs" "\<forall>i. k \<le> i \<and> i < length xs \<longrightarrow> P (xs ! i)"
    and "0 < k \<longrightarrow> \<not> P (xs ! (k - 1))"
  shows "take k xs = rev (dropWhile P (rev xs))"
proof -
  have all: "\<forall>x \<in> set (drop k xs). P x"
    using assms(1,2) by (auto simp: in_set_conv_nth)
  have "rev xs = rev (drop k xs) @ rev (take k xs)"
    by (metis append_take_drop_id rev_append)
  moreover have "dropWhile P (rev (take k xs)) = rev (take k xs)"
  proof (cases k)
    case (Suc m)
    with assms(1) have "take k xs = take m xs @ [xs ! m]"
      by (simp add: take_Suc_conv_app_nth)
    with assms(3) Suc show ?thesis by simp
  qed simp
  moreover have "dropWhile P (rev (drop k xs) @ rev (take k xs)) = dropWhile P (rev (take k xs))"
    using all by (intro dropWhile_append2) auto
  ultimately show ?thesis by simp
qed

lemma trimRight_eq: "trimRight str = rev (dropWhile space (rev str))"
  using back_over_space_spec [of "length str" str]
  by (auto simp: trimRight_def intro: take_eq_rev_dropWhile)

lemma trim_first_spec:
  "first \<le> length str \<Longrightarrow>
     trim_first str first (length str) = first + length (takeWhile space (drop first str))"
proof (induction str first "length str" rule: trim_first.induct)
  case (1 str first)
  show ?case
  proof (cases "first < length str")
    case True
    then have "drop first str = str ! first # drop (Suc first) str"
      by (simp add: Cons_nth_drop_Suc)
    with True 1 show ?thesis by (subst trim_first.simps) auto
  next
    case False
    then show ?thesis by (subst trim_first.simps) auto
  qed
qed

lemma trim_last_spec:
  "first \<le> end \<Longrightarrow>
     first \<le> trim_last str first end \<and> trim_last str first end \<le> end
   \<and> (\<forall>i. trim_last str first end \<le> i \<and> i < end \<longrightarrow> space (str ! i))
   \<and> (first < trim_last str first end \<longrightarrow> \<not> space (str ! (trim_last str first end - 1)))"
proof (induction str first "end" rule: trim_last.induct)
  case (1 str first "end")
  show ?case
  proof (cases "first < end \<and> space (str ! (end - 1))")
    case True
    then have eq: "trim_last str first end = trim_last str first (end - 1)"
      by (subst trim_last.simps) simp
    have IH: "first \<le> trim_last str first (end - 1) \<and> trim_last str first (end - 1) \<le> end - 1
      \<and> (\<forall>i. trim_last str first (end - 1) \<le> i \<and> i < end - 1 \<longrightarrow> space (str ! i))
      \<and> (first < trim_last str first (end - 1) \<longrightarrow>
          \<not> space (str ! (trim_last str first (end - 1) - 1)))"
      by (rule 1) (use True in auto)
    have "i < end - 1 \<or> i = end - 1" if "i < end" for i
      using that by auto
    with IH True show ?thesis unfolding eq by (metis le_trans diff_le_self)
  next
    case False
    then show ?thesis using 1 by (subst (1 2 3 4 5) trim_last.simps) auto
  qed
qed

lemma trim_eq: "trim str = rev (dropWhile space (rev (dropWhile space str)))"
proof -
  let ?f = "trim_first str 0 (length str)"
  let ?e = "trim_last str ?f (length str)"
  have f: "?f = length (takeWhile space str)"
    using trim_first_spec [of 0 str] by simp
  then have fl: "?f \<le> length str" by (simp add: length_takeWhile_le)
  have d: "drop ?f str = dropWhile space str"
    by (simp add: f dropWhile_eq_drop)
  have "take (?e - ?f) (drop ?f str) = rev (dropWhile space (rev (drop ?f str)))"
    using trim_last_spec [OF fl, of str] fl
    by (intro take_eq_rev_dropWhile) (auto simp: le_diff_conv less_diff_conv add.commute)
  then show ?thesis by (simp add: trim_def Let_def d)
qed

lemma trimInPlace_eq: "trimInPlace str = trim str"
  by (simp add: trimInPlace_def trim_def Let_def drop_take)

subsection \<open>Comparators\<close>

text \<open>
  What a three-way comparison owes to an ordered container that uses it: it changes sign
  when its arguments are swapped, and arguments that compare equal are interchangeable.
  Its negative results then form a strict weak order, which is what \<open>std::map\<close> and
  \<open>std::set\<close> require of their ordering.
\<close>

locale comparator =
  fixes cmp :: "'a \<Rightarrow> 'a \<Rightarrow> int"
  assumes cmp_swap: "cmp y x = - cmp x y"
    and cmp_trans: "\<lbrakk>cmp x y \<le> 0; cmp y z \<le> 0\<rbrakk> \<Longrightarrow> cmp x z \<le> 0"
begin

lemma cmp_refl [simp]: "cmp x x = 0"
  using cmp_swap [of x x] by simp

lemma less_irrefl: "\<not> cmp x x < 0"
  by simp

lemma less_trans: "\<lbrakk>cmp x y < 0; cmp y z < 0\<rbrakk> \<Longrightarrow> cmp x z < 0"
  using cmp_trans [of x y z] cmp_trans [of z x y] cmp_swap [of x y] cmp_swap [of x z]
    cmp_swap [of y z] by linarith

lemma equiv_trans: "\<lbrakk>cmp x y = 0; cmp y z = 0\<rbrakk> \<Longrightarrow> cmp x z = 0"
  using cmp_trans [of x y z] cmp_trans [of z y x] cmp_swap [of x y] cmp_swap [of x z]
    cmp_swap [of y z] by linarith

lemma incomparable_iff: "\<not> cmp x y < 0 \<and> \<not> cmp y x < 0 \<longleftrightarrow> cmp x y = 0"
  using cmp_swap [of x y] by linarith

end

text \<open>The value the comparison looks at; two characters have the same key iff they fold to the
  same lower-case character.\<close>

definition fold_key :: "char \<Rightarrow> int" where
  "fold_key c = schar (lowerc c)"

lemma fold_key_eq: "fold_key a = fold_key b \<longleftrightarrow> lowerc a = lowerc b"
  by (simp add: fold_key_def)

lemma icompare_Cons:
  "icompare (a # s) (b # t) =
     (if fold_key a < fold_key b then -1
      else if fold_key b < fold_key a then 1 else icompare s t)"
  by (simp only: icompare.simps fold_key_def Let_def)

declare icompare.simps(4) [simp del]

lemma icompare_swap: "icompare y x = - icompare x y"
proof (induction x y rule: icompare.induct)
  case (4 a s b t)
  then show ?case by (simp add: icompare_Cons fold_key_def Let_def)
qed simp_all

lemma icompare_Cons_le:
  "icompare (a # s) (b # t) \<le> 0 \<longleftrightarrow>
     fold_key a < fold_key b \<or> fold_key a = fold_key b \<and> icompare s t \<le> 0"
  unfolding icompare_Cons by auto

lemma icompare_Nil [simp]: "icompare [] t \<le> 0"
  by (cases t) simp_all

lemma icompare_Cons_Nil [simp]: "\<not> icompare (a # s) [] \<le> 0"
  by simp

lemma icompare_trans:
  "\<lbrakk>icompare x y \<le> 0; icompare y z \<le> 0\<rbrakk> \<Longrightarrow> icompare x z \<le> 0"
proof (induction x arbitrary: y z)
  case (Cons a x)
  from Cons.prems obtain b y' where y: "y = b # y'" by (cases y) auto
  with Cons.prems obtain c z' where z: "z = c # z'" by (cases z) auto
  from Cons.prems Cons.IH [of y' z'] show ?case
    unfolding y z icompare_Cons_le by linarith
qed simp

lemma icompare_0_iff: "icompare x y = 0 \<longleftrightarrow> toLowerStr x = toLowerStr y"
proof (induction x arbitrary: y)
  case Nil
  show ?case by (cases y) (simp_all add: toLowerStr_def)
next
  case (Cons a x)
  show ?case
  proof (cases y)
    case (Cons b y')
    have "icompare (a # x) (b # y') = 0 \<longleftrightarrow> fold_key a = fold_key b \<and> icompare x y' = 0"
      unfolding icompare_Cons by auto
    with Cons show ?thesis by (simp add: Cons.IH fold_key_eq toLowerStr_def)
  qed (simp add: toLowerStr_def)
qed

interpretation ci: comparator icompare
  by unfold_locales (fact icompare_swap, fact icompare_trans)

lemma icompare_part_full:
  "\<lbrakk>length str < 2 ^ 63\<rbrakk> \<Longrightarrow> icompare_part str 0 (length str) it2 = Inr (icompare str it2)"
  by (simp add: icompare_part_def)

lemma icompare_part_defined:
  assumes "length str < 2 ^ 63" "n < 2 ^ 63"
  shows "icompare_part str pos n it2
    = Inr (icompare (take n (drop pos str)) it2)"
proof -
  let ?p = "min pos (length str)"
  have "(?p + n) mod 2 ^ 64 = ?p + n"
    using assms by (intro mod_less) (auto simp: min_def)
  then show ?thesis
    by (auto simp: icompare_part_def Let_def min_def split: if_splits)
qed

subsection \<open>Searching and replacing\<close>

lemma find_char_None: "find_char s c = None \<longleftrightarrow> c \<notin> set s"
  by (induction s) auto

lemma find_char_Some:
  "find_char s c = Some k \<Longrightarrow> k < length s \<and> s ! k = c \<and> (\<forall>j<k. s ! j \<noteq> c)"
  by (induction s arbitrary: k) (fastforce simp: less_Suc_eq_0_disj split: if_splits)+

lemma find_str_None: "find_str s pat = None \<longleftrightarrow> \<not> sublist pat s"
  by (induction s) (auto simp: sublist_Cons_right)

lemma find_str_Some:
  "find_str s pat = Some k \<Longrightarrow> prefix pat (drop k s) \<and> (\<forall>j<k. \<not> prefix pat (drop j s))"
proof (induction s arbitrary: k)
  case (Cons d s)
  show ?case
  proof (cases "prefix pat (d # s)")
    case False
    with Cons.prems obtain m where m: "find_str s pat = Some m" "k = Suc m" by auto
    then show ?thesis using Cons.IH [OF m(1)] False
      by (auto simp: less_Suc_eq_0_disj)
  qed (use Cons.prems in auto)
qed (auto split: if_splits)

text \<open>
  Reference: scan from the left, replace an occurrence and go on behind it, else copy one
  character.
\<close>

function subst_all :: "string \<Rightarrow> string \<Rightarrow> string \<Rightarrow> string" where
  "subst_all pat to s =
     (if s = [] \<or> pat = [] then s
      else if prefix pat s then to @ subst_all pat to (drop (length pat) s)
      else hd s # subst_all pat to (tl s))"
  by pat_completeness auto
termination
  by (relation "measure (\<lambda>(pat, to, s). length s)") auto

declare subst_all.simps [simp del]

lemma subst_all_skip:
  "\<lbrakk>pat \<noteq> []; k \<le> length s; \<forall>j<k. \<not> prefix pat (drop j s)\<rbrakk>
   \<Longrightarrow> subst_all pat to s = take k s @ subst_all pat to (drop k s)"
proof (induction k arbitrary: s)
  case (Suc k)
  then obtain d s' where s: "s = d # s'" by (cases s) auto
  have "\<not> prefix pat s" using Suc.prems(3) by force
  then have "subst_all pat to s = d # subst_all pat to s'"
    using s Suc.prems(1) by (subst subst_all.simps) simp
  moreover have "\<forall>j<k. \<not> prefix pat (drop j s')"
    using Suc.prems(3) s by auto
  ultimately show ?case using Suc.IH [of s'] Suc.prems s by simp
qed simp

lemma subst_all_none: "pat = [] \<or> \<not> sublist pat s \<Longrightarrow> subst_all pat to s = s"
proof (induction s)
  case (Cons d s)
  then show ?case
    by (subst subst_all.simps) (auto simp: sublist_Cons_right)
qed (simp add: subst_all.simps)

lemma replace_loop_spec:
  "\<lbrakk>pat \<noteq> []; start \<le> length str\<rbrakk>
   \<Longrightarrow> replace_loop str pat to start result = Inr (result @ subst_all pat to (drop start str))"
proof (induction str pat to start result rule: replace_loop.induct)
  case (1 str pat to start result)
  show ?case
  proof (cases "find_str_from str pat start")
    case None
    then have "\<not> sublist pat (drop start str)"
      using 1 by (simp add: find_str_from_def find_str_None)
    with None 1 show ?thesis
      by (subst replace_loop.simps) (simp add: subst_all_none)
  next
    case (Some pos)
    then obtain k where k: "find_str (drop start str) pat = Some k" "pos = start + k"
      by (auto simp: find_str_from_def split: if_splits)
    have b: "pos + length pat \<le> length str"
      using find_str_from_bound [OF Some] by simp
    have IH: "replace_loop str pat to (pos + length pat)
        (result @ take (pos - start) (drop start str) @ to)
      = Inr ((result @ take (pos - start) (drop start str) @ to)
          @ subst_all pat to (drop (pos + length pat) str))"
      by (rule 1) (use 1 Some b in auto)
    have p: "prefix pat (drop pos str)" "\<forall>j<k. \<not> prefix pat (drop j (drop start str))"
      using find_str_Some [OF k(1)] k(2) by (auto simp: add.commute)
    have "subst_all pat to (drop pos str) = to @ subst_all pat to (drop (pos + length pat) str)"
      using p(1) 1 b by (subst subst_all.simps) (auto simp: add.commute)
    moreover have "subst_all pat to (drop start str)
        = take k (drop start str) @ subst_all pat to (drop pos str)"
      using subst_all_skip [of pat k "drop start str" to] p(2) 1 b k(2)
      by (simp add: add.commute)
    ultimately show ?thesis
      using IH Some k(2) 1 by (subst replace_loop.simps) simp
  qed
qed

lemma replaceInPlace_spec:
  "\<lbrakk>pat \<noteq> []; start \<le> length str\<rbrakk>
   \<Longrightarrow> replaceInPlace str pat to start = Inr (take start str @ subst_all pat to (drop start str))"
  by (simp add: replaceInPlace_def replace_loop_spec)

lemma replaceInPlace_beyond:
  "\<lbrakk>pat \<noteq> []; length str < start\<rbrakk> \<Longrightarrow> replaceInPlace str pat to start = Inl StdOutOfRange"
  by (simp add: replaceInPlace_def replace_loop.simps find_str_from_def)

section \<open>Properties\<close>

lemma takeWhile_dropWhile_ends:
  "\<exists>l. s = l @ dropWhile P s \<and> list_all P l \<and> (dropWhile P s = [] \<or> \<not> P (hd (dropWhile P s)))"
  using hd_dropWhile [of P s] takeWhile_dropWhile_id [of P s] list_all_takeWhile [of P s] by metis

text \<open>\<open>trim\<close> cuts white space off both ends and nothing else, and \<open>trimInPlace\<close> gives the same.\<close>

theorem trim_spec:
  "\<exists>l r. str = l @ trim str @ r \<and> list_all space l \<and> list_all space r
     \<and> (trim str = [] \<or> \<not> space (hd (trim str)) \<and> \<not> space (last (trim str)))
     \<and> trimInPlace str = trim str"
proof -
  let ?a = "dropWhile space str"
  obtain l where l: "str = l @ ?a" "list_all space l" "?a = [] \<or> \<not> space (hd ?a)"
    using takeWhile_dropWhile_ends [of str space] by blast
  obtain r where r: "rev ?a = r @ dropWhile space (rev ?a)" "list_all space r"
      "dropWhile space (rev ?a) = [] \<or> \<not> space (hd (dropWhile space (rev ?a)))"
    using takeWhile_dropWhile_ends [of "rev ?a" space] by blast
  have t: "trim str = rev (dropWhile space (rev ?a))" by (rule trim_eq)
  have a: "?a = trim str @ rev r" using r(1) t by (metis rev_append rev_rev_ident)
  then have "str = l @ trim str @ rev r" using l(1) by simp
  moreover have "list_all space (rev r)" using r(2) by simp
  moreover have "trim str = [] \<or> \<not> space (hd (trim str)) \<and> \<not> space (last (trim str))"
  proof (cases "trim str = []")
    case False
    then have "\<not> space (hd (trim str))" using l(3) a by (metis append_is_Nil_conv hd_append2)
    moreover have "\<not> space (last (trim str))" using r(3) t False by (metis last_rev rev_is_Nil_conv)
    ultimately show ?thesis by blast
  qed simp
  ultimately show ?thesis using l(2) trimInPlace_eq by blast
qed

text \<open>C32: \<open>CILess\<close>, the order of the case-insensitive containers, is a strict weak order, and two
  strings are equivalent in it exactly when they are equal in lower case.\<close>

theorem CILess_strict_weak_order:
  "\<not> CILess x x
   \<and> (CILess x y \<and> CILess y z \<longrightarrow> CILess x z)
   \<and> (\<not> CILess x y \<and> \<not> CILess y x \<longleftrightarrow> toLowerStr x = toLowerStr y)"
  using ci.less_irrefl [of x] ci.less_trans [of x y z] ci.incomparable_iff [of x y] icompare_0_iff [of x y]
  by (auto simp: CILess_def)

theorem CILess_strict_weak_order_witness:
  "CILess ''Abc'' ''aBD'' \<and> CILess ''aBD'' ''ac'' \<and> CILess ''Abc'' ''ac''"
proof -
  have "CILess ''Abc'' ''aBD'' \<and> CILess ''aBD'' ''ac''" by code_simp
  then show ?thesis using CILess_strict_weak_order [of "''Abc''" "''aBD''" "''ac''"] by blast
qed

text \<open>C33: \<open>replaceInPlace\<close> replaces the occurrences behind the start position that a scan from left to
  right finds, without looking into what it has put in; a start behind the end throws.\<close>

theorem replace_spec:
  assumes "pat \<noteq> []"
  shows "replaceInPlace str pat to start =
    (if start \<le> length str then Inr (take start str @ subst_all pat to (drop start str))
     else Inl StdOutOfRange)"
  using replaceInPlace_spec [OF assms, of start str to] replaceInPlace_beyond [OF assms, of str start to]
  by auto

theorem replace_spec_witness:
  "replaceInPlace ''aXaaX'' ''aa'' ''aaa'' 1 = Inr ''aXaaaX'' \<and> replaceInPlace ''a'' ''a'' ''b'' 2 = Inl StdOutOfRange"
proof -
  have "subst_all ''aa'' ''aaa'' ''XaaX'' = ''XaaaX''" by code_simp
  then show ?thesis
    using replace_spec [of "''aa''" "''aXaaX''" "''aaa''" 1] replace_spec [of "''a''" "''a''" "''b''" 2]
    by simp
qed

end
