(* ===== verification/NumericString.thy ===== *)
theory NumericString
  imports Strings "HOL-Library.Signed_Division"
begin

text \<open>
  Conversion between integers and strings (\<open>NumericString.h\<close>), with the parsing and
  formatting front ends \<open>NumberParser\<close> and \<open>NumberFormatter\<close>. The templates are instantiated
  by a description of the integer type for parsing; formatting works on the mathematical
  value, which the C++ arithmetic of the digit loop never leaves the range of.
\<close>

section \<open>Integer to string\<close>

text \<open>
  The output buffer is a \<open>char\<close> array of \<open>size\<close> bytes behind the checked pointer \<open>Impl::Ptr\<close>,
  whose increment throws when it would pass the end. The model keeps the bytes written
  so far.
\<close>

definition put :: "nat \<Rightarrow> char \<Rightarrow> string \<Rightarrow> exn + string" where
  "put sz c buf = (if length buf + 1 > sz then Inl RangeException else Inr (buf @ [c]))"

definition DIGITS :: string where
  "DIGITS = ''FEDCBA9876543210123456789ABCDEF''"

text \<open>The \<open>do ... while (value)\<close> loop. The last \<open>tmpVal\<close> is returned: its sign is the sign of the
  number. A thousand separator of \<open>0\<close> is none.\<close>

function digit_loop ::
  "nat \<Rightarrow> nat \<Rightarrow> char \<Rightarrow> int \<Rightarrow> nat \<Rightarrow> string \<Rightarrow> exn + (int \<times> string)" where
  "digit_loop sz base thSep value thCount buf =
     (let tmpVal = value;
          value = tmpVal sdiv int base
      in case put sz (DIGITS ! nat (15 + (tmpVal - value * int base))) buf of
           Inl e \<Rightarrow> Inl e
         | Inr buf \<Rightarrow>
             if thSep \<noteq> CHR 0x00 \<and> base = 10 then
               (if thCount + 1 = 3 then
                  (case put sz thSep buf of
                     Inl e \<Rightarrow> Inl e
                   | Inr buf \<Rightarrow>
                       if value \<noteq> 0 then digit_loop sz base thSep value 0 buf
                       else Inr (tmpVal, buf))
                else if value \<noteq> 0 then digit_loop sz base thSep value (thCount + 1) buf
                else Inr (tmpVal, buf))
             else if value \<noteq> 0 then digit_loop sz base thSep value thCount buf
             else Inr (tmpVal, buf))"
  by pat_completeness auto
termination
  by (relation "measure (\<lambda>(sz, base, thSep, value, thCount, buf). sz - length buf)")
    (auto simp: put_def split: if_splits)

declare digit_loop.simps [simp del]

text \<open>\<open>while ((ptr - result) < width) *ptr++ = fill;\<close>\<close>

function pad_loop :: "nat \<Rightarrow> int \<Rightarrow> char \<Rightarrow> string \<Rightarrow> exn + string" where
  "pad_loop sz width fill buf =
     (if int (length buf) < width then
        (case put sz fill buf of
           Inl e \<Rightarrow> Inl e
         | Inr buf \<Rightarrow> pad_loop sz width fill buf)
      else Inr buf)"
  by pat_completeness auto
termination
  by (relation "measure (\<lambda>(sz, width, fill, buf). sz - length buf)")
    (auto simp: put_def split: if_splits)

declare pad_loop.simps [simp del]

text \<open>The final loop, which swaps the two ends until the pointers meet.\<close>

function swap_loop :: "string \<Rightarrow> nat \<Rightarrow> nat \<Rightarrow> string" where
  "swap_loop buf l r =
     (if l < r then swap_loop (buf[r := buf ! l, l := buf ! r]) (l + 1) (r - 1) else buf)"
  by pat_completeness auto
termination
  by (relation "measure (\<lambda>(buf, l, r). r - l)") auto

declare swap_loop.simps [simp del]

text \<open>What both conversions do once the digits and the sign width are known: prefix, sign and
  padding in the order of the code, terminator, reversal. The terminating zero goes to
  the position behind the last byte, which must lie inside the array.\<close>

definition put_prefix :: "nat \<Rightarrow> nat \<Rightarrow> bool \<Rightarrow> string \<Rightarrow> exn + string" where
  "put_prefix sz base pfx buf =
     (if pfx \<and> base = 8 then put sz (CHR ''0'') buf
      else if pfx \<and> base = 16 then
        (case put sz (CHR ''x'') buf of Inl e \<Rightarrow> Inl e | Inr buf \<Rightarrow> put sz (CHR ''0'') buf)
      else Inr buf)"

definition terminate :: "nat \<Rightarrow> string \<Rightarrow> exn + string" where
  "terminate sz buf =
     (if length buf \<ge> sz then Inl UndefinedBehaviour
      else Inr (swap_loop buf 0 (length buf - 1)))"

abbreviation bind_res :: "exn + 'a \<Rightarrow> ('a \<Rightarrow> exn + 'b) \<Rightarrow> exn + 'b" where
  "bind_res m f \<equiv> (case m of Inl e \<Rightarrow> Inl e | Inr x \<Rightarrow> f x)"

text \<open>The result pairs the returned flag with the bytes of the buffer that hold the number;
  \<open>None\<close> stands for a buffer whose content was not produced (only its first byte is zeroed).\<close>

definition intToStr ::
  "nat \<Rightarrow> int \<Rightarrow> nat \<Rightarrow> bool \<Rightarrow> int \<Rightarrow> char \<Rightarrow> char \<Rightarrow> exn + string option" where
  "intToStr sz value base pfx width fill thSep =
     (if base < 2 \<or> base > 16 then Inr None
      else bind_res (digit_loop sz base thSep value 0 [])
        (\<lambda>(tmpVal, buf).
           let width =
                 (if fill = CHR ''0'' then
                    (let w = (if tmpVal < 0 then width - 1 else width);
                         w = (if pfx \<and> base = 8 then w - 1 else w)
                     in if pfx \<and> base = 16 then w - 2 else w)
                  else width)
           in bind_res (if fill = CHR ''0'' then pad_loop sz width fill buf else Inr buf)
                (\<lambda>buf. bind_res (put_prefix sz base pfx buf)
                  (\<lambda>buf. bind_res (if tmpVal < 0 then put sz (CHR ''-'') buf else Inr buf)
                    (\<lambda>buf. bind_res
                       (if fill \<noteq> CHR ''0'' then pad_loop sz width fill buf else Inr buf)
                       (\<lambda>buf. map_sum id Some (terminate sz buf)))))))"

definition uIntToStr ::
  "nat \<Rightarrow> nat \<Rightarrow> nat \<Rightarrow> bool \<Rightarrow> int \<Rightarrow> char \<Rightarrow> char \<Rightarrow> exn + string option" where
  "uIntToStr sz value base pfx width fill thSep =
     (if base < 2 \<or> base > 16 then Inr None
      else bind_res (digit_loop sz base thSep (int value) 0 [])
        (\<lambda>(tmpVal, buf).
           let width =
                 (if fill = CHR ''0'' then
                    (let w = (if pfx \<and> base = 8 then width - 1 else width)
                     in if pfx \<and> base = 16 then w - 2 else w)
                  else width)
           in bind_res (if fill = CHR ''0'' then pad_loop sz width fill buf else Inr buf)
                (\<lambda>buf. bind_res (put_prefix sz base pfx buf)
                  (\<lambda>buf. bind_res
                     (if fill \<noteq> CHR ''0'' then pad_loop sz width fill buf else Inr buf)
                     (\<lambda>buf. map_sum id Some (terminate sz buf))))))"

definition POCO_MAX_INT_STRING_LEN :: nat where "POCO_MAX_INT_STRING_LEN = 65"
definition NF_MAX_INT_STRING_LEN :: nat where "NF_MAX_INT_STRING_LEN = 32"

text \<open>The \<open>std::string\<close> wrappers: the array is zeroed and \<open>size\<close> bytes of it are assigned, all 65
  when the conversion failed.\<close>

definition assign_result :: "string option \<Rightarrow> bool \<times> string" where
  "assign_result r =
     (case r of None \<Rightarrow> (False, replicate POCO_MAX_INT_STRING_LEN (CHR 0x00)) | Some s \<Rightarrow> (True, s))"

definition intToStrS ::
  "int \<Rightarrow> nat \<Rightarrow> bool \<Rightarrow> int \<Rightarrow> char \<Rightarrow> char \<Rightarrow> exn + bool \<times> string" where
  "intToStrS number base pfx width fill thSep =
     map_sum id assign_result
       (intToStr POCO_MAX_INT_STRING_LEN number base pfx width fill thSep)"

definition uIntToStrS ::
  "nat \<Rightarrow> nat \<Rightarrow> bool \<Rightarrow> int \<Rightarrow> char \<Rightarrow> char \<Rightarrow> exn + bool \<times> string" where
  "uIntToStrS number base pfx width fill thSep =
     map_sum id assign_result
       (uIntToStr POCO_MAX_INT_STRING_LEN number base pfx width fill thSep)"

section \<open>What the formatter writes\<close>

text \<open>The digits of a natural number, least significant first, and the text a number is meant
  to have.\<close>

definition hexd :: "nat \<Rightarrow> char" where
  "hexd d = DIGITS ! (15 + d)"

function rdigits :: "nat \<Rightarrow> nat \<Rightarrow> string" where
  "rdigits b n = (if b < 2 \<or> n < b then [hexd n] else hexd (n mod b) # rdigits b (n div b))"
  by pat_completeness auto
termination
  by (relation "measure (\<lambda>(b, n). n)") auto

declare rdigits.simps [simp del]

definition base_prefix :: "nat \<Rightarrow> bool \<Rightarrow> string" where
  "base_prefix b pfx = (if pfx \<and> b = 8 then ''0'' else if pfx \<and> b = 16 then ''0x'' else [])"

definition format_spec :: "nat \<Rightarrow> bool \<Rightarrow> int \<Rightarrow> char \<Rightarrow> int \<Rightarrow> string" where
  "format_spec b pfx width fill v =
     (let sg = (if v < 0 then ''-'' else []);
          pr = base_prefix b pfx;
          ds = rev (rdigits b (nat \<bar>v\<bar>));
          n = nat (width - int (length (sg @ pr @ ds)))
      in if fill = CHR ''0'' then sg @ pr @ replicate n fill @ ds
         else replicate n fill @ sg @ pr @ ds)"

text \<open>Every stage of the formatter appends some text to the buffer or runs out of room.\<close>

definition app :: "nat \<Rightarrow> string \<Rightarrow> string \<Rightarrow> exn + string" where
  "app sz x buf =
     (if x = [] \<or> length buf + length x \<le> sz then Inr (buf @ x) else Inl RangeException)"

lemma bind_res_app [simp]: "bind_res (app sz x buf) (app sz y) = app sz (x @ y) buf"
  by (auto simp: app_def)

lemma bind_res_assoc: "bind_res (bind_res m f) g = bind_res m (\<lambda>x. bind_res (f x) g)"
  by (cases m) auto

lemma bind_app:
  "bind_res (app sz x buf) (\<lambda>b. bind_res (app sz (g b) b) T)
     = bind_res (app sz (x @ g (buf @ x)) buf) T"
  by (auto simp: app_def)

lemma bind_map_sum: "bind_res (map_sum id (Pair t) m) (\<lambda>(a, b). F a b) = bind_res m (F t)"
  by (cases m) auto

lemma app_Nil [simp]: "app sz [] buf = Inr buf"
  by (simp add: app_def)

lemma put_app: "put sz c = app sz [c]"
  by (auto simp: put_def app_def)

lemma pad_loop_app:
  "pad_loop sz width fill buf = app sz (replicate (nat (width - int (length buf))) fill) buf"
proof (induction sz width fill buf rule: pad_loop.induct)
  case (1 sz width fill buf)
  show ?case
  proof (cases "int (length buf) < width")
    case True
    let ?n = "nat (width - int (length buf))"
    from True have n: "?n = Suc (nat (width - int (Suc (length buf))))" by simp
    have "pad_loop sz width fill buf = bind_res (put sz fill buf) (pad_loop sz width fill)"
      using True by (subst pad_loop.simps) simp
    also have "\<dots> = app sz (fill # replicate (nat (width - int (Suc (length buf)))) fill) buf"
    proof (cases "put sz fill buf")
      case (Inl e)
      then show ?thesis by (auto simp: put_def app_def split: if_splits)
    next
      case (Inr b)
      then have "b = buf @ [fill]" by (simp add: put_def split: if_splits)
      then show ?thesis using 1 True Inr
        by (auto simp: put_def app_def split: if_splits)
    qed
    also have "\<dots> = app sz (replicate ?n fill) buf" by (simp add: n)
    finally show ?thesis .
  qed (subst pad_loop.simps, simp)
qed

lemma put_prefix_app: "put_prefix sz b pfx buf = app sz (rev (base_prefix b pfx)) buf"
  unfolding put_prefix_def base_prefix_def put_app by auto

lemma hexd_neg: "d < 16 \<Longrightarrow> DIGITS ! (15 - d) = hexd d"
  by (auto simp: hexd_def DIGITS_def nth_Cons' eval_nat_numeral less_Suc_eq)

lemma sdiv_eq: "2 \<le> b \<Longrightarrow> v sdiv int b = sgn v * int (nat \<bar>v\<bar> div b)"
  by (simp add: signed_divide_int_def zdiv_int)

lemma abs_sdiv: "2 \<le> b \<Longrightarrow> nat \<bar>v sdiv int b\<bar> = nat \<bar>v\<bar> div b"
  by (cases "v = 0") (simp_all add: sdiv_eq abs_mult abs_sgn_eq)

lemma sgn_sdiv: "2 \<le> b \<Longrightarrow> v sdiv int b \<noteq> 0 \<Longrightarrow> (v sdiv int b < 0 \<longleftrightarrow> v < 0)"
  by (auto simp: sdiv_eq sgn_if zero_less_mult_iff mult_less_0_iff)

lemma digit_char:
  assumes "2 \<le> b" "b \<le> 16"
  shows "DIGITS ! nat (15 + (v - (v sdiv int b) * int b)) = hexd (nat \<bar>v\<bar> mod b)"
proof -
  let ?n = "nat \<bar>v\<bar>"
  have "?n mod b < b" using assms by simp
  then have m: "?n mod b < 16" using assms by linarith
  have "v = sgn v * int ?n" by (simp add: sgn_mult_abs)
  then have "v - (v sdiv int b) * int b = sgn v * (int ?n - int (?n div b) * int b)"
    using assms by (simp add: sdiv_eq algebra_simps)
  also have "int ?n - int (?n div b) * int b = int (?n mod b)"
    by (simp add: minus_div_mult_eq_mod zdiv_int zmod_int)
  finally have eq: "v - (v sdiv int b) * int b = sgn v * int (?n mod b)" .
  show ?thesis
  proof (cases "v < 0")
    case True
    then have "nat (15 + (v - (v sdiv int b) * int b)) = 15 - ?n mod b"
      using m by (simp add: eq)
    then show ?thesis using hexd_neg [OF m] by simp
  next
    case False
    then have "nat (15 + (v - (v sdiv int b) * int b)) = 15 + ?n mod b"
      by (cases "v = 0") (simp_all add: eq)
    then show ?thesis by (simp add: hexd_def)
  qed
qed

lemma digit_loop_app:
  assumes "2 \<le> b" "b \<le> 16"
  shows "\<exists>t. (t < 0 \<longleftrightarrow> v < 0) \<and>
    digit_loop sz b (CHR 0x00) v k buf = map_sum id (Pair t) (app sz (rdigits b (nat \<bar>v\<bar>)) buf)"
proof (induction "nat \<bar>v\<bar>" arbitrary: v buf rule: less_induct)
  case less
  let ?q = "v sdiv int b" and ?c = "hexd (nat \<bar>v\<bar> mod b)"
  have dl: "digit_loop sz b (CHR 0x00) v k buf = bind_res (put sz ?c buf)
      (\<lambda>buf. if ?q \<noteq> 0 then digit_loop sz b (CHR 0x00) ?q k buf else Inr (v, buf))"
    by (subst digit_loop.simps) (simp add: digit_char [OF assms] Let_def split: sum.split)
  show ?case
  proof (cases "?q = 0")
    case True
    then have "nat \<bar>v\<bar> < b" using abs_sdiv [OF assms(1), of v] assms by (simp add: div_eq_0_iff)
    then have "rdigits b (nat \<bar>v\<bar>) = [?c]" by (subst rdigits.simps) simp
    then show ?thesis using True dl by (intro exI [of _ v]) (auto simp: put_app app_def)
  next
    case False
    then have nb: "\<not> nat \<bar>v\<bar> < b" using abs_sdiv [OF assms(1), of v] assms(1)
      by (metis div_less nat_0_iff abs_le_zero_iff)
    have lt: "nat \<bar>?q\<bar> < nat \<bar>v\<bar>"
      using nb assms by (simp add: abs_sdiv)
    obtain t where t: "t < 0 \<longleftrightarrow> ?q < 0" "digit_loop sz b (CHR 0x00) ?q k (buf @ [?c])
        = map_sum id (Pair t) (app sz (rdigits b (nat \<bar>?q\<bar>)) (buf @ [?c]))"
      using less [OF lt, of "buf @ [?c]"] by blast
    have "rdigits b (nat \<bar>v\<bar>) = ?c # rdigits b (nat \<bar>?q\<bar>)"
      using nb assms by (subst rdigits.simps) (simp add: abs_sdiv)
    moreover have "t < 0 \<longleftrightarrow> v < 0" using t(1) False sgn_sdiv [OF assms(1)] by simp
    ultimately show ?thesis using t(2) dl False
      by (intro exI [of _ t]) (auto simp: put_def app_def)
  qed
qed

lemma length_swap_loop [simp]: "length (swap_loop buf l r) = length buf"
  by (induction buf l r rule: swap_loop.induct) (subst swap_loop.simps, simp)

lemma nth_swap_loop:
  "\<lbrakk>r < length buf; i < length buf\<rbrakk> \<Longrightarrow>
     swap_loop buf l r ! i = (if l \<le> i \<and> i \<le> r then buf ! (l + r - i) else buf ! i)"
proof (induction buf l r rule: swap_loop.induct)
  case (1 buf l r)
  show ?case
  proof (cases "l < r")
    case True
    let ?b = "buf[r := buf ! l, l := buf ! r]"
    have "swap_loop buf l r ! i = swap_loop ?b (l + 1) (r - 1) ! i"
      using True by (subst swap_loop.simps) simp
    also have "\<dots> = (if l + 1 \<le> i \<and> i \<le> r - 1 then ?b ! (l + 1 + (r - 1) - i) else ?b ! i)"
      by (rule 1) (use 1 True in auto)
    also have "\<dots> = (if l \<le> i \<and> i \<le> r then buf ! (l + r - i) else buf ! i)"
      using 1 True by (auto simp: nth_list_update)
    finally show ?thesis .
  next
    case False
    then show ?thesis by (subst swap_loop.simps)
        (auto simp: not_less intro!: arg_cong [where f = "(!) buf"])
  qed
qed

text \<open>The in-place reversal is list reversal.\<close>

lemma swap_loop_rev: "swap_loop buf 0 (length buf - 1) = rev buf"
proof (rule nth_equalityI)
  fix i
  assume "i < length (swap_loop buf 0 (length buf - 1))"
  then have i: "i < length buf" by simp
  then show "swap_loop buf 0 (length buf - 1) ! i = rev buf ! i"
    by (subst nth_swap_loop) (auto simp: rev_nth)
qed simp

lemma terminate_app:
  "bind_res (app sz x []) (\<lambda>buf. map_sum id Some (terminate sz buf)) =
     (if length x < sz then Inr (Some (rev x))
      else if length x = sz then Inl UndefinedBehaviour
      else if x = [] then Inl UndefinedBehaviour else Inl RangeException)"
  by (auto simp: app_def terminate_def swap_loop_rev [simplified])

lemma rdigits_not_Nil [simp]: "rdigits b n \<noteq> []"
  by (subst rdigits.simps) simp

text \<open>
  The formatter, on every input without a thousand separator: the specified text when it
  and its terminator fit, a write one byte past the array when the text alone fills it,
  and a \<open>RangeException\<close> when even the text does not fit.
\<close>

lemma intToStr_cases:
  assumes "2 \<le> b" "b \<le> 16"
  shows "intToStr sz v b pfx width fill (CHR 0x00) =
    (let s = format_spec b pfx width fill v
     in if length s < sz then Inr (Some s)
        else if length s = sz then Inl UndefinedBehaviour
        else Inl RangeException)"
proof -
  obtain t where t: "t < 0 \<longleftrightarrow> v < 0" and
    dl: "digit_loop sz b (CHR 0x00) v 0 [] = map_sum id (Pair t) (app sz (rdigits b (nat \<bar>v\<bar>)) [])"
    using digit_loop_app [OF assms, of v sz 0 "[]"] by blast
  let ?ds = "rdigits b (nat \<bar>v\<bar>)" and ?sg = "(if v < 0 then ''-'' else [])"
  let ?x = "rev (format_spec b pfx width fill v)"
  let ?pr = "base_prefix b pfx"
  let ?T = "\<lambda>buf. map_sum id Some (terminate sz buf)"
  have "intToStr sz v b pfx width fill (CHR 0x00)
      = bind_res (app sz ?ds []) (\<lambda>buf.
          bind_res (app sz (if fill = CHR ''0''
              then replicate (nat (width - int (length (?sg @ ?pr @ buf)))) fill else []) buf) (\<lambda>buf.
            bind_res (app sz (rev ?pr) buf) (\<lambda>buf.
              bind_res (app sz ?sg buf) (\<lambda>buf.
                bind_res (app sz (if fill = CHR ''0'' then []
                  else replicate (nat (width - int (length buf))) fill) buf) ?T))))"
    unfolding intToStr_def dl bind_map_sum pad_loop_app put_prefix_app
    using assms by (auto simp: t put_app base_prefix_def Let_def algebra_simps cong del: sum.case_cong_weak)
  also have "\<dots> = bind_res (app sz ?x []) ?T"
    unfolding bind_app by (auto simp: format_spec_def Let_def algebra_simps)
  finally have "intToStr sz v b pfx width fill (CHR 0x00) = bind_res (app sz ?x []) ?T" .
  moreover have "?x \<noteq> []" by (auto simp: format_spec_def Let_def)
  ultimately show ?thesis by (simp add: terminate_app Let_def)
qed

lemma uIntToStr_eq:
  assumes "2 \<le> b" "b \<le> 16"
  shows "uIntToStr sz v b pfx width fill (CHR 0x00) = intToStr sz (int v) b pfx width fill (CHR 0x00)"
proof -
  obtain t where t: "\<not> t < 0" and
    dl: "digit_loop sz b (CHR 0x00) (int v) 0 [] = map_sum id (Pair t) (app sz (rdigits b v) [])"
    using digit_loop_app [OF assms, of "int v" sz 0 "[]"] by auto
  show ?thesis
    unfolding intToStr_def uIntToStr_def dl bind_map_sum
    using t assms by (simp add: Let_def cong del: sum.case_cong_weak)
qed

section \<open>String to integer\<close>

text \<open>The template parameter of \<open>strToInt\<close>: an integer type, given by signedness and width.\<close>

record int_type =
  is_signed :: bool
  bits :: nat

definition int_max :: "int_type \<Rightarrow> int" where
  "int_max I = (if is_signed I then 2 ^ (bits I - 1) - 1 else 2 ^ bits I - 1)"

definition Int32 :: int_type where "Int32 = \<lparr>is_signed = True, bits = 32\<rparr>"
definition UInt32 :: int_type where "UInt32 = \<lparr>is_signed = False, bits = 32\<rparr>"
definition Int64 :: int_type where "Int64 = \<lparr>is_signed = True, bits = 64\<rparr>"
definition UInt64 :: int_type where "UInt64 = \<lparr>is_signed = False, bits = 64\<rparr>"

text \<open>What one character makes the loop do: go on with a new state and result, return
  \<open>false\<close>, jump to \<open>done\<close>, or overflow a signed type.\<close>

datatype scan_step = Next bool int | Fail | Done | Undef

text \<open>\<open>if (result > limitCheck) return false; result = result * base + digit;\<close>\<close>

definition accumulate :: "int_type \<Rightarrow> int \<Rightarrow> int \<Rightarrow> int \<Rightarrow> scan_step" where
  "accumulate I base result digit =
     (let limitCheck = int_max I div base
      in if result > limitCheck then Fail
         else let v = result * base + digit
              in if is_signed I then (if v > int_max I then Undef else Next True v)
                 else Next True (v mod 2 ^ bits I))"

text \<open>The \<open>switch\<close>, its fall-through written out: \<open>'x'\<close> continues at \<open>'0'\<close>, which continues at
  the digits once a significant digit has been seen.\<close>

definition strToInt_step :: "int_type \<Rightarrow> int \<Rightarrow> char \<Rightarrow> bool \<Rightarrow> int \<Rightarrow> char \<Rightarrow> scan_step" where
  "strToInt_step I base thSep state result c =
     (if c = CHR ''x'' \<or> c = CHR ''X'' then
        (if base \<noteq> 16 then Fail
         else if \<not> state then Next state result
         else accumulate I base result (schar c - schar (CHR ''0'')))
      else if c = CHR ''0'' then
        (if \<not> state then Next state result
         else accumulate I base result (schar c - schar (CHR ''0'')))
      else if c \<in> {CHR ''1'', CHR ''2'', CHR ''3'', CHR ''4'', CHR ''5'', CHR ''6'', CHR ''7''} then
        accumulate I base result (schar c - schar (CHR ''0''))
      else if c \<in> {CHR ''8'', CHR ''9''} then
        (if base = 10 \<or> base = 16 then accumulate I base result (schar c - schar (CHR ''0''))
         else Fail)
      else if c \<in> {CHR ''a'', CHR ''b'', CHR ''c'', CHR ''d'', CHR ''e'', CHR ''f''} then
        (if base \<noteq> 16 then Fail
         else accumulate I base result (10 + schar c - schar (CHR ''a'')))
      else if c \<in> {CHR ''A'', CHR ''B'', CHR ''C'', CHR ''D'', CHR ''E'', CHR ''F''} then
        (if base \<noteq> 16 then Fail
         else accumulate I base result (10 + schar c - schar (CHR ''A'')))
      else if c \<in> {CHR ''U'', CHR ''u'', CHR ''L'', CHR ''l''} then Done
      else if c = CHR ''.'' then
        (if base = 10 \<and> thSep = CHR ''.'' then Next state result else Fail)
      else if c = CHR '','' then
        (if base = 10 \<and> thSep = CHR '','' then Next state result else Fail)
      else if c = CHR '' '' then
        (if base = 10 \<and> thSep = CHR '' '' then Next state result else Done)
      else if c \<in> {CHR 0x09, CHR 0x0A, CHR 0x0B, CHR 0x0C, CHR 0x0D} then Done
      else Fail)"

text \<open>The \<open>for\<close> loop up to the terminating zero; \<open>Inr None\<close> is a return of \<open>false\<close>.\<close>

fun strToInt_loop ::
  "int_type \<Rightarrow> int \<Rightarrow> char \<Rightarrow> bool \<Rightarrow> int \<Rightarrow> string \<Rightarrow> exn + int option" where
  "strToInt_loop I base thSep state result [] = Inr (Some result)"
| "strToInt_loop I base thSep state result (c # pStr) =
     (case strToInt_step I base thSep state result c of
        Next state result \<Rightarrow> strToInt_loop I base thSep state result pStr
      | Fail \<Rightarrow> Inr None
      | Done \<Rightarrow> Inr (Some result)
      | Undef \<Rightarrow> Inl UndefinedBehaviour)"

text \<open>\<open>std::string::c_str\<close> seen as a zero-terminated string, and \<open>isspace\<close> of the C locale.\<close>

definition c_str :: "string \<Rightarrow> string" where
  "c_str s = takeWhile (\<lambda>c. c \<noteq> CHR 0x00) s"

definition isspace :: "char \<Rightarrow> bool" where
  "isspace c \<longleftrightarrow> c \<in> {CHR 0x09, CHR 0x0A, CHR 0x0B, CHR 0x0C, CHR 0x0D, CHR '' ''}"

definition apply_sign :: "int_type \<Rightarrow> int \<Rightarrow> int" where
  "apply_sign I result = (if is_signed I then - result else (- result) mod 2 ^ bits I)"

definition strToInt :: "int_type \<Rightarrow> string \<Rightarrow> int \<Rightarrow> char \<Rightarrow> exn + int option" where
  "strToInt I str base thSep =
     (let pStr = dropWhile isspace (c_str str)
      in case pStr of
           [] \<Rightarrow> Inr None
         | c # rest \<Rightarrow>
             if base = 10 \<and> c = CHR ''-'' then
               map_sum id (map_option (apply_sign I)) (strToInt_loop I base thSep False 0 rest)
             else if c = CHR ''+'' then strToInt_loop I base thSep False 0 rest
             else strToInt_loop I base thSep False 0 (c # rest))"

section \<open>NumberParser\<close>

definition tryParse :: "string \<Rightarrow> char \<Rightarrow> exn + int option" where
  "tryParse s thSep = strToInt Int32 s 10 thSep"

definition tryParseUnsigned :: "string \<Rightarrow> char \<Rightarrow> exn + int option" where
  "tryParseUnsigned s thSep = strToInt UInt32 s 10 thSep"

definition tryParseHex :: "string \<Rightarrow> exn + int option" where
  "tryParseHex s = strToInt UInt32 s 16 (CHR '','')"

definition tryParseOct :: "string \<Rightarrow> exn + int option" where
  "tryParseOct s = strToInt UInt32 s 8 (CHR '','')"

definition tryParse64 :: "string \<Rightarrow> char \<Rightarrow> exn + int option" where
  "tryParse64 s thSep = strToInt Int64 s 10 thSep"

definition tryParseUnsigned64 :: "string \<Rightarrow> char \<Rightarrow> exn + int option" where
  "tryParseUnsigned64 s thSep = strToInt UInt64 s 10 thSep"

definition tryParseHex64 :: "string \<Rightarrow> exn + int option" where
  "tryParseHex64 s = strToInt UInt64 s 16 (CHR '','')"

definition tryParseOct64 :: "string \<Rightarrow> exn + int option" where
  "tryParseOct64 s = strToInt UInt64 s 8 (CHR '','')"

text \<open>The throwing variants turn \<open>false\<close> into a \<open>SyntaxException\<close>.\<close>

definition or_throw :: "string \<Rightarrow> exn + 'a option \<Rightarrow> exn + 'a" where
  "or_throw msg r =
     (case r of
        Inl e \<Rightarrow> Inl e
      | Inr None \<Rightarrow> Inl (SyntaxException msg)
      | Inr (Some v) \<Rightarrow> Inr v)"

definition parse_int :: "string \<Rightarrow> char \<Rightarrow> exn + int" where
  "parse_int s thSep = or_throw ''Not a valid integer'' (tryParse s thSep)"

definition parseUnsigned :: "string \<Rightarrow> char \<Rightarrow> exn + int" where
  "parseUnsigned s thSep = or_throw ''Not a valid unsigned integer'' (tryParseUnsigned s thSep)"

definition parseHex :: "string \<Rightarrow> exn + int" where
  "parseHex s = or_throw ''Not a valid hexadecimal integer'' (tryParseHex s)"

definition parseOct :: "string \<Rightarrow> exn + int" where
  "parseOct s = or_throw ''Not a valid hexadecimal integer'' (tryParseOct s)"

definition parse64 :: "string \<Rightarrow> char \<Rightarrow> exn + int" where
  "parse64 s thSep = or_throw ''Not a valid integer'' (tryParse64 s thSep)"

definition parseUnsigned64 :: "string \<Rightarrow> char \<Rightarrow> exn + int" where
  "parseUnsigned64 s thSep =
     or_throw ''Not a valid unsigned integer'' (tryParseUnsigned64 s thSep)"

definition parseHex64 :: "string \<Rightarrow> exn + int" where
  "parseHex64 s = or_throw ''Not a valid hexadecimal integer'' (tryParseHex64 s)"

definition parseOct64 :: "string \<Rightarrow> exn + int" where
  "parseOct64 s = or_throw ''Not a valid hexadecimal integer'' (tryParseOct64 s)"

definition tryParseBool :: "string \<Rightarrow> exn + bool option" where
  "tryParseBool s =
     (case tryParse s (CHR '','') of
        Inl e \<Rightarrow> Inl e
      | Inr (Some n) \<Rightarrow> Inr (Some (n \<noteq> 0))
      | Inr None \<Rightarrow>
          if icompare s ''true'' = 0 then Inr (Some True)
          else if icompare s ''yes'' = 0 then Inr (Some True)
          else if icompare s ''on'' = 0 then Inr (Some True)
          else if icompare s ''false'' = 0 then Inr (Some False)
          else if icompare s ''no'' = 0 then Inr (Some False)
          else if icompare s ''off'' = 0 then Inr (Some False)
          else Inr None)"

definition parseBool :: "string \<Rightarrow> exn + bool" where
  "parseBool s = or_throw ''Not a valid bool number'' (tryParseBool s)"

section \<open>NumberFormatter\<close>

text \<open>The \<open>format\<close> family returns a string and uses the 65-byte wrappers; the \<open>append\<close> family
  formats into an array of 32 bytes and appends it. A conversion whose flag is ignored
  yields the assigned bytes.\<close>

definition format_int :: "int \<Rightarrow> exn + string" where
  "format_int value = map_sum id snd (intToStrS value 10 False (-1) (CHR '' '') (CHR 0x00))"

definition format_int_width :: "int \<Rightarrow> int \<Rightarrow> exn + string" where
  "format_int_width value width =
     map_sum id snd (intToStrS value 10 False width (CHR '' '') (CHR 0x00))"

definition format0_int :: "int \<Rightarrow> int \<Rightarrow> exn + string" where
  "format0_int value width =
     map_sum id snd (intToStrS value 10 False width (CHR ''0'') (CHR 0x00))"

definition formatHex_int :: "int \<Rightarrow> bool \<Rightarrow> exn + string" where
  "formatHex_int value pfx =
     map_sum id snd
       (uIntToStrS (nat (value mod 2 ^ 32)) 16 pfx (-1) (CHR '' '') (CHR 0x00))"

definition formatHex_int_width :: "int \<Rightarrow> int \<Rightarrow> bool \<Rightarrow> exn + string" where
  "formatHex_int_width value width pfx =
     map_sum id snd
       (uIntToStrS (nat (value mod 2 ^ 32)) 16 pfx width (CHR ''0'') (CHR 0x00))"

definition format_unsigned :: "nat \<Rightarrow> exn + string" where
  "format_unsigned value = map_sum id snd (uIntToStrS value 10 False (-1) (CHR '' '') (CHR 0x00))"

definition format_unsigned_width :: "nat \<Rightarrow> int \<Rightarrow> exn + string" where
  "format_unsigned_width value width =
     map_sum id snd (uIntToStrS value 10 False width (CHR '' '') (CHR 0x00))"

definition format0_unsigned :: "nat \<Rightarrow> int \<Rightarrow> exn + string" where
  "format0_unsigned value width =
     map_sum id snd (uIntToStrS value 10 False width (CHR ''0'') (CHR 0x00))"

definition formatHex_unsigned :: "nat \<Rightarrow> bool \<Rightarrow> exn + string" where
  "formatHex_unsigned value pfx =
     map_sum id snd (uIntToStrS value 16 pfx (-1) (CHR '' '') (CHR 0x00))"

definition formatHex_unsigned_width :: "nat \<Rightarrow> int \<Rightarrow> bool \<Rightarrow> exn + string" where
  "formatHex_unsigned_width value width pfx =
     map_sum id snd (uIntToStrS value 16 pfx width (CHR ''0'') (CHR 0x00))"

text \<open>The conversions of the \<open>append\<close> family always have a base in range; \<open>the\<close> reads the
  bytes they leave in the array.\<close>

definition append_result :: "string \<Rightarrow> exn + string option \<Rightarrow> exn + string" where
  "append_result str r = map_sum id (\<lambda>s. str @ the s) r"

definition append_int :: "string \<Rightarrow> int \<Rightarrow> exn + string" where
  "append_int str value =
     append_result str (intToStr NF_MAX_INT_STRING_LEN value 10 False (-1) (CHR '' '') (CHR 0x00))"

definition append_int_width :: "string \<Rightarrow> int \<Rightarrow> int \<Rightarrow> exn + string" where
  "append_int_width str value width =
     append_result str (intToStr NF_MAX_INT_STRING_LEN value 10 False width (CHR '' '') (CHR 0x00))"

definition append0_int :: "string \<Rightarrow> int \<Rightarrow> int \<Rightarrow> exn + string" where
  "append0_int str value width =
     append_result str (intToStr NF_MAX_INT_STRING_LEN value 10 False width (CHR ''0'') (CHR 0x00))"

definition append_unsigned :: "string \<Rightarrow> nat \<Rightarrow> exn + string" where
  "append_unsigned str value =
     append_result str (uIntToStr NF_MAX_INT_STRING_LEN value 10 False (-1) (CHR '' '') (CHR 0x00))"

definition append_unsigned_width :: "string \<Rightarrow> nat \<Rightarrow> int \<Rightarrow> exn + string" where
  "append_unsigned_width str value width =
     append_result str (uIntToStr NF_MAX_INT_STRING_LEN value 10 False width (CHR '' '') (CHR 0x00))"

definition append0_unsigned :: "string \<Rightarrow> nat \<Rightarrow> int \<Rightarrow> exn + string" where
  "append0_unsigned str value width =
     append_result str (uIntToStr NF_MAX_INT_STRING_LEN value 10 False width (CHR ''0'') (CHR 0x00))"

definition appendHex_unsigned :: "string \<Rightarrow> nat \<Rightarrow> exn + string" where
  "appendHex_unsigned str value =
     append_result str (uIntToStr NF_MAX_INT_STRING_LEN value 16 False (-1) (CHR '' '') (CHR 0x00))"

definition appendHex_unsigned_width :: "string \<Rightarrow> nat \<Rightarrow> int \<Rightarrow> exn + string" where
  "appendHex_unsigned_width str value width =
     append_result str (uIntToStr NF_MAX_INT_STRING_LEN value 16 False width (CHR ''0'') (CHR 0x00))"

text \<open>The overload for \<open>unsigned long\<close> pads with zeros where the other types pad with blanks.\<close>

definition append_unsigned_long_width :: "string \<Rightarrow> nat \<Rightarrow> int \<Rightarrow> exn + string" where
  "append_unsigned_long_width str value width =
     append_result str (uIntToStr NF_MAX_INT_STRING_LEN value 10 False width (CHR ''0'') (CHR 0x00))"

datatype bool_format = FMT_TRUE_FALSE | FMT_YES_NO | FMT_ON_OFF

fun format_bool :: "bool \<Rightarrow> bool_format \<Rightarrow> string" where
  "format_bool value FMT_TRUE_FALSE = (if value then ''true'' else ''false'')"
| "format_bool value FMT_YES_NO = (if value then ''yes'' else ''no'')"
| "format_bool value FMT_ON_OFF = (if value then ''on'' else ''off'')"

section \<open>Formatting and parsing are inverse\<close>

lemma length_rdigits_le:
  "\<lbrakk>2 \<le> b; n < b ^ Suc k\<rbrakk> \<Longrightarrow> length (rdigits b n) \<le> Suc k"
proof (induction k arbitrary: n)
  case 0
  then show ?case by (subst rdigits.simps) simp
next
  case (Suc k)
  have "n div b < b ^ Suc k"
    using Suc.prems by (simp add: div_less_iff_less_mult mult.commute)
  then have "length (rdigits b (n div b)) \<le> Suc k"
    using Suc by simp
  then show ?case by (subst rdigits.simps) simp
qed

definition dec_digit :: "char \<Rightarrow> bool" where
  "dec_digit c \<longleftrightarrow> 48 \<le> uchar c \<and> uchar c \<le> 57"

definition dec_value :: "int \<Rightarrow> string \<Rightarrow> int" where
  "dec_value r s = foldl (\<lambda>r c. r * 10 + (int (uchar c) - 48)) r s"

lemma dec_value_simps [simp]:
  "dec_value r [] = r"
  "dec_value r (c # s) = dec_value (r * 10 + (int (uchar c) - 48)) s"
  "dec_value r (s @ t) = dec_value (dec_value r s) t"
  by (simp_all add: dec_value_def)

lemma hexd_dec:
  assumes "d < 10" shows "dec_digit (hexd d)" "uchar (hexd d) = 48 + d"
proof -
  have "d \<in> {0, 1, 2, 3, 4, 5, 6, 7, 8, 9}" using assms by auto
  then show "dec_digit (hexd d)" "uchar (hexd d) = 48 + d"
    by (auto simp: hexd_def DIGITS_def dec_digit_def uchar_def)
qed

lemma rdigits_dec: "list_all dec_digit (rdigits 10 n) \<and> dec_value 0 (rev (rdigits 10 n)) = int n"
proof (induction n rule: less_induct)
  case (less n)
  show ?case
  proof (cases "n < 10")
    case True
    then show ?thesis by (subst (1 2) rdigits.simps) (simp add: hexd_dec)
  next
    case False
    then have IH: "list_all dec_digit (rdigits 10 (n div 10))"
      "dec_value 0 (rev (rdigits 10 (n div 10))) = int (n div 10)"
      using less [of "n div 10"] by auto
    have "rdigits 10 n = hexd (n mod 10) # rdigits 10 (n div 10)"
      using False by (subst rdigits.simps) simp
    moreover have "int (n div 10) * 10 + int (n mod 10) = int n"
      by (metis div_mult_mod_eq of_nat_add of_nat_mult of_nat_numeral)
    ultimately show ?thesis using IH by (simp add: hexd_dec)
  qed
qed

lemma dec_digit_cases:
  "dec_digit c \<longleftrightarrow> c \<in> {CHR ''0'', CHR ''1'', CHR ''2'', CHR ''3'', CHR ''4'', CHR ''5'',
     CHR ''6'', CHR ''7'', CHR ''8'', CHR ''9''}"
proof
  assume "dec_digit c"
  then have "uchar c \<in> {48, 49, 50, 51, 52, 53, 54, 55, 56, 57}"
    by (simp add: dec_digit_def) arith
  then show "c \<in> {CHR ''0'', CHR ''1'', CHR ''2'', CHR ''3'', CHR ''4'', CHR ''5'',
     CHR ''6'', CHR ''7'', CHR ''8'', CHR ''9''}"
    by (simp add: uchar_inject [symmetric]) (simp add: uchar_def)
qed (auto simp: dec_digit_def uchar_def)

lemma strToInt_step_digit:
  "dec_digit c \<Longrightarrow> strToInt_step I 10 thSep state result c =
     (if c = CHR ''0'' \<and> \<not> state then Next state result
      else accumulate I 10 result (int (uchar c) - 48))"
  unfolding dec_digit_cases
  by (elim insertE emptyE) (simp_all add: strToInt_step_def schar_def uchar_def)


lemma accumulate_fits:
  assumes "0 \<le> r" "0 \<le> d" "r * 10 + d \<le> int_max I"
  shows "accumulate I 10 r d = Next True (r * 10 + d)"
proof -
  have "r \<le> int_max I div 10" using assms by linarith
  moreover have "\<not> is_signed I \<Longrightarrow> r * 10 + d < 2 ^ bits I"
    using assms by (simp add: int_max_def)
  ultimately show ?thesis using assms by (simp add: accumulate_def Let_def)
qed

lemma dec_value_mono: "\<lbrakk>list_all dec_digit s; 0 \<le> r\<rbrakk> \<Longrightarrow> r \<le> dec_value r s"
proof (induction s arbitrary: r)
  case (Cons c s)
  then have "r \<le> r * 10 + (int (uchar c) - 48)"
    by (simp add: dec_digit_def)
  moreover have "\<dots> \<le> dec_value (r * 10 + (int (uchar c) - 48)) s"
    using Cons by (intro Cons.IH) (auto simp: dec_digit_def)
  ultimately show ?case by simp
qed simp

lemma strToInt_loop_digits:
  "\<lbrakk>list_all dec_digit s; 0 \<le> r; \<not> state \<longrightarrow> r = 0; dec_value r s \<le> int_max I\<rbrakk>
   \<Longrightarrow> strToInt_loop I 10 thSep state r s = Inr (Some (dec_value r s))"
proof (induction s arbitrary: r state)
  case (Cons c s)
  let ?d = "int (uchar c) - 48"
  have d: "0 \<le> ?d" "dec_digit c" using Cons.prems by (auto simp: dec_digit_def)
  have rd: "0 \<le> r * 10 + ?d" using d Cons.prems by simp
  show ?case
  proof (cases "c = CHR ''0'' \<and> \<not> state")
    case True
    then have "uchar c = 48" "r = 0" using Cons.prems by (auto simp: uchar_def)
    then show ?thesis using True Cons d by (simp add: strToInt_step_digit)
  next
    case False
    have "r * 10 + ?d \<le> int_max I"
      using dec_value_mono [of s "r * 10 + ?d"] Cons.prems rd by simp
    then have "strToInt_step I 10 thSep state r c = Next True (r * 10 + ?d)"
      using False d Cons.prems by (auto simp: strToInt_step_digit accumulate_fits)
    moreover have "strToInt_loop I 10 thSep True (r * 10 + ?d) s
        = Inr (Some (dec_value (r * 10 + ?d) s))"
      using Cons.prems rd by (intro Cons.IH) auto
    ultimately show ?thesis by simp
  qed
qed simp

text \<open>A decimal text read back: blanks, signs and the zero byte do not interfere with it.\<close>

lemma dec_digit_plain:
  "dec_digit c \<Longrightarrow> c \<noteq> CHR 0x00 \<and> \<not> isspace c \<and> c \<noteq> CHR ''-'' \<and> c \<noteq> CHR ''+''"
  unfolding dec_digit_cases
  by (elim insertE emptyE) (simp_all add: isspace_def)

lemma c_str_digits: "list_all dec_digit s \<Longrightarrow> c_str s = s"
  unfolding c_str_def by (rule takeWhile_all) (auto simp: list_all_iff dest: dec_digit_plain)

lemma strToInt_unsigned_text:
  assumes "list_all dec_digit s" "s \<noteq> []"
  shows "strToInt I s 10 thSep = strToInt_loop I 10 thSep False 0 s"
proof -
  obtain c t where s: "s = c # t" using assms by (cases s) auto
  then have c: "\<not> isspace c" "c \<noteq> CHR ''-''" "c \<noteq> CHR ''+''"
    using assms dec_digit_plain [of c] by auto
  then have "dropWhile isspace (c_str s) = c # t"
    using assms s by (simp add: c_str_digits)
  then show ?thesis using c s by (simp add: strToInt_def Let_def)
qed

lemma strToInt_negative_text:
  assumes "list_all dec_digit s"
  shows "strToInt I (CHR ''-'' # s) 10 thSep =
    map_sum id (map_option (apply_sign I)) (strToInt_loop I 10 thSep False 0 s)"
proof -
  have "c_str (CHR ''-'' # s) = CHR ''-'' # s"
    using c_str_digits [OF assms] by (simp add: c_str_def)
  then show ?thesis by (simp add: strToInt_def Let_def isspace_def)
qed

lemma format_int_text:
  assumes "\<bar>v\<bar> < 2 ^ 64"
  shows "format_int v =
    Inr ((if v < 0 then ''-'' else []) @ rev (rdigits 10 (nat \<bar>v\<bar>)))"
proof -
  have "nat \<bar>v\<bar> < 10 ^ Suc 19" using assms by simp
  then have "length (rdigits 10 (nat \<bar>v\<bar>)) \<le> 20"
    using length_rdigits_le [of 10 "nat \<bar>v\<bar>" 19] by simp
  then show ?thesis
    by (cases "v < 0") (simp_all add: format_int_def intToStrS_def intToStr_cases format_spec_def base_prefix_def
        Let_def POCO_MAX_INT_STRING_LEN_def assign_result_def)
qed

lemma strToInt_format_int:
  assumes "is_signed I" "bits I \<le> 64" "\<bar>v\<bar> \<le> int_max I"
  shows "\<exists>s. format_int v = Inr s \<and> strToInt I s 10 thSep = Inr (Some v)"
proof -
  have "(2::int) ^ (bits I - 1) \<le> 2 ^ 63" using assms(2) by (intro power_increasing) auto
  then have "\<bar>v\<bar> < 2 ^ 64" using assms by (simp add: int_max_def)
  note f = format_int_text [OF this]
  let ?ds = "rev (rdigits 10 (nat \<bar>v\<bar>))"
  have ds: "list_all dec_digit ?ds" "dec_value 0 ?ds = \<bar>v\<bar>" "?ds \<noteq> []"
    using rdigits_dec [of "nat \<bar>v\<bar>"] by auto
  then have "strToInt_loop I 10 thSep False 0 ?ds = Inr (Some \<bar>v\<bar>)"
    using strToInt_loop_digits [OF ds(1), of 0 False I] assms by simp
  then show ?thesis
    using f ds assms(1)
    by (auto simp: strToInt_unsigned_text strToInt_negative_text apply_sign_def)
qed

text \<open>A byte in two hexadecimal digits, the form \<open>URI::encode\<close> and the digest printers use.\<close>

lemma formatHex_byte:
  assumes "n < 256"
  shows "formatHex_unsigned_width n 2 False = Inr [hexd (n div 16), hexd (n mod 16)]"
proof -
  have h0: "hexd 0 = CHR ''0''" by (simp add: hexd_def DIGITS_def)
  have "rdigits 16 n = (if n < 16 then [hexd n] else [hexd (n mod 16), hexd (n div 16)])"
    using assms by (subst rdigits.simps, subst rdigits.simps) auto
  then show ?thesis using h0
    by (cases "n < 16")
      (simp_all add: formatHex_unsigned_width_def uIntToStrS_def uIntToStr_eq intToStr_cases
        format_spec_def base_prefix_def POCO_MAX_INT_STRING_LEN_def assign_result_def Let_def)
qed

section \<open>Range and overflow of the parser\<close>

definition int_min :: "int_type \<Rightarrow> int" where
  "int_min I = (if is_signed I then - (2 ^ (bits I - 1)) else 0)"

lemma int_max_nonneg: "0 \<le> int_max I"
  by (simp add: int_max_def)

lemma accumulate_range:
  "\<lbrakk>0 \<le> r; 0 \<le> d; 0 \<le> base; accumulate I base r d = Next st r'\<rbrakk> \<Longrightarrow> 0 \<le> r' \<and> r' \<le> int_max I"
proof -
  assume a: "0 \<le> r" "0 \<le> d" "0 \<le> base" "accumulate I base r d = Next st r'"
  then have nn: "0 \<le> r * base + d" by simp
  show ?thesis
  proof (cases "is_signed I")
    case True
    with a nn show ?thesis by (auto simp: accumulate_def Let_def split: if_splits)
  next
    case False
    then have "r' = (r * base + d) mod 2 ^ bits I"
      using a by (auto simp: accumulate_def Let_def split: if_splits)
    with False show ?thesis by (simp add: int_max_def)
  qed
qed

lemma strToInt_step_next:
  assumes step: "strToInt_step I base thSep state r c = Next st r'"
  shows "(st = state \<and> r' = r) \<or> (\<exists>d. 0 \<le> d \<and> accumulate I base r d = Next st r')"
proof (cases "c \<in> {CHR ''x'', CHR ''X'', CHR ''0'', CHR ''1'', CHR ''2'', CHR ''3'', CHR ''4'',
    CHR ''5'', CHR ''6'', CHR ''7'', CHR ''8'', CHR ''9''}
  \<union> {CHR ''a'', CHR ''b'', CHR ''c'', CHR ''d'', CHR ''e'', CHR ''f''}
  \<union> {CHR ''A'', CHR ''B'', CHR ''C'', CHR ''D'', CHR ''E'', CHR ''F''}")
  case True
  have keep: "(if b then Next state r else accumulate I base r d) = Next st r' \<Longrightarrow> 0 \<le> d \<Longrightarrow> ?thesis"
    "accumulate I base r d = Next st r' \<Longrightarrow> 0 \<le> d \<Longrightarrow> ?thesis" for b d
    by (auto split: if_splits)
  from True step show ?thesis
    by (elim UnE insertE emptyE;
        simp add: strToInt_step_def schar_def uchar_def split: if_split_asm;
        fastforce intro: keep)
next
  case False
  then have "c \<noteq> CHR ''x''" "c \<noteq> CHR ''X''" "c \<noteq> CHR ''0''"
    "c \<notin> {CHR ''1'', CHR ''2'', CHR ''3'', CHR ''4'', CHR ''5'', CHR ''6'', CHR ''7''}"
    "c \<notin> {CHR ''8'', CHR ''9''}"
    "c \<notin> {CHR ''a'', CHR ''b'', CHR ''c'', CHR ''d'', CHR ''e'', CHR ''f''}"
    "c \<notin> {CHR ''A'', CHR ''B'', CHR ''C'', CHR ''D'', CHR ''E'', CHR ''F''}"
    by auto
  with step show ?thesis
    by (simp only: strToInt_step_def if_False simp_thms split: if_split_asm) simp_all
qed

lemma strToInt_step_range:
  assumes "0 \<le> r" "r \<le> int_max I" "0 \<le> base"
    and step: "strToInt_step I base thSep state r c = Next st r'"
  shows "0 \<le> r' \<and> r' \<le> int_max I"
  using strToInt_step_next [OF step] assms accumulate_range by blast

lemma strToInt_loop_range:
  "\<lbrakk>0 \<le> r; r \<le> int_max I; 0 \<le> base; strToInt_loop I base thSep state r s = Inr (Some v)\<rbrakk>
   \<Longrightarrow> 0 \<le> v \<and> v \<le> int_max I"
proof (induction s arbitrary: r state)
  case (Cons c s)
  from Cons.prems(4) show ?case
  proof (cases "strToInt_step I base thSep state r c")
    case (Next st r')
    then have "0 \<le> r' \<and> r' \<le> int_max I"
      using Cons.prems strToInt_step_range by blast
    moreover have "strToInt_loop I base thSep st r' s = Inr (Some v)"
      using Next Cons.prems(4) by simp
    ultimately show ?thesis using Cons.IH Cons.prems(3) by blast
  qed (use Cons.prems in auto)
qed simp

lemma apply_sign_range:
  "\<lbrakk>0 \<le> v; v \<le> int_max I\<rbrakk> \<Longrightarrow> int_min I \<le> apply_sign I v \<and> apply_sign I v \<le> int_max I"
proof (cases "is_signed I")
  case True
  moreover assume "0 \<le> v" "v \<le> int_max I"
  moreover have "(0::int) < 2 ^ (bits I - 1)" by simp
  ultimately show ?thesis unfolding apply_sign_def int_min_def int_max_def by (simp add: le_less_trans)
next
  case False
  then show ?thesis by (simp add: apply_sign_def int_min_def int_max_def)
qed

lemma strToInt_range:
  assumes "strToInt I s base thSep = Inr (Some v)" "0 \<le> base"
  shows "int_min I \<le> v \<and> v \<le> int_max I"
proof -
  have min: "int_min I \<le> 0" by (simp add: int_min_def)
  have loop: "int_min I \<le> w \<and> 0 \<le> w \<and> w \<le> int_max I"
    if "strToInt_loop I base thSep False 0 t = Inr (Some w)" for t w
    using strToInt_loop_range [OF _ _ assms(2) that] int_max_nonneg min by force
  obtain c rest where p: "dropWhile isspace (c_str s) = c # rest"
    using assms(1) by (cases "dropWhile isspace (c_str s)") (auto simp: strToInt_def)
  have "(\<exists>w t. strToInt_loop I base thSep False 0 t = Inr (Some w) \<and> v = apply_sign I w)
      \<or> (\<exists>t. strToInt_loop I base thSep False 0 t = Inr (Some v))"
  proof (cases "base = 10 \<and> c = CHR ''-''")
    case True
    then show ?thesis using assms(1) p
      by (cases "strToInt_loop I base thSep False 0 rest") (auto simp: strToInt_def)
  next
    case False
    then have "\<exists>t. strToInt_loop I base thSep False 0 t = Inr (Some v)"
      using assms(1) p
      by (cases "c = CHR ''+''") (auto simp: strToInt_def simp del: strToInt_loop.simps)
    then show ?thesis ..
  qed
  then show ?thesis using loop apply_sign_range by blast
qed

text \<open>Digits behind the last one that fits: the bound test compares the value before the last
  digit only, so the numbers just above the maximum pass it.\<close>

lemma strToInt_loop_append:
  "\<lbrakk>list_all dec_digit s; 0 \<le> r; \<not> state \<longrightarrow> r = 0; dec_value r s \<le> int_max I;
    0 < dec_value r s\<rbrakk>
   \<Longrightarrow> strToInt_loop I 10 thSep state r (s @ t) = strToInt_loop I 10 thSep True (dec_value r s) t"
proof (induction s arbitrary: r state)
  case Nil
  then show ?case by auto
next
  case (Cons c s)
  let ?d = "int (uchar c) - 48"
  have d: "0 \<le> ?d" "dec_digit c" using Cons.prems by (auto simp: dec_digit_def)
  show ?case
  proof (cases "c = CHR ''0'' \<and> \<not> state")
    case True
    then have "uchar c = 48" "r = 0" using Cons.prems by (auto simp: uchar_def)
    then show ?thesis using True Cons d by (simp add: strToInt_step_digit)
  next
    case False
    have "r * 10 + ?d \<le> int_max I"
      using dec_value_mono [of s "r * 10 + ?d"] Cons.prems d by simp
    then have "strToInt_step I 10 thSep state r c = Next True (r * 10 + ?d)"
      using False d Cons.prems by (auto simp: strToInt_step_digit accumulate_fits)
    then show ?thesis using Cons d by simp
  qed
qed

lemma strToInt_just_above:
  assumes "int_max I < int n" "int n div 10 = int_max I div 10" "10 \<le> n"
  shows "strToInt I (rev (rdigits 10 n)) 10 thSep =
    (if is_signed I then Inl UndefinedBehaviour else Inr (Some (int n mod 2 ^ bits I)))"
proof -
  let ?ds = "rev (rdigits 10 (n div 10))" and ?c = "hexd (n mod 10)"
  have rd: "rdigits 10 n = ?c # rdigits 10 (n div 10)"
    using assms(3) by (subst rdigits.simps) simp
  have q: "dec_value 0 ?ds = int n div 10" "list_all dec_digit ?ds"
    using rdigits_dec [of "n div 10"] by (auto simp: zdiv_int)
  have le: "int n div 10 \<le> int_max I" using assms int_max_nonneg [of I] by linarith
  have c: "dec_digit ?c" "int (uchar ?c) - 48 = int n mod 10"
    by (simp_all add: hexd_dec zmod_int)
  have n: "int_max I div 10 * 10 + int n mod 10 = int n"
    using assms(2) by (metis div_mult_mod_eq)
  have pos: "0 < int n div 10" using assms(3) by linarith
  have "strToInt I (rev (rdigits 10 n)) 10 thSep = strToInt_loop I 10 thSep False 0 (?ds @ [?c])"
    unfolding rd by (subst strToInt_unsigned_text) (use q c in auto)
  also have "\<dots> = strToInt_loop I 10 thSep True (int n div 10) [?c]"
    using strToInt_loop_append [OF q(2), of 0 False I thSep "[?c]"] q(1) le pos by simp
  also have "strToInt_step I 10 thSep True (int n div 10) ?c = accumulate I 10 (int n div 10) (int n mod 10)"
    using c by (simp add: strToInt_step_digit)
  then have "strToInt_loop I 10 thSep True (int n div 10) [?c] =
      (if is_signed I then Inl UndefinedBehaviour else Inr (Some (int n mod 2 ^ bits I)))"
    using assms n by (simp add: accumulate_def Let_def)
  finally show ?thesis .
qed

section \<open>Hexadecimal texts read back\<close>

lemma less_16_cases: "(d :: nat) < 16 \<Longrightarrow> d \<in> {0,1,2,3,4,5,6,7,8,9,10,11,12,13,14,15}"
  by (simp, presburger)

lemma strToInt_step_hexd:
  assumes "d < 16"
  shows "strToInt_step I 16 thSep state r (hexd d) =
    (if d = 0 \<and> \<not> state then Next state r else accumulate I 16 r (int d))"
  using less_16_cases [OF assms]
  by (elim insertE emptyE) (simp_all add: hexd_def DIGITS_def strToInt_step_def schar_def uchar_def)

lemma hexd_plain:
  assumes "d < 16"
  shows "hexd d \<noteq> CHR 0x00 \<and> \<not> isspace (hexd d) \<and> hexd d \<noteq> CHR ''-'' \<and> hexd d \<noteq> CHR ''+''"
  using less_16_cases [OF assms]
  by (elim insertE emptyE) (simp_all add: hexd_def DIGITS_def isspace_def)

lemma accumulate_hex:
  assumes "int (n div 16) * 16 + int (n mod 16) \<le> int_max I"
  shows "accumulate I 16 (int (n div 16)) (int (n mod 16)) = Next True (int n)"
proof -
  have n: "int (n div 16) * 16 + int (n mod 16) = int n"
    by (metis div_mult_mod_eq of_nat_add of_nat_mult of_nat_numeral)
  then have "int (n div 16) \<le> int_max I div 16" using assms by linarith
  moreover have "\<not> is_signed I \<Longrightarrow> int n < 2 ^ bits I" using assms n by (simp add: int_max_def)
  ultimately show ?thesis using assms n by (simp add: accumulate_def Let_def)
qed

lemma strToInt_loop_hex:
  "int n \<le> int_max I \<Longrightarrow>
   strToInt_loop I 16 thSep False 0 (rev (rdigits 16 n) @ t) = strToInt_loop I 16 thSep (n \<noteq> 0) (int n) t"
proof (induction n arbitrary: t rule: less_induct)
  case (less n)
  have le: "int (n div 16) * 16 + int (n mod 16) \<le> int_max I"
    using less.prems by (metis div_mult_mod_eq of_nat_add of_nat_mult of_nat_numeral)
  show ?case
  proof (cases "n < 16")
    case True
    then show ?thesis
      using accumulate_hex [OF le] by (subst rdigits.simps) (auto simp: strToInt_step_hexd)
  next
    case False
    then have "rev (rdigits 16 n) = rev (rdigits 16 (n div 16)) @ [hexd (n mod 16)]"
      by (subst rdigits.simps) simp
    moreover have "n div 16 \<noteq> 0" "n div 16 < n" using False by auto
    moreover have "int (n div 16) \<le> int_max I" using less.prems by linarith
    ultimately show ?thesis
      using less.IH [of "n div 16" "hexd (n mod 16) # t"] False accumulate_hex [OF le]
      by (simp add: strToInt_step_hexd)
  qed
qed

lemma rdigits_hexd: "c \<in> set (rdigits 16 n) \<Longrightarrow> \<exists>d<16. c = hexd d"
proof (induction n rule: less_induct)
  case (less n)
  show ?case
  proof (cases "n < 16")
    case True
    then have "c = hexd n" using less.prems by (subst (asm) rdigits.simps) simp
    then show ?thesis using True by blast
  next
    case False
    then have "c = hexd (n mod 16) \<or> c \<in> set (rdigits 16 (n div 16))"
      using less.prems by (subst (asm) rdigits.simps) simp
    moreover have "n mod 16 < 16" "n div 16 < n" using False by auto
    ultimately show ?thesis using less.IH [of "n div 16"] by blast
  qed
qed

lemma strToInt_hex_text:
  assumes "int n \<le> int_max I"
  shows "strToInt I (rev (rdigits 16 n)) 16 thSep = Inr (Some (int n))"
proof -
  let ?s = "rev (rdigits 16 n)"
  have plain: "c \<noteq> CHR 0x00 \<and> \<not> isspace c \<and> c \<noteq> CHR ''+''" if "c \<in> set ?s" for c
    using rdigits_hexd [of c n] hexd_plain that by auto
  have "c_str ?s = ?s" unfolding c_str_def
    by (rule takeWhile_all) (use plain in \<open>auto simp: list_all_iff\<close>)
  moreover obtain c cs where c: "?s = c # cs" by (cases ?s) auto
  ultimately show ?thesis
    using plain [of c] strToInt_loop_hex [OF assms, of thSep "[]"] by (simp add: strToInt_def)
qed

lemma formatHex_text:
  assumes "n < 2 ^ 64"
  shows "formatHex_unsigned n False = Inr (rev (rdigits 16 n))"
proof -
  have "n < 16 ^ Suc 15" using assms by simp
  then have "length (rdigits 16 n) \<le> 16" using length_rdigits_le [of 16 n 15] by simp
  then show ?thesis
    by (simp add: formatHex_unsigned_def uIntToStrS_def uIntToStr_eq intToStr_cases format_spec_def
        base_prefix_def Let_def POCO_MAX_INT_STRING_LEN_def assign_result_def)
qed

section \<open>Properties\<close>



text \<open>C27: an unsigned number printed in hexadecimal is read back by \<open>parseHex\<close> and \<open>parseHex64\<close>.\<close>

theorem hex_round_trip:
  assumes "n < 2 ^ 64"
  shows "\<exists>s. formatHex_unsigned n False = Inr s \<and> parseHex64 s = Inr (int n)
           \<and> (n < 2 ^ 32 \<longrightarrow> parseHex s = Inr (int n))"
proof -
  have "int n \<le> int_max UInt64" using assms by (simp add: UInt64_def int_max_def)
  moreover have "n < 2 ^ 32 \<Longrightarrow> int n \<le> int_max UInt32" by (simp add: UInt32_def int_max_def)
  ultimately show ?thesis
    using formatHex_text [OF assms]
    by (simp add: parseHex64_def tryParseHex64_def parseHex_def tryParseHex_def or_throw_def strToInt_hex_text)
qed

theorem hex_round_trip_witness:
  "\<exists>s. formatHex_unsigned 0xDEADBEEF False = Inr s \<and> parseHex64 s = Inr 0xDEADBEEF \<and> parseHex s = Inr 0xDEADBEEF"
  using hex_round_trip [of "0xDEADBEEF"] by auto

text \<open>C28: what \<open>intToStr\<close> leaves in the caller's array of \<open>sz\<close> bytes: the sign, prefix, padding and digits
  when they are shorter than the array. A text longer than the array throws; a text of exactly its
  size is not caught, and the terminating zero is written behind the end.\<close>

theorem intToStr_exact:
  assumes "2 \<le> b" "b \<le> 16"
  shows "intToStr sz v b pfx width fill (CHR 0x00) =
    (let s = format_spec b pfx width fill v
     in if length s < sz then Inr (Some s)
        else if length s = sz then Inl UndefinedBehaviour
        else Inl RangeException)"
  by (rule intToStr_cases [OF assms])

theorem intToStr_exact_witness:
  "intToStr 4 (-42) 10 False (-1) (CHR '' '') (CHR 0x00) = Inr (Some ''-42'')
   \<and> intToStr 3 (-42) 10 False (-1) (CHR '' '') (CHR 0x00) = Inl UndefinedBehaviour
   \<and> intToStr 2 (-42) 10 False (-1) (CHR '' '') (CHR 0x00) = Inl RangeException"
proof -
  have "format_spec 10 False (-1) (CHR '' '') (-42) = ''-42''" by code_simp
  then show ?thesis
    using intToStr_exact [of 10 4 "-42" False "-1" "CHR '' ''"] intToStr_exact [of 10 3 "-42" False "-1" "CHR '' ''"]
      intToStr_exact [of 10 2 "-42" False "-1" "CHR '' ''"]
    by (simp add: Let_def)
qed

text \<open>a number that \<open>strToInt\<close> accepts lies in the range of the result type.\<close>

theorem strToInt_bounds:
  assumes "strToInt I s base thSep = Inr (Some v)" "0 \<le> base"
  shows "int_min I \<le> v \<and> v \<le> int_max I"
  by (rule strToInt_range [OF assms])

theorem strToInt_bounds_witness:
  "strToInt Int32 ''-1,234'' 10 (CHR '','') = Inr (Some (-1234)) \<and> int_min Int32 \<le> -1234 \<and> -1234 \<le> int_max Int32"
proof -
  have "strToInt Int32 ''-1,234'' 10 (CHR '','') = Inr (Some (-1234))" by code_simp
  then show ?thesis using strToInt_bounds [of Int32 "''-1,234''" 10 "CHR '',''" "-1234"] by simp
qed

text \<open>the overflow check of \<open>strToInt\<close> leaves out the last digit: a decimal text just above the
  maximum, in its last digit only, overflows a signed type and wraps around in an unsigned one.\<close>

theorem strToInt_last_digit_overflow:
  assumes "int_max I < int n" "int n div 10 = int_max I div 10" "10 \<le> n"
  shows "strToInt I (rev (rdigits 10 n)) 10 thSep =
    (if is_signed I then Inl UndefinedBehaviour else Inr (Some (int n mod 2 ^ bits I)))"
  by (rule strToInt_just_above [OF assms])

theorem strToInt_last_digit_overflow_witness:
  "strToInt Int32 ''2147483648'' 10 (CHR '','') = Inl UndefinedBehaviour
   \<and> strToInt UInt32 ''4294967299'' 10 (CHR '','') = Inr (Some 3)"
proof -
  have "rev (rdigits 10 2147483648) = ''2147483648''" "rev (rdigits 10 4294967299) = ''4294967299''"
    by (simp_all add: rdigits.simps hexd_def DIGITS_def)
  then show ?thesis
    using strToInt_last_digit_overflow [of Int32 2147483648 "CHR '',''"]
      strToInt_last_digit_overflow [of UInt32 4294967299 "CHR '',''"]
    by (simp add: Int32_def UInt32_def int_max_def)
qed

end
