(* ===== verification/Dot_Segments.thy ===== *)
theory Dot_Segments
  imports Poco_Prelude
begin

text \<open>
  The contract that the path code of \<open>Poco::URI\<close> (\<open>removeDotSegments\<close>, \<open>mergePath\<close>) and of
  \<open>Poco::Path\<close> (\<open>pushDirectory\<close>) share: segments are fed one by one to a stack, \<open>.\<close> is dropped
  and \<open>..\<close> takes back the last name. The locale \<open>dot_stack\<close> fixes such a step and proves once
  that the stack stays in normal form, that a normal form is left alone, and that
  the stack leads to the same directory as the segments it was made from.
\<close>

section \<open>Segments and normal forms\<close>

abbreviation dot :: string where "dot \<equiv> ''.''"
abbreviation up :: string where "up \<equiv> ''..''"

definition name_seg :: "string \<Rightarrow> bool" where
  "name_seg s \<longleftrightarrow> s \<noteq> [] \<and> s \<noteq> dot \<and> s \<noteq> up"

definition normal :: "bool \<Rightarrow> string list \<Rightarrow> bool" where
  "normal keep st \<longleftrightarrow>
     list_all name_seg (dropWhile (\<lambda>s. s = up) st) \<and> (keep \<or> st = [] \<or> hd st \<noteq> up)"

text \<open>Where a walk along segments ends, starting in a directory given by its names.\<close>

fun walk :: "string list \<Rightarrow> string list \<Rightarrow> string list" where
  "walk dir [] = dir"
| "walk dir (s # segs) =
     walk (if s = up then butlast dir else if s = dot \<or> s = [] then dir else dir @ [s]) segs"

lemma walk_append [simp]: "walk dir (a @ b) = walk (walk dir a) b"
  by (induction a arbitrary: dir) simp_all

lemma walk_names: "list_all name_seg a \<Longrightarrow> walk dir a = dir @ a"
  by (induction a arbitrary: dir) (simp_all add: name_seg_def)

lemma normal_Nil [simp]: "normal keep []"
  by (simp add: normal_def)

lemma normal_names: "list_all name_seg st \<Longrightarrow> normal keep st"
  by (cases st) (auto simp: normal_def name_seg_def)

lemma normal_False: "normal False st \<longleftrightarrow> list_all name_seg st"
  by (cases st) (auto simp: normal_def name_seg_def)

lemma normal_snoc_name: "name_seg s \<Longrightarrow> normal keep (st @ [s]) \<longleftrightarrow> normal keep st"
  unfolding normal_def by (cases st) (auto simp: dropWhile_append name_seg_def list_all_iff)

lemma dropWhile_butlast_set: "x \<in> set (dropWhile P (butlast st)) \<Longrightarrow> x \<in> set (dropWhile P st)"
  by (induction st) (auto dest: in_set_butlastD split: if_splits)

lemma normal_butlast: "normal keep st \<Longrightarrow> normal keep (butlast st)"
  unfolding normal_def by (cases st) (auto simp: list_all_iff dest: dropWhile_butlast_set in_set_butlastD)

lemma last_in_dropWhile: "st \<noteq> [] \<Longrightarrow> \<not> P (last st) \<Longrightarrow> last st \<in> set (dropWhile P st)"
  by (induction st) (auto split: if_splits)

lemma normal_last_name: "normal keep st \<Longrightarrow> st \<noteq> [] \<Longrightarrow> last st \<noteq> up \<Longrightarrow> name_seg (last st)"
  unfolding normal_def list_all_iff using last_in_dropWhile [of st "\<lambda>s. s = up"] by metis

lemma last_dropWhile: "dropWhile P st \<noteq> [] \<Longrightarrow> last (dropWhile P st) = last st"
  by (induction st) (auto split: if_splits)

lemma normal_all_up:
  assumes "normal keep st" "st \<noteq> []" "last st = up"
  shows "list_all (\<lambda>s. s = up) st"
proof (rule ccontr)
  assume "\<not> ?thesis"
  then have ne: "dropWhile (\<lambda>s. s = up) st \<noteq> []" by (auto simp: list_all_iff)
  then have "up \<in> set (dropWhile (\<lambda>s. s = up) st)"
    using last_dropWhile [OF ne] last_in_set [OF ne] assms(3) by simp
  then have "name_seg up" using assms(1) unfolding normal_def list_all_iff by metis
  then show False by (simp add: name_seg_def)
qed

lemma normal_snoc_up:
  assumes "normal True st" "list_all (\<lambda>s. s = up) st"
  shows "normal True (st @ [up])"
  using assms by (simp add: normal_def dropWhile_append list_all_iff)

lemma dropWhile_no_dot:
  "list_all name_seg (dropWhile (\<lambda>s. s = up) st) \<Longrightarrow> dot \<notin> set st \<and> [] \<notin> set st"
proof (induction st)
  case (Cons a st)
  show ?case
  proof (cases "a = up")
    case False
    then have "list_all name_seg (a # st)" using Cons.prems by simp
    then show ?thesis unfolding list_all_iff name_seg_def by blast
  qed (use Cons in simp)
qed simp

lemma normal_no_dot: "normal keep st \<Longrightarrow> dot \<notin> set st"
  by (simp add: normal_def dropWhile_no_dot)

lemma normal_no_Nil: "normal keep st \<Longrightarrow> [] \<notin> set st"
  by (simp add: normal_def dropWhile_no_dot)

lemma normal_append: "normal keep (a @ b) \<Longrightarrow> normal keep a"
proof (induction b rule: rev_induct)
  case (snoc x b)
  then show ?case using normal_butlast [of keep "a @ b @ [x]"] by (simp add: butlast_append)
qed simp

section \<open>The contract\<close>

locale dot_stack =
  fixes step :: "string list \<Rightarrow> string \<Rightarrow> string list" and keep :: bool
  assumes push_name: "name_seg s \<Longrightarrow> step st s = st @ [s]"
    and drop_dot: "step st dot = st"
    and up_name: "st \<noteq> [] \<Longrightarrow> last st \<noteq> up \<Longrightarrow> step st up = butlast st"
    and up_empty: "step [] up = (if keep then [up] else [])"
    and up_up: "keep \<Longrightarrow> st \<noteq> [] \<Longrightarrow> last st = up \<Longrightarrow> step st up = st @ [up]"
begin

lemma seg_cases:
  assumes "s \<noteq> []"
  obtains "name_seg s" | "s = dot" | "s = up"
  using assms by (auto simp: name_seg_def)

lemma normal_step:
  assumes "normal keep st" "s \<noteq> []"
  shows "normal keep (step st s)"
  using assms(2)
proof (cases rule: seg_cases)
  case 1
  then show ?thesis using assms by (simp add: push_name normal_snoc_name)
next
  case 2
  then show ?thesis using assms by (simp add: drop_dot)
next
  case 3
  show ?thesis
  proof (cases "st = [] \<or> last st \<noteq> up")
    case True
    then show ?thesis using assms 3 up_name [of st] up_empty
      by (cases "st = []") (simp_all add: normal_butlast, simp add: normal_def)
  next
    case False
    then have all: "list_all (\<lambda>s. s = up) st" using normal_all_up assms by blast
    then have "keep" using assms False by (cases st) (auto simp: normal_def)
    then show ?thesis using assms 3 False all normal_snoc_up [of st] by (simp add: up_up)
  qed
qed

lemma normal_foldl:
  assumes "[] \<notin> set segs" "normal keep st"
  shows "normal keep (foldl step st segs)"
  using assms by (induction segs arbitrary: st) (auto simp: normal_step)

lemma foldl_names: "list_all name_seg segs \<Longrightarrow> foldl step st segs = st @ segs"
  by (induction segs arbitrary: st) (simp_all add: push_name)

lemma foldl_ups:
  assumes "keep" "list_all (\<lambda>s. s = up) segs" "list_all (\<lambda>s. s = up) st"
  shows "foldl step st segs = st @ segs"
  using assms(2,3)
proof (induction segs arbitrary: st)
  case (Cons s segs)
  have "step st s = st @ [s]"
    using Cons.prems assms(1) up_empty up_up [of st] last_in_set [of st]
    by (cases "st = []") (auto simp: list_all_iff)
  then show ?case using Cons by simp
qed simp

lemma foldl_normal:
  assumes "normal keep segs"
  shows "foldl step [] segs = segs"
proof -
  let ?a = "takeWhile (\<lambda>s. s = up) segs" and ?b = "dropWhile (\<lambda>s. s = up) segs"
  have ups: "foldl step [] ?a = ?a"
  proof (cases keep)
    case True
    have "list_all (\<lambda>s. s = up) ?a" by (auto simp: list_all_iff dest: set_takeWhileD)
    then show ?thesis using foldl_ups [of ?a "[]"] True by simp
  next
    case False
    then show ?thesis using assms by (cases segs) (auto simp: normal_def)
  qed
  have "foldl step [] (?a @ ?b) = ?a @ ?b"
    using assms ups by (simp only: foldl_append) (simp add: foldl_names normal_def)
  then show ?thesis by simp
qed

lemma step_normal_snoc: "normal keep (st @ [s]) \<Longrightarrow> step st s = st @ [s]"
  using foldl_normal [of "st @ [s]"] foldl_normal [of st] normal_append [of keep st "[s]"] by simp

lemma foldl_idem: "[] \<notin> set segs \<Longrightarrow> foldl step [] (foldl step [] segs) = foldl step [] segs"
  by (simp add: foldl_normal normal_foldl)

text \<open>The stack leads where the segments lead: from every directory when leading \<open>..\<close> are kept,
  from the root otherwise.\<close>

lemma walk_step:
  assumes "normal keep st" "s \<noteq> []" "keep \<or> dir = []"
  shows "walk dir (step st s) = walk dir (st @ [s])"
  using assms(2)
proof (cases rule: seg_cases)
  case 1
  then show ?thesis by (simp add: push_name)
next
  case 2
  then show ?thesis by (simp add: drop_dot)
next
  case 3
  show ?thesis
  proof (cases "st = []")
    case True
    then show ?thesis using 3 assms by (auto simp: up_empty)
  next
    case ne: False
    show ?thesis
    proof (cases "last st = up")
      case True
      then have "list_all (\<lambda>s. s = up) st" using normal_all_up assms ne by blast
      then have "keep" using assms ne by (cases st) (auto simp: normal_def)
      then show ?thesis using 3 ne True by (simp add: up_up)
    next
      case False
      then have "name_seg (last st)" using assms(1) ne by (simp add: normal_last_name)
      moreover have "walk dir st = walk (walk dir (butlast st)) [last st]"
        using ne walk_append [of dir "butlast st" "[last st]"] by (simp del: walk_append)
      ultimately show ?thesis using 3 ne False by (simp add: up_name name_seg_def)
    qed
  qed
qed

lemma walk_foldl:
  assumes "[] \<notin> set segs" "keep \<or> dir = []" "normal keep st"
  shows "walk dir (foldl step st segs) = walk dir (st @ segs)"
  using assms
proof (induction segs arbitrary: st)
  case (Cons s segs)
  then have "normal keep (step st s)" by (intro normal_step) auto
  then have "walk dir (foldl step (step st s) segs) = walk dir (step st s @ segs)"
    using Cons by simp
  also have "\<dots> = walk (walk dir (st @ [s])) segs"
    using Cons walk_step [of st s dir] by auto
  finally show ?case by simp
qed simp

lemma foldl_walk_root:
  assumes "[] \<notin> set segs" "\<not> keep"
  shows "foldl step [] segs = walk [] segs"
proof -
  have "list_all name_seg (foldl step [] segs)"
    using normal_foldl [OF assms(1), of "[]"] assms(2) by (simp add: normal_False)
  then have "foldl step [] segs = walk [] (foldl step [] segs)" by (simp add: walk_names)
  also have "\<dots> = walk [] segs" using walk_foldl [OF assms(1), of "[]" "[]"] by simp
  finally show ?thesis .
qed

end

end
