(* ===== verification/URI.thy ===== *)
theory URI
  imports NumericString Dot_Segments
begin

text \<open>
  \<open>Poco::URI\<close>: percent encoding and decoding, parsing into parts, printing, normalisation of
  the path and resolution of relative references. The object is a record of the seven
  members; the parsing methods take the object and the rest of the input and give an
  outcome over both, so that what they wrote before a throw is visible.
\<close>

section \<open>State\<close>

record uri =
  u_scheme :: string
  u_userInfo :: string
  u_host :: string
  u_port :: nat
  u_path :: string
  u_query :: string
  u_fragment :: string

definition RESERVED_PATH :: string where "RESERVED_PATH = ''?#''"
definition RESERVED_QUERY :: string where "RESERVED_QUERY = ''#''"
definition RESERVED_FRAGMENT :: string where "RESERVED_FRAGMENT = []"
definition ILLEGAL :: string where
  "ILLEGAL = [CHR ''%'', CHR ''<'', CHR ''>'', CHR 0x7B, CHR 0x7D, CHR ''|'', CHR 0x5C,
     CHR 0x22, CHR ''^'', CHR 0x60]"

definition empty_uri :: uri where
  "empty_uri = \<lparr>u_scheme = [], u_userInfo = [], u_host = [], u_port = 0, u_path = [],
     u_query = [], u_fragment = []\<rparr>"

definition clear :: "uri \<Rightarrow> uri" where
  "clear u = u\<lparr>u_scheme := [], u_userInfo := [], u_host := [], u_port := 0, u_path := [],
     u_query := [], u_fragment := []\<rparr>"

section \<open>Percent encoding\<close>

text \<open>The two hexadecimal digits come from \<open>NumberFormatter::formatHex\<close>, which does not throw on a
  byte (\<open>formatHex_byte\<close>).\<close>

definition hex_byte :: "char \<Rightarrow> string" where
  "hex_byte c = (case formatHex_unsigned_width (uchar c) 2 False of Inl e \<Rightarrow> [] | Inr s \<Rightarrow> s)"

definition unreserved :: "char \<Rightarrow> bool" where
  "unreserved c \<longleftrightarrow>
     between (CHR ''a'') (CHR ''z'') c \<or> between (CHR ''A'') (CHR ''Z'') c
     \<or> between (CHR ''0'') (CHR ''9'') c
     \<or> c = CHR ''-'' \<or> c = CHR ''_'' \<or> c = CHR ''.'' \<or> c = CHR ''~''"

definition encode_char :: "string \<Rightarrow> char \<Rightarrow> string" where
  "encode_char reserved c =
     (if unreserved c then [c]
      else if schar c \<le> 0x20 \<or> schar c \<ge> 0x7F \<or> c \<in> set ILLEGAL \<or> c \<in> set reserved
      then CHR ''%'' # hex_byte c
      else [c])"

definition encode :: "string \<Rightarrow> string \<Rightarrow> string \<Rightarrow> string" where
  "encode str reserved encodedStr = encodedStr @ concat (map (encode_char reserved) str)"

definition hex_value :: "char \<Rightarrow> int option" where
  "hex_value c =
     (if between (CHR ''0'') (CHR ''9'') c then Some (schar c - schar (CHR ''0''))
      else if between (CHR ''A'') (CHR ''F'') c then Some (schar c - schar (CHR ''A'') + 10)
      else if between (CHR ''a'') (CHR ''f'') c then Some (schar c - schar (CHR ''a'') + 10)
      else None)"

fun decode_loop :: "bool \<Rightarrow> bool \<Rightarrow> string \<Rightarrow> string \<Rightarrow> string outcome" where
  "decode_loop plusAsSpace inQuery [] decodedStr = Returns decodedStr"
| "decode_loop plusAsSpace inQuery (c # it) decodedStr =
     (let inQuery = (if c = CHR ''?'' then True else inQuery)
      in if inQuery \<and> plusAsSpace \<and> c = CHR ''+'' then
           decode_loop plusAsSpace inQuery it (decodedStr @ [CHR '' ''])
         else if c = CHR ''%'' then
           (case it of
              [] \<Rightarrow> Throws (SyntaxException ''URI encoding: no hex digit following percent sign'') decodedStr
            | [hi] \<Rightarrow> Throws (SyntaxException ''URI encoding: two hex digits must follow percent sign'') decodedStr
            | hi # lo # it \<Rightarrow>
                (case hex_value hi of
                   None \<Rightarrow> Throws (SyntaxException ''URI encoding: not a hex digit'') decodedStr
                 | Some h \<Rightarrow>
                     (case hex_value lo of
                        None \<Rightarrow> Throws (SyntaxException ''URI encoding: not a hex digit'') decodedStr
                      | Some l \<Rightarrow>
                          decode_loop plusAsSpace inQuery it (decodedStr @ [to_char (h * 16 + l)]))))
         else decode_loop plusAsSpace inQuery it (decodedStr @ [c]))"

definition decode :: "string \<Rightarrow> string \<Rightarrow> bool \<Rightarrow> string outcome" where
  "decode str decodedStr plusAsSpace = decode_loop plusAsSpace False str decodedStr"

section \<open>Ports\<close>

definition getWellKnownPort :: "uri \<Rightarrow> nat" where
  "getWellKnownPort u =
     (if u_scheme u = ''ftp'' then 21
      else if u_scheme u = ''ssh'' then 22
      else if u_scheme u = ''telnet'' then 23
      else if u_scheme u = ''http'' then 80
      else if u_scheme u = ''nntp'' then 119
      else if u_scheme u = ''ldap'' then 389
      else if u_scheme u = ''https'' then 443
      else if u_scheme u = ''rtsp'' then 554
      else if u_scheme u = ''sip'' then 5060
      else if u_scheme u = ''sips'' then 5061
      else if u_scheme u = ''xmpp'' then 5222
      else 0)"

definition isWellKnownPort :: "uri \<Rightarrow> bool" where
  "isWellKnownPort u \<longleftrightarrow> u_port u = getWellKnownPort u"

definition getPort :: "uri \<Rightarrow> nat" where
  "getPort u = (if u_port u = 0 then getWellKnownPort u else u_port u)"

definition setPort :: "uri \<Rightarrow> nat \<Rightarrow> uri" where
  "setPort u p = u\<lparr>u_port := p\<rparr>"

definition setScheme :: "uri \<Rightarrow> string \<Rightarrow> uri" where
  "setScheme u s =
     (let u = u\<lparr>u_scheme := toLowerStr s\<rparr>
      in if u_port u = 0 then u\<lparr>u_port := getWellKnownPort u\<rparr> else u)"

section \<open>Parsing\<close>

text \<open>The end of \<open>parseHostAndPort\<close>: the port behind a colon, then the host.\<close>

definition parsePort :: "uri \<Rightarrow> string \<Rightarrow> string \<Rightarrow> uri outcome" where
  "parsePort u h it =
     (let finish = (\<lambda>u :: uri. Returns (u\<lparr>u_host := toLowerStr h\<rparr>))
      in case it of
           [] \<Rightarrow> finish (u\<lparr>u_port := getWellKnownPort u\<rparr>)
         | c # p \<Rightarrow>
             if c = CHR '':'' then
               (if p \<noteq> [] then
                  (case tryParse p (CHR '','') of
                     Inl e \<Rightarrow> Throws e u
                   | Inr (Some nport) \<Rightarrow>
                       if nport > 0 \<and> nport < 65536 then finish (u\<lparr>u_port := nat nport\<rparr>)
                       else Throws (SyntaxException ''bad or invalid port number'') u
                   | Inr None \<Rightarrow> Throws (SyntaxException ''bad or invalid port number'') u)
                else finish (u\<lparr>u_port := getWellKnownPort u\<rparr>))
             else finish (u\<lparr>u_port := getWellKnownPort u\<rparr>))"

definition parseHostAndPort :: "uri \<Rightarrow> string \<Rightarrow> uri outcome" where
  "parseHostAndPort u it =
     (case it of
        [] \<Rightarrow> Returns u
      | c # rest \<Rightarrow>
          if c = CHR ''['' then
            (case scan (\<lambda>c. c \<noteq> CHR '']'') rest of
               (h, []) \<Rightarrow> Throws (SyntaxException ''unterminated IPv6 address'') u
             | (h, _ # it) \<Rightarrow> parsePort u h it)
          else (case scan (\<lambda>c. c \<noteq> CHR '':'') it of (h, it) \<Rightarrow> parsePort u h it))"

fun authority_loop :: "string \<Rightarrow> string \<Rightarrow> string \<Rightarrow> string \<times> string \<times> string" where
  "authority_loop [] ui part = (ui, part, [])"
| "authority_loop (c # it) ui part =
     (if c \<noteq> CHR ''/'' \<and> c \<noteq> CHR ''?'' \<and> c \<noteq> CHR ''#'' then
        (if c = CHR ''@'' then authority_loop it part []
         else authority_loop it ui (part @ [c]))
      else (ui, part, c # it))"

definition parseAuthority :: "uri \<times> string \<Rightarrow> (uri \<times> string) outcome" where
  "parseAuthority = (\<lambda>(u, it).
     case authority_loop it [] [] of
       (ui, part, it) \<Rightarrow>
         map_outcome_state (\<lambda>u. (u, it))
           (and_then (parseHostAndPort u part) (\<lambda>u. Returns (u\<lparr>u_userInfo := ui\<rparr>))))"

definition parsePath :: "uri \<times> string \<Rightarrow> (uri \<times> string) outcome" where
  "parsePath = (\<lambda>(u, it).
     case scan (\<lambda>c. c \<noteq> CHR ''?'' \<and> c \<noteq> CHR ''#'') it of
       (p, it) \<Rightarrow> map_outcome_state (\<lambda>d. (u\<lparr>u_path := d\<rparr>, it)) (decode p (u_path u) False))"

definition parseQuery :: "uri \<times> string \<Rightarrow> (uri \<times> string) outcome" where
  "parseQuery = (\<lambda>(u, it).
     case scan (\<lambda>c. c \<noteq> CHR ''#'') it of (q, it) \<Rightarrow> Returns (u\<lparr>u_query := q\<rparr>, it))"

definition parseFragment :: "uri \<times> string \<Rightarrow> (uri \<times> string) outcome" where
  "parseFragment = (\<lambda>(u, it).
     map_outcome_state (\<lambda>d. (u\<lparr>u_fragment := d\<rparr>, [])) (decode it (u_fragment u) False))"

text \<open>\<open>if (it != end && *it == c) { ++it; ... }\<close>\<close>

definition when_next ::
  "char \<Rightarrow> (uri \<times> string \<Rightarrow> (uri \<times> string) outcome) \<Rightarrow> uri \<times> string \<Rightarrow> (uri \<times> string) outcome" where
  "when_next c f = (\<lambda>(u, it).
     case it of [] \<Rightarrow> Returns (u, it) | d # rest \<Rightarrow> if d = c then f (u, rest) else Returns (u, it))"

definition parsePathEtc :: "uri \<times> string \<Rightarrow> (uri \<times> string) outcome" where
  "parsePathEtc = (\<lambda>(u, it).
     case it of
       [] \<Rightarrow> Returns (u, it)
     | c # _ \<Rightarrow>
         and_then
           (and_then
             (if c \<noteq> CHR ''?'' \<and> c \<noteq> CHR ''#'' then parsePath (u, it) else Returns (u, it))
             (when_next (CHR ''?'') parseQuery))
           (when_next (CHR ''#'') parseFragment))"

definition parse :: "uri \<Rightarrow> string \<Rightarrow> uri outcome" where
  "parse u s = map_outcome_state fst
     (case s of
        [] \<Rightarrow> Returns (u, s)
      | c # _ \<Rightarrow>
          if c \<noteq> CHR ''/'' \<and> c \<noteq> CHR ''.'' \<and> c \<noteq> CHR ''?'' \<and> c \<noteq> CHR ''#'' then
            (case scan (\<lambda>c. c \<noteq> CHR '':'' \<and> c \<noteq> CHR ''?'' \<and> c \<noteq> CHR ''#'' \<and> c \<noteq> CHR ''/'') s of
               (sch, it) \<Rightarrow>
                 (case it of
                    [] \<Rightarrow> parsePathEtc (u, s)
                  | d # it \<Rightarrow>
                      if d = CHR '':'' then
                        (case it of
                           [] \<Rightarrow> Throws (SyntaxException ''URI scheme must be followed by authority or path'') (u, it)
                         | e # it1 \<Rightarrow>
                             let u = setScheme u sch
                             in if e = CHR ''/'' then
                                  (case it1 of
                                     [] \<Rightarrow> parsePathEtc (u, it)
                                   | f # it2 \<Rightarrow>
                                       if f = CHR ''/'' then and_then (parseAuthority (u, it2)) parsePathEtc
                                       else parsePathEtc (u, it))
                                else parsePathEtc (u, it))
                      else parsePathEtc (u, s)))
          else parsePathEtc (u, s))"

section \<open>Printing\<close>

definition getAuthority :: "uri \<Rightarrow> string" where
  "getAuthority u =
     (let auth = (if u_userInfo u \<noteq> [] then u_userInfo u @ ''@'' else []);
          auth = (if CHR '':'' \<in> set (u_host u) then auth @ ''['' @ u_host u @ '']''
                  else auth @ u_host u)
      in if u_port u \<noteq> 0 \<and> \<not> isWellKnownPort u
         then (case append_int (auth @ '':'') (int (u_port u)) of Inl e \<Rightarrow> auth @ '':'' | Inr s \<Rightarrow> s)
         else auth)"

definition isRelative :: "uri \<Rightarrow> bool" where
  "isRelative u \<longleftrightarrow> u_scheme u = []"

definition toString :: "uri \<Rightarrow> string" where
  "toString u =
     (let s = (if isRelative u then encode (u_path u) RESERVED_PATH []
               else let s = u_scheme u @ '':'';
                        auth = getAuthority u;
                        s = (if auth \<noteq> [] \<or> u_scheme u = ''file'' then s @ ''//'' @ auth else s)
                    in if u_path u \<noteq> [] then
                         encode (u_path u) RESERVED_PATH
                           (if auth \<noteq> [] \<and> hd (u_path u) \<noteq> CHR ''/'' then s @ ''/'' else s)
                       else if u_query u \<noteq> [] \<or> u_fragment u \<noteq> [] then s @ ''/''
                       else s);
          s = (if u_query u \<noteq> [] then s @ ''?'' @ u_query u else s)
      in if u_fragment u \<noteq> [] then encode (u_fragment u) RESERVED_FRAGMENT (s @ ''#'') else s)"

definition getPathAndQuery :: "uri \<Rightarrow> string" where
  "getPathAndQuery u =
     (let s = encode (u_path u) RESERVED_PATH []
      in if u_query u \<noteq> [] then s @ ''?'' @ u_query u else s)"

definition getPathEtc :: "uri \<Rightarrow> string" where
  "getPathEtc u =
     (let s = encode (u_path u) RESERVED_PATH [];
          s = (if u_query u \<noteq> [] then s @ ''?'' @ u_query u else s)
      in if u_fragment u \<noteq> [] then encode (u_fragment u) RESERVED_FRAGMENT (s @ ''#'') else s)"

section \<open>Path segments\<close>

fun segments_loop :: "string \<Rightarrow> string \<Rightarrow> string list \<Rightarrow> string list" where
  "segments_loop [] seg segments = (if seg \<noteq> [] then segments @ [seg] else segments)"
| "segments_loop (c # it) seg segments =
     (if c = CHR ''/'' then
        (if seg \<noteq> [] then segments_loop it [] (segments @ [seg]) else segments_loop it seg segments)
      else segments_loop it (seg @ [c]) segments)"

definition getPathSegments :: "string \<Rightarrow> string list \<Rightarrow> string list" where
  "getPathSegments p segments = segments_loop p [] segments"

definition build_first :: "string \<Rightarrow> bool \<Rightarrow> string \<Rightarrow> string" where
  "build_first sch leadingSlash s =
     (if leadingSlash then ''/''
      else if sch = [] \<and> CHR '':'' \<in> set s then ''./''
      else []) @ s"

fun build_segments :: "string \<Rightarrow> bool \<Rightarrow> string list \<Rightarrow> string" where
  "build_segments sch leadingSlash [] = []"
| "build_segments sch leadingSlash (s # segs) =
     build_first sch leadingSlash s @ concat (map (\<lambda>s. CHR ''/'' # s) segs)"

definition buildPath :: "uri \<Rightarrow> string list \<Rightarrow> bool \<Rightarrow> bool \<Rightarrow> uri" where
  "buildPath u segments leadingSlash trailingSlash =
     u\<lparr>u_path := build_segments (u_scheme u) leadingSlash segments
                  @ (if trailingSlash then ''/'' else [])\<rparr>"

text \<open>The body of the loop of \<open>removeDotSegments\<close>.\<close>

definition dot_step :: "bool \<Rightarrow> string list \<Rightarrow> string \<Rightarrow> string list" where
  "dot_step removeLeading norm s =
     (if s = ''..'' then
        (if norm \<noteq> [] then (if last norm = ''..'' then norm @ [s] else butlast norm)
         else if \<not> removeLeading then norm @ [s]
         else norm)
      else if s \<noteq> ''.'' then norm @ [s]
      else norm)"

definition removeDotSegments :: "uri \<Rightarrow> bool \<Rightarrow> uri" where
  "removeDotSegments u removeLeading =
     (if u_path u = [] then u
      else let leadingSlash = (hd (u_path u) = CHR ''/'');
               trailingSlash = (last (u_path u) = CHR ''/'');
               segments = getPathSegments (u_path u) [];
               norm = foldl (dot_step removeLeading) [] segments
           in buildPath u norm leadingSlash trailingSlash)"

definition normalize :: "uri \<Rightarrow> uri" where
  "normalize u = removeDotSegments u (\<not> isRelative u)"

text \<open>The body of the loop of \<open>mergePath\<close>: the stack and the flag \<open>addTrailingSlash\<close>.\<close>

definition merge_step :: "string list \<times> bool \<Rightarrow> string \<Rightarrow> string list \<times> bool" where
  "merge_step = (\<lambda>(norm, addTrailingSlash) s.
     if s = ''..'' then (if norm \<noteq> [] then butlast norm else norm, True)
     else if s \<noteq> ''.'' then (norm @ [s], False)
     else (norm, True))"

definition mergePath :: "uri \<Rightarrow> string \<Rightarrow> uri" where
  "mergePath u p =
     (let (segments, addLeadingSlash) =
            (if u_path u \<noteq> [] then
               let segments = getPathSegments (u_path u) [];
                   endsWithSlash = (last (u_path u) = CHR ''/'')
               in (if \<not> endsWithSlash \<and> segments \<noteq> [] then butlast segments else segments,
                   hd (u_path u) = CHR ''/'')
             else ([], False));
          segments = getPathSegments p segments;
          addLeadingSlash = (addLeadingSlash \<or> (p \<noteq> [] \<and> hd p = CHR ''/''));
          hasTrailingSlash = (p \<noteq> [] \<and> last p = CHR ''/'');
          (norm, addTrailingSlash) = foldl merge_step ([], False) segments
      in buildPath u norm addLeadingSlash (hasTrailingSlash \<or> addTrailingSlash))"

section \<open>Resolution, comparison, setters and constructors\<close>

definition resolve :: "uri \<Rightarrow> uri \<Rightarrow> uri" where
  "resolve u r =
     (let u =
        (if u_scheme r \<noteq> [] then
           removeDotSegments (u\<lparr>u_scheme := u_scheme r, u_userInfo := u_userInfo r, u_host := u_host r,
             u_port := u_port r, u_path := u_path r, u_query := u_query r\<rparr>) True
         else if u_host r \<noteq> [] then
           removeDotSegments (u\<lparr>u_userInfo := u_userInfo r, u_host := u_host r,
             u_port := u_port r, u_path := u_path r, u_query := u_query r\<rparr>) True
         else if u_path r = [] then
           (if u_query r \<noteq> [] then u\<lparr>u_query := u_query r\<rparr> else u)
         else
           (if hd (u_path r) = CHR ''/'' then removeDotSegments (u\<lparr>u_path := u_path r\<rparr>) True
            else mergePath u (u_path r))\<lparr>u_query := u_query r\<rparr>)
      in u\<lparr>u_fragment := u_fragment r\<rparr>)"

definition resolve_str :: "uri \<Rightarrow> string \<Rightarrow> uri outcome" where
  "resolve_str u s =
     (case parse empty_uri s of
        Returns r \<Rightarrow> Returns (resolve u r)
      | Throws e _ \<Rightarrow> Throws e u)"

definition URI_empty :: "uri \<Rightarrow> bool" where
  "URI_empty u \<longleftrightarrow> u_scheme u = [] \<and> u_host u = [] \<and> u_path u = [] \<and> u_query u = [] \<and> u_fragment u = []"

definition equals :: "uri \<Rightarrow> uri \<Rightarrow> bool" where
  "equals u v \<longleftrightarrow>
     u_scheme u = u_scheme v \<and> u_userInfo u = u_userInfo v \<and> u_host u = u_host v
     \<and> getPort u = getPort v \<and> u_path u = u_path v \<and> u_query u = u_query v
     \<and> u_fragment u = u_fragment v"

definition equals_str :: "uri \<Rightarrow> string \<Rightarrow> exn + bool" where
  "equals_str u s =
     (case parse empty_uri s of Returns v \<Rightarrow> Inr (equals u v) | Throws e _ \<Rightarrow> Inl e)"

definition setUserInfo :: "uri \<Rightarrow> string \<Rightarrow> uri outcome" where
  "setUserInfo u s = map_outcome_state (\<lambda>d. u\<lparr>u_userInfo := d\<rparr>) (decode s [] False)"

definition setHost :: "uri \<Rightarrow> string \<Rightarrow> uri" where
  "setHost u h = u\<lparr>u_host := h\<rparr>"

definition setAuthority :: "uri \<Rightarrow> string \<Rightarrow> uri outcome" where
  "setAuthority u a = map_outcome_state fst
     (parseAuthority (u\<lparr>u_userInfo := [], u_host := [], u_port := 0\<rparr>, a))"

definition setPath :: "uri \<Rightarrow> string \<Rightarrow> uri outcome" where
  "setPath u p = map_outcome_state (\<lambda>d. u\<lparr>u_path := d\<rparr>) (decode p [] False)"

definition setRawQuery :: "uri \<Rightarrow> string \<Rightarrow> uri" where
  "setRawQuery u q = u\<lparr>u_query := q\<rparr>"

definition setQuery :: "uri \<Rightarrow> string \<Rightarrow> uri" where
  "setQuery u q = u\<lparr>u_query := encode q RESERVED_QUERY []\<rparr>"

definition addQueryParameter :: "uri \<Rightarrow> string \<Rightarrow> string \<Rightarrow> uri" where
  "addQueryParameter u param val =
     (let reserved = RESERVED_QUERY @ ''=&'';
          q = (if u_query u \<noteq> [] then u_query u @ ''&'' else u_query u);
          q = encode param reserved q @ ''=''
      in u\<lparr>u_query := encode val reserved q\<rparr>)"

definition getQuery :: "uri \<Rightarrow> exn + string" where
  "getQuery u = (case decode (u_query u) [] False of Returns s \<Rightarrow> Inr s | Throws e _ \<Rightarrow> Inl e)"

definition setFragment :: "uri \<Rightarrow> string \<Rightarrow> uri outcome" where
  "setFragment u f = map_outcome_state (\<lambda>d. u\<lparr>u_fragment := d\<rparr>) (decode f [] False)"

definition setPathEtc :: "uri \<Rightarrow> string \<Rightarrow> uri outcome" where
  "setPathEtc u s = map_outcome_state fst
     (parsePathEtc (u\<lparr>u_path := [], u_query := [], u_fragment := []\<rparr>, s))"

definition assign_str :: "uri \<Rightarrow> string \<Rightarrow> uri outcome" where
  "assign_str u s = parse (clear u) s"

definition URI_swap :: "uri \<Rightarrow> uri \<Rightarrow> uri \<times> uri" where
  "URI_swap u v = (v, u)"

text \<open>Constructors. The three that take an authority do not initialise \<open>_port\<close>: what the memory
  holds is their argument \<open>port0\<close>.\<close>

definition URI_str :: "string \<Rightarrow> uri outcome" where
  "URI_str s = parse empty_uri s"

definition URI_scheme_pathEtc :: "string \<Rightarrow> string \<Rightarrow> uri outcome" where
  "URI_scheme_pathEtc sch pathEtc =
     (let u = empty_uri\<lparr>u_scheme := toLowerStr sch\<rparr>;
          u = u\<lparr>u_port := getWellKnownPort u\<rparr>
      in map_outcome_state fst (parsePathEtc (u, pathEtc)))"

definition URI_scheme_authority_pathEtc :: "nat \<Rightarrow> string \<Rightarrow> string \<Rightarrow> string \<Rightarrow> uri outcome" where
  "URI_scheme_authority_pathEtc port0 sch authority pathEtc =
     (let u = empty_uri\<lparr>u_scheme := toLowerStr sch, u_port := port0\<rparr>
      in map_outcome_state fst
           (and_then (parseAuthority (u, authority)) (\<lambda>(u, _). parsePathEtc (u, pathEtc))))"

definition URI_parts ::
  "nat \<Rightarrow> string \<Rightarrow> string \<Rightarrow> string \<Rightarrow> string \<Rightarrow> string \<Rightarrow> uri outcome" where
  "URI_parts port0 sch authority p q fragment =
     (let u = empty_uri\<lparr>u_scheme := toLowerStr sch, u_port := port0, u_path := p, u_query := q,
                u_fragment := fragment\<rparr>
      in map_outcome_state fst (parseAuthority (u, authority)))"

definition URI_base_relative :: "uri \<Rightarrow> string \<Rightarrow> uri outcome" where
  "URI_base_relative base s = resolve_str base s"

section \<open>Percent encoding is decoded to the text\<close>

lemma hexd_cases:
  assumes "d < 16"
  shows "hex_value (hexd d) = Some (int d)" "unreserved (hexd d)" "hexd d \<noteq> CHR ''%''"
  using less_16_cases [OF assms]
  by (elim insertE emptyE,
      simp_all add: hexd_def DIGITS_def hex_value_def between_def schar_def uchar_def unreserved_def)+

lemma hex_byte_eq: "hex_byte c = [hexd (uchar c div 16), hexd (uchar c mod 16)]"
  by (simp add: hex_byte_def formatHex_byte)

lemma byte_halves [simp]: "uchar c div 16 < 16" "uchar c mod 16 < 16"
  using uchar_less [of c] by (simp_all del: uchar_less)

lemma to_char_byte: "to_char (int (uchar c div 16) * 16 + int (uchar c mod 16)) = c"
proof -
  have "int (uchar c div 16) * 16 + int (uchar c mod 16) = int (uchar c)"
    by (metis div_mult_mod_eq of_nat_add of_nat_mult of_nat_numeral)
  then show ?thesis by (simp only: to_char_nat char_of_uchar)
qed

lemma percent_special [simp]: "CHR ''%'' \<in> set ILLEGAL" "\<not> unreserved (CHR ''%'')"
  by (simp_all add: ILLEGAL_def unreserved_def between_def schar_def uchar_def)

lemma unreserved_visible: "unreserved c \<Longrightarrow> 0x20 < schar c \<and> schar c < 0x7F \<and> c \<notin> set ILLEGAL"
  by (auto simp: unreserved_def between_def schar_def uchar_def ILLEGAL_def split: if_splits)

lemma encode_char_cases:
  obtains (plain) "encode_char reserved c = [c]" "c \<noteq> CHR ''%''"
      "0x20 < schar c" "schar c < 0x7F" "c \<notin> set ILLEGAL" "unreserved c \<or> c \<notin> set reserved"
    | (escaped) "encode_char reserved c = [CHR ''%'', hexd (uchar c div 16), hexd (uchar c mod 16)]"
proof (cases "unreserved c")
  case True
  then show ?thesis using that(1) unreserved_visible [OF True] by (cases "c = CHR ''%''") (auto simp: encode_char_def)
next
  case False
  then show ?thesis
    using that
    by (cases "schar c \<le> 0x20 \<or> schar c \<ge> 0x7F \<or> c \<in> set ILLEGAL \<or> c \<in> set reserved")
      (cases "c = CHR ''%''"; auto simp: encode_char_def hex_byte_eq)+
qed

lemma decode_loop_encode_char:
  assumes "p \<Longrightarrow> CHR ''+'' \<in> set reserved"
  shows "\<exists>q'. decode_loop p q (encode_char reserved c @ rest) acc = decode_loop p q' rest (acc @ [c])"
proof (cases rule: encode_char_cases [of reserved c])
  case plain
  have "\<not> unreserved (CHR ''+'')" by (simp add: unreserved_def between_def schar_def uchar_def)
  then have "\<not> (p \<and> c = CHR ''+'')" using plain assms by auto
  then show ?thesis using plain by (auto simp: Let_def)
next
  case escaped
  then show ?thesis by (auto simp: hexd_cases to_char_byte Let_def)
qed

lemma decode_loop_encode:
  assumes "p \<Longrightarrow> CHR ''+'' \<in> set reserved"
  shows "\<exists>q'. decode_loop p q (concat (map (encode_char reserved) s) @ rest) acc
            = decode_loop p q' rest (acc @ s)"
proof (induction s arbitrary: q acc)
  case (Cons c s)
  obtain q' where "decode_loop p q (encode_char reserved c @ concat (map (encode_char reserved) s) @ rest) acc
      = decode_loop p q' (concat (map (encode_char reserved) s) @ rest) (acc @ [c])"
    using decode_loop_encode_char [OF assms] by blast
  then show ?case using Cons.IH [of q' "acc @ [c]"] by auto
qed auto

lemma decode_encode:
  assumes "p \<Longrightarrow> CHR ''+'' \<in> set reserved"
  shows "decode (encode s reserved []) acc p = Returns (acc @ s)"
  using decode_loop_encode [OF assms, where q = False and s = s and rest = "[]" and acc = acc] by (auto simp: decode_def encode_def)

lemma encode_append: "encode s reserved acc = acc @ encode s reserved []"
  by (simp add: encode_def)

interpretation percent: codec "\<lambda>s. encode s reserved []" "\<lambda>t. returned (decode t [] False)" "\<lambda>_. True"
  for reserved
  by unfold_locales (simp add: decode_encode)

lemma encode_chars:
  assumes "x \<in> set (encode s reserved [])"
  shows "0x20 < schar x \<and> schar x < 0x7F \<and> (x = CHR ''%'' \<or> x \<notin> set ILLEGAL)
    \<and> (x = CHR ''%'' \<or> unreserved x \<or> x \<notin> set reserved)"
proof -
  obtain c where c: "x \<in> set (encode_char reserved c)" using assms by (auto simp: encode_def)
  show ?thesis
  proof (cases rule: encode_char_cases [of reserved c])
    case plain
    then show ?thesis using c by auto
  next
    case escaped
    then have "x = CHR ''%'' \<or> unreserved x" using c by (auto simp: hexd_cases)
    then show ?thesis
      using unreserved_visible [of x] by (auto simp: schar_def uchar_def)
  qed
qed

text \<open>Which texts \<open>decode\<close> accepts: every percent sign is followed by two hexadecimal digits.\<close>

fun well_escaped :: "string \<Rightarrow> bool" where
  "well_escaped [] = True"
| "well_escaped (c # s) =
     (if c = CHR ''%'' then
        (case s of hi # lo # rest \<Rightarrow> hex_value hi \<noteq> None \<and> hex_value lo \<noteq> None \<and> well_escaped rest
         | _ \<Rightarrow> False)
      else well_escaped s)"

lemma decode_loop_returns: "returns (decode_loop p q it acc) \<longleftrightarrow> well_escaped it"
proof (induction it arbitrary: q acc rule: well_escaped.induct)
  case (2 c s)
  show ?case
  proof (cases "c = CHR ''%''")
    case False
    then show ?thesis using 2(2) by (cases p) (simp_all add: Let_def)
  next
    case True
    show ?thesis
    proof (cases "\<exists>hi lo rest. s = hi # lo # rest")
      case more: True
      then obtain hi lo rest where "s = hi # lo # rest" by blast
      then show ?thesis using 2(1) [OF True] True by (auto simp: Let_def split: option.splits)
    next
      case False
      then show ?thesis using True by (cases s; cases "tl s") (auto simp: Let_def)
    qed
  qed
qed simp

section \<open>Segments of a path and their normal form\<close>

definition seg_ok :: "string \<Rightarrow> bool" where
  "seg_ok s \<longleftrightarrow> s \<noteq> [] \<and> CHR ''/'' \<notin> set s"

lemma segments_loop_acc: "segments_loop it seg segs = segs @ segments_loop it seg []"
proof (induction it arbitrary: seg segs)
  case (Cons c it)
  have "segments_loop it [] (segs @ [seg]) = segs @ segments_loop it [] [seg]"
    using Cons.IH [of "[]" "segs @ [seg]"] Cons.IH [of "[]" "[seg]"] by simp
  then show ?case using Cons.IH [of seg segs] Cons.IH [of "seg @ [c]" segs] by (cases seg) auto
qed simp

lemma segments_loop_text:
  "CHR ''/'' \<notin> set s \<Longrightarrow> segments_loop (s @ it) seg segs = segments_loop it (seg @ s) segs"
  by (induction s arbitrary: seg) auto

lemma segments_loop_ok: "CHR ''/'' \<notin> set seg \<Longrightarrow> list_all seg_ok segs \<Longrightarrow>
  list_all seg_ok (segments_loop it seg segs)"
  by (induction it seg segs rule: segments_loop.induct) (auto simp: seg_ok_def)

lemma getPathSegments_acc [seg_simps]: "getPathSegments p segs = segs @ getPathSegments p []"
  unfolding getPathSegments_def by (rule segments_loop_acc)

lemma getPathSegments_ok: "list_all seg_ok (getPathSegments p [])"
  by (simp add: getPathSegments_def segments_loop_ok)

lemma getPathSegments_nonempty: "[] \<notin> set (getPathSegments p [])"
  using getPathSegments_ok [of p] by (auto simp: list_all_iff seg_ok_def)

lemma getPathSegments_slash [simp]: "getPathSegments (CHR ''/'' # p) segs = getPathSegments p segs"
  by (simp add: getPathSegments_def)

lemma segments_loop_join:
  assumes "list_all seg_ok segs" "seg_ok s" "t = [] \<or> t = ''/''"
  shows "segments_loop (concat (map (\<lambda>s. CHR ''/'' # s) segs) @ t) s [] = s # segs"
  using assms
proof (induction segs arbitrary: s)
  case (Cons a segs)
  then show ?case
    using segments_loop_text [of a "concat (map (\<lambda>s. CHR ''/'' # s) segs) @ t" "[]"]
      segments_loop_acc [of "concat (map (\<lambda>s. CHR ''/'' # s) segs) @ t" a "[s]"]
    by (auto simp: seg_ok_def)
qed (auto simp: seg_ok_def)

lemma getPathSegments_build:
  assumes "list_all seg_ok segs" "t = [] \<or> t = ''/''"
  shows "getPathSegments (build_segments sch lead segs @ t) [] =
    (if segs \<noteq> [] \<and> \<not> lead \<and> sch = [] \<and> CHR '':'' \<in> set (hd segs) then [dot] else []) @ segs"
proof (cases segs)
  case Nil
  then show ?thesis using assms(2) by (auto simp: getPathSegments_def)
next
  case (Cons s ss)
  have "segments_loop (s @ concat (map (\<lambda>s. CHR ''/'' # s) ss) @ t) [] xs = xs @ segs" for xs
    using segments_loop_join [of ss s t] assms Cons
      segments_loop_text [of s "concat (map (\<lambda>s. CHR ''/'' # s) ss) @ t" "[]" xs]
      segments_loop_acc [of "concat (map (\<lambda>s. CHR ''/'' # s) ss) @ t" s xs]
    by (simp add: seg_ok_def)
  then show ?thesis using Cons by (auto simp: getPathSegments_def build_first_def)
qed

lemma concat_slash_last:
  "segs \<noteq> [] \<Longrightarrow> list_all seg_ok segs \<Longrightarrow>
     concat (map (\<lambda>s. CHR ''/'' # s) segs) \<noteq> []
     \<and> last (concat (map (\<lambda>s. CHR ''/'' # s) segs)) \<noteq> CHR ''/''"
  by (induction segs rule: rev_induct) (auto simp: seg_ok_def dest: last_in_set)

lemma build_segments_ends:
  assumes "list_all seg_ok segs" "segs \<noteq> []"
  shows "build_segments sch lead segs \<noteq> []"
    "hd (build_segments sch lead segs) = CHR ''/'' \<longleftrightarrow> lead"
    "last (build_segments sch lead segs) \<noteq> CHR ''/''"
proof -
  obtain s ss where s: "segs = s # ss" using assms by (cases segs) auto
  have "hd s \<in> set s" "last s \<in> set s" "s \<noteq> []" "CHR ''/'' \<notin> set s"
    using s assms by (auto simp: seg_ok_def)
  then have ends: "hd s \<noteq> CHR ''/''" "last s \<noteq> CHR ''/''" "s \<noteq> []" by metis+
  then show "build_segments sch lead segs \<noteq> []"
    "hd (build_segments sch lead segs) = CHR ''/'' \<longleftrightarrow> lead"
    using s by (auto simp: build_first_def)
  show "last (build_segments sch lead segs) \<noteq> CHR ''/''"
    using s ends assms concat_slash_last [of ss] by (cases "ss = []") (auto simp: build_first_def)
qed

interpretation uri_dots: dot_stack "dot_step removeLeading" "\<not> removeLeading" for removeLeading
  by unfold_locales (auto simp: dot_step_def name_seg_def)

lemma dot_step_ok: "list_all seg_ok st \<Longrightarrow> seg_ok s \<Longrightarrow> list_all seg_ok (dot_step b st s)"
  by (auto simp: dot_step_def list_all_iff dest: in_set_butlastD)

lemma foldl_dot_step_ok:
  "list_all seg_ok segs \<Longrightarrow> list_all seg_ok st \<Longrightarrow> list_all seg_ok (foldl (dot_step b) st segs)"
  by (induction segs arbitrary: st) (simp_all add: dot_step_ok)

text \<open>The segments that \<open>removeDotSegments\<close> builds the new path from.\<close>

definition norm_segments :: "bool \<Rightarrow> string \<Rightarrow> string list" where
  "norm_segments b p = foldl (dot_step b) [] (getPathSegments p [])"

lemma norm_segments_ok: "list_all seg_ok (norm_segments b p)"
  by (simp add: norm_segments_def foldl_dot_step_ok getPathSegments_ok)

lemma norm_segments_normal: "normal (\<not> b) (norm_segments b p)"
  by (simp add: norm_segments_def uri_dots.normal_foldl getPathSegments_nonempty)

lemma norm_segments_fixed:
  assumes "normal (\<not> b) segs" "list_all seg_ok segs" "t = [] \<or> t = ''/''"
  shows "norm_segments b (build_segments sch lead segs @ t) = segs"
  using uri_dots.foldl_normal [OF assms(1)] uri_dots.drop_dot [of b "[]"]
  by (simp add: norm_segments_def getPathSegments_build [OF assms(2,3)])

lemma removeDotSegments_eq:
  "removeDotSegments u b = (if u_path u = [] then u
     else buildPath u (norm_segments b (u_path u)) (hd (u_path u) = CHR ''/'') (last (u_path u) = CHR ''/''))"
  by (simp add: removeDotSegments_def norm_segments_def Let_def)

lemma removeDotSegments_idem:
  "removeDotSegments (removeDotSegments u b) b = removeDotSegments u b"
proof (cases "u_path u = []")
  case False
  let ?segs = "norm_segments b (u_path u)"
  let ?lead = "hd (u_path u) = CHR ''/''" and ?trail = "last (u_path u) = CHR ''/''"
  let ?t = "if ?trail then ''/'' else []"
  let ?p = "build_segments (u_scheme u) ?lead ?segs @ ?t"
  have u': "removeDotSegments u b = u\<lparr>u_path := ?p\<rparr>"
    using False by (simp add: removeDotSegments_eq buildPath_def)
  have segs: "norm_segments b ?p = ?segs"
    by (rule norm_segments_fixed) (auto simp: norm_segments_ok norm_segments_normal)
  show ?thesis
  proof (cases "?segs = []")
    case True
    then show ?thesis using u' segs by (auto simp: removeDotSegments_eq buildPath_def)
  next
    case ne: False
    note e = build_segments_ends [OF norm_segments_ok ne, of "u_scheme u" ?lead]
    have "hd ?p = CHR ''/'' \<longleftrightarrow> ?lead" "last ?p = CHR ''/'' \<longleftrightarrow> ?trail" using e by simp_all
    then show ?thesis using u' segs e by (simp add: removeDotSegments_eq buildPath_def)
  qed
qed (simp add: removeDotSegments_eq)

lemma removeDotSegments_segments:
  "filter (\<lambda>s. s \<noteq> dot) (getPathSegments (u_path (removeDotSegments u b)) [])
     = norm_segments b (u_path u)"
proof -
  have "dot \<notin> set (norm_segments b p)" for p
    using norm_segments_normal by (rule normal_no_dot)
  then have f: "filter (\<lambda>s. s \<noteq> dot) (norm_segments b p) = norm_segments b p" for p
    by (intro filter_True ballI) metis
  have "norm_segments b [] = []" by (simp add: norm_segments_def getPathSegments_def)
  then show ?thesis
    by (simp add: removeDotSegments_eq buildPath_def getPathSegments_build norm_segments_ok f
        getPathSegments_def [of "[]"])
qed

section \<open>Printing and parsing\<close>

lemma encode_lacks:
  assumes "set bad \<subseteq> set reserved" "list_all (\<lambda>c. \<not> unreserved c \<and> c \<noteq> CHR ''%'') bad"
  shows "lacks bad (encode s reserved [])"
  unfolding lacks_def list_all_iff
proof (intro ballI notI)
  fix x assume x: "x \<in> set (encode s reserved [])" "x \<in> set bad"
  then have "\<not> unreserved x \<and> x \<noteq> CHR ''%''" using assms(2) by (simp add: list_all_iff)
  then show False using encode_chars [OF x(1)] x(2) assms(1) by blast
qed

lemma encode_path_lacks: "lacks ''?#'' (encode s RESERVED_PATH [])"
  by (rule encode_lacks)
    (simp_all add: RESERVED_PATH_def unreserved_def between_def schar_def uchar_def)

lemma encode_Nil [simp]: "encode [] reserved acc = acc"
  by (simp add: encode_def)

lemma encode_eq_Nil [simp]: "encode s reserved [] = [] \<longleftrightarrow> s = []"
proof (cases s)
  case (Cons c cs)
  have "encode_char reserved c \<noteq> []" by (simp add: encode_char_def)
  then show ?thesis using Cons by (simp add: encode_def)
qed (simp add: encode_def)

lemma encode_slash:
  "s \<noteq> [] \<Longrightarrow> hd s = CHR ''/'' \<Longrightarrow> hd (encode s RESERVED_PATH []) = CHR ''/''"
  by (cases s) (simp_all add: encode_def encode_char_def RESERVED_PATH_def ILLEGAL_def schar_def uchar_def)

text \<open>What \<open>toString\<close> and \<open>getPathEtc\<close> print behind the path.\<close>

definition query_text :: "string \<Rightarrow> string" where
  "query_text q = (if q \<noteq> [] then CHR ''?'' # q else [])"

definition fragment_text :: "string \<Rightarrow> string" where
  "fragment_text f = (if f \<noteq> [] then CHR ''#'' # encode f RESERVED_FRAGMENT [] else [])"

lemma parseFragment_text:
  "parseFragment (v, encode f RESERVED_FRAGMENT []) = Returns (v\<lparr>u_fragment := u_fragment v @ f\<rparr>, [])"
  by (simp add: parseFragment_def decode_encode)

lemma when_fragment:
  "when_next (CHR ''#'') parseFragment (v, fragment_text f) =
     Returns (if f \<noteq> [] then v\<lparr>u_fragment := u_fragment v @ f\<rparr> else v, [])"
  by (simp add: fragment_text_def when_next_def parseFragment_text)

lemma fragment_text_hd: "fragment_text f = [] \<or> hd (fragment_text f) = CHR ''#''"
  by (simp add: fragment_text_def)

lemma when_query:
  assumes "lacks ''#'' q"
  shows "when_next (CHR ''?'') parseQuery (v, query_text q @ fragment_text f) =
     Returns (if q \<noteq> [] then v\<lparr>u_query := q\<rparr> else v, fragment_text f)"
proof -
  have "scan (\<lambda>c. c \<noteq> CHR ''#'') (q @ fragment_text f) = (q, fragment_text f)"
    using lacks_scan [of "''#''" q "''#''" "fragment_text f"] assms fragment_text_hd by simp
  moreover have "when_next (CHR ''?'') parseQuery (v, fragment_text f) = Returns (v, fragment_text f)"
    by (simp add: when_next_def fragment_text_def)
  ultimately show ?thesis
    by (cases "q = []") (simp_all add: query_text_def, simp add: when_next_def parseQuery_def)
qed

lemma parsePath_text:
  assumes "rest = [] \<or> hd rest \<in> set ''?#''"
  shows "parsePath (v, encode p RESERVED_PATH [] @ rest) = Returns (v\<lparr>u_path := u_path v @ p\<rparr>, rest)"
proof -
  have "scan (\<lambda>c. c \<noteq> CHR ''?'' \<and> c \<noteq> CHR ''#'') (encode p RESERVED_PATH [] @ rest)
      = (encode p RESERVED_PATH [], rest)"
    using lacks_scan [OF encode_path_lacks [of p], of "''?#''" rest] assms by simp
  then show ?thesis by (simp add: parsePath_def decode_encode)
qed

lemma parsePathEtc_nonempty:
  "it \<noteq> [] \<Longrightarrow> parsePathEtc (v, it) =
     and_then
       (and_then (if hd it \<noteq> CHR ''?'' \<and> hd it \<noteq> CHR ''#'' then parsePath (v, it) else Returns (v, it))
         (when_next (CHR ''?'') parseQuery))
       (when_next (CHR ''#'') parseFragment)"
  by (cases it) (simp_all add: parsePathEtc_def)

lemma parsePathEtc_text:
  assumes "lacks ''#'' q"
  shows "parsePathEtc (v, encode p RESERVED_PATH [] @ query_text q @ fragment_text f) =
    Returns (v\<lparr>u_path := u_path v @ p, u_query := (if q \<noteq> [] then q else u_query v),
               u_fragment := u_fragment v @ f\<rparr>, [])"
    (is "parsePathEtc (v, ?p @ ?rest) = Returns ?res")
proof -
  have rest: "?rest = [] \<or> hd ?rest \<in> set ''?#''"
    by (simp add: query_text_def fragment_text_def)
  show ?thesis
  proof (cases "?p @ ?rest = []")
    case True
    then have "p = [] \<and> q = [] \<and> f = []"
      by (auto simp: query_text_def fragment_text_def split: if_splits)
    then show ?thesis using True by (simp add: parsePathEtc_def)
  next
    case False
    let ?c = "hd (?p @ ?rest)"
    let ?v = "v\<lparr>u_path := u_path v @ p\<rparr>"
    have "(if ?c \<noteq> CHR ''?'' \<and> ?c \<noteq> CHR ''#'' then parsePath (v, ?p @ ?rest)
        else Returns (v, ?p @ ?rest)) = Returns (?v, ?rest)"
    proof (cases "p = []")
      case True
      then show ?thesis using False rest by auto
    next
      case ne: False
      then have "?c \<in> set ?p" by simp
      then have "?c \<notin> set ''?#''"
        using encode_path_lacks [of p] unfolding lacks_def list_all_iff by blast
      then show ?thesis using parsePath_text [OF rest] by simp
    qed
    then have "parsePathEtc (v, ?p @ ?rest)
        = and_then (and_then (Returns (?v, ?rest)) (when_next (CHR ''?'') parseQuery))
            (when_next (CHR ''#'') parseFragment)"
      using parsePathEtc_nonempty [OF False] by simp
    then show ?thesis
      by (cases "q = []"; cases "f = []") (simp_all add: when_query assms when_fragment)
  qed
qed


lemma authority_loop_part:
  "lacks ''/?#@'' s \<Longrightarrow> authority_loop (s @ it) ui part = authority_loop it ui (part @ s)"
  by (induction s arbitrary: part) auto

lemma authority_loop_stop:
  "it = [] \<or> hd it \<in> set ''/?#'' \<Longrightarrow> authority_loop it ui part = (ui, part, it)"
  by (cases it) auto

definition userInfo_text :: "string \<Rightarrow> string" where
  "userInfo_text ui = (if ui \<noteq> [] then ui @ ''@'' else [])"

lemma authority_loop_text:
  assumes "lacks ''/?#@'' ui" "lacks ''/?#@'' part" "rest = [] \<or> hd rest \<in> set ''/?#''"
  shows "authority_loop (userInfo_text ui @ part @ rest) [] [] = (ui, part, rest)"
  using assms
  by (cases "ui = []") (simp_all add: userInfo_text_def authority_loop_part authority_loop_stop)

definition port_digits :: "nat \<Rightarrow> string" where
  "port_digits n = rev (rdigits 10 n)"

lemma append_port:
  assumes "n < 65536"
  shows "append_int s (int n) = Inr (s @ port_digits n)"
proof -
  have "length (rdigits 10 n) \<le> 5" using length_rdigits_le [of 10 n 4] assms by simp
  then show ?thesis
    by (simp add: append_int_def append_result_def intToStr_cases format_spec_def base_prefix_def
        Let_def NF_MAX_INT_STRING_LEN_def port_digits_def)
qed

lemma tryParse_port:
  assumes "n < 65536"
  shows "tryParse (port_digits n) thSep = Inr (Some (int n))"
proof -
  have "format_int (int n) = Inr (port_digits n)"
    using format_int_text [of "int n"] assms by (simp add: port_digits_def)
  then show ?thesis
    using strToInt_format_int [of Int32 "int n" thSep] assms
    by (simp add: tryParse_def Int32_def int_max_def)
qed

lemma port_digits_lacks: "lacks ''/?#@:[]'' (port_digits n)"
proof -
  have "list_all dec_digit (port_digits n)" using rdigits_dec [of n] by (simp add: port_digits_def)
  moreover have "dec_digit c \<Longrightarrow> c \<notin> set ''/?#@:[]''" for c
    by (auto simp: dec_digit_def uchar_def)
  ultimately show ?thesis unfolding lacks_def list_all_iff by blast
qed

lemma port_digits_nonempty [simp]: "port_digits n \<noteq> []"
  by (subst port_digits_def, subst rdigits.simps) simp


definition host_text :: "string \<Rightarrow> string" where
  "host_text h = (if CHR '':'' \<in> set h then ''['' @ h @ '']'' else h)"

definition port_text :: "uri \<Rightarrow> string" where
  "port_text u = (if u_port u \<noteq> 0 \<and> \<not> isWellKnownPort u then CHR '':'' # port_digits (u_port u) else [])"

lemma getAuthority_text:
  "u_port u < 65536 \<Longrightarrow> getAuthority u = userInfo_text (u_userInfo u) @ host_text (u_host u) @ port_text u"
  by (simp add: getAuthority_def userInfo_text_def host_text_def port_text_def append_port Let_def)

lemma parsePort_text:
  assumes "u_port u < 65536" "u_port u = 0 \<Longrightarrow> getWellKnownPort u = 0"
    "u_scheme v = u_scheme u" "toLowerStr h = h"
  shows "parsePort v h (port_text u) = Returns (v\<lparr>u_port := u_port u, u_host := h\<rparr>)"
proof (cases "u_port u \<noteq> 0 \<and> \<not> isWellKnownPort u")
  case True
  then show ?thesis using assms
    by (simp add: port_text_def parsePort_def tryParse_port Let_def)
next
  case False
  then have "u_port u = getWellKnownPort v"
    using assms by (auto simp: isWellKnownPort_def getWellKnownPort_def)
  then show ?thesis using False assms by (auto simp: port_text_def parsePort_def Let_def)
qed

lemma parseHostAndPort_text:
  assumes "u_port u < 65536" "u_port u = 0 \<Longrightarrow> getWellKnownPort u = 0"
    "u_scheme v = u_scheme u" "toLowerStr h = h" "lacks ''[]'' h" "h \<noteq> []"
  shows "parseHostAndPort v (host_text h @ port_text u) = Returns (v\<lparr>u_port := u_port u, u_host := h\<rparr>)"
proof (cases "CHR '':'' \<in> set h")
  case True
  have "scan (\<lambda>c. c \<noteq> CHR '']'') (h @ CHR '']'' # port_text u) = (h, CHR '']'' # port_text u)"
    using lacks_scan [OF assms(5), of "'']''" "CHR '']'' # port_text u"] by simp
  then show ?thesis
    using True parsePort_text [OF assms(1-4)] by (simp add: host_text_def parseHostAndPort_def)
next
  case False
  then have "lacks '':'' h" unfolding lacks_def list_all_iff by auto
  moreover have "port_text u = [] \<or> hd (port_text u) \<in> set '':''" by (simp add: port_text_def)
  ultimately have s: "scan (\<lambda>c. c \<noteq> CHR '':'') (h @ port_text u) = (h, port_text u)"
    using lacks_scan [of "'':''" h "'':''" "port_text u"] by simp
  obtain c cs where h: "h = c # cs" "c \<noteq> CHR ''[''" using assms(5,6) by (cases h) auto
  then show ?thesis
    using False parsePort_text [OF assms(1-4)] s by (simp add: host_text_def parseHostAndPort_def)
qed

text \<open>The URIs that printing and parsing give back: an authority is present, and every part
  keeps to the characters that do not end it.\<close>

definition printable :: "uri \<Rightarrow> bool" where
  "printable u \<longleftrightarrow>
     u_scheme u \<noteq> [] \<and> toLowerStr (u_scheme u) = u_scheme u \<and> lacks '':?#/'' (u_scheme u)
     \<and> hd (u_scheme u) \<noteq> CHR ''.''
     \<and> lacks ''/?#@'' (u_userInfo u)
     \<and> u_host u \<noteq> [] \<and> toLowerStr (u_host u) = u_host u \<and> lacks ''/?#@[]'' (u_host u)
     \<and> u_port u < 65536 \<and> (u_port u = 0 \<longrightarrow> getWellKnownPort u = 0)
     \<and> (u_path u = [] \<longrightarrow> u_query u = [] \<and> u_fragment u = [])
     \<and> (u_path u \<noteq> [] \<longrightarrow> hd (u_path u) = CHR ''/'')
     \<and> lacks ''#'' (u_query u)"

lemma parseAuthority_text:
  assumes "printable u" "u_scheme v = u_scheme u" "rest = [] \<or> hd rest \<in> set ''/?#''"
  shows "parseAuthority (v, getAuthority u @ rest) =
    Returns (v\<lparr>u_port := u_port u, u_host := u_host u, u_userInfo := u_userInfo u\<rparr>, rest)"
proof -
  have "lacks ''/?#@'' (host_text (u_host u) @ port_text u)"
    using assms(1) lacks_mono [OF port_digits_lacks, of "''/?#@''"] lacks_mono [of "''/?#@[]''" "u_host u" "''/?#@''"]
    by (auto simp: printable_def host_text_def port_text_def)
  then have "authority_loop (getAuthority u @ rest) [] [] = (u_userInfo u, host_text (u_host u) @ port_text u, rest)"
    using assms authority_loop_text [of "u_userInfo u" "host_text (u_host u) @ port_text u" rest]
    by (simp add: printable_def getAuthority_text)
  moreover have "parseHostAndPort v (host_text (u_host u) @ port_text u)
      = Returns (v\<lparr>u_port := u_port u, u_host := u_host u\<rparr>)"
    using assms lacks_mono [of "''/?#@[]''" "u_host u" "''[]''"]
    by (intro parseHostAndPort_text) (auto simp: printable_def)
  ultimately show ?thesis by (simp add: parseAuthority_def)
qed

lemma toString_text:
  assumes "printable u"
  shows "toString u = u_scheme u @ CHR '':'' # CHR ''/'' # CHR ''/'' # getAuthority u
    @ encode (u_path u) RESERVED_PATH [] @ query_text (u_query u) @ fragment_text (u_fragment u)"
proof -
  have "getAuthority u \<noteq> []"
    using assms by (simp add: printable_def getAuthority_text host_text_def)
  then show ?thesis
    using assms
    by (auto simp: printable_def toString_def isRelative_def query_text_def fragment_text_def encode_def
        Let_def)
qed

lemma parse_toString:
  assumes "printable u"
  shows "parse empty_uri (toString u) = Returns u"
proof -
  let ?rest = "encode (u_path u) RESERVED_PATH [] @ query_text (u_query u) @ fragment_text (u_fragment u)"
  let ?it = "getAuthority u @ ?rest"
  let ?v = "setScheme empty_uri (u_scheme u)"
  obtain c cs where c: "u_scheme u = c # cs" "c \<notin> set ''/.?#''"
    using assms by (cases "u_scheme u") (auto simp: printable_def)
  have scan: "scan (\<lambda>c. c \<noteq> CHR '':'' \<and> c \<noteq> CHR ''?'' \<and> c \<noteq> CHR ''#'' \<and> c \<noteq> CHR ''/'')
      (u_scheme u @ CHR '':'' # CHR ''/'' # CHR ''/'' # ?it)
    = (u_scheme u, CHR '':'' # CHR ''/'' # CHR ''/'' # ?it)"
    using assms lacks_scan [of "'':?#/''" "u_scheme u" "'':?#/''" "CHR '':'' # CHR ''/'' # CHR ''/'' # ?it"]
    by (simp add: printable_def)
  have v: "u_scheme ?v = u_scheme u" "u_path ?v = []" "u_query ?v = []" "u_fragment ?v = []"
    using assms by (simp_all add: printable_def setScheme_def Let_def empty_uri_def)
  have "?rest = [] \<or> hd ?rest \<in> set ''/?#''"
    using assms encode_slash [of "u_path u"]
    by (cases "u_path u = []") (auto simp: printable_def query_text_def fragment_text_def)
  then have auth: "parseAuthority (?v, ?it) =
      Returns (?v\<lparr>u_port := u_port u, u_host := u_host u, u_userInfo := u_userInfo u\<rparr>, ?rest)"
    using assms v by (intro parseAuthority_text) auto
  have q: "lacks ''#'' (u_query u)" using assms by (simp add: printable_def)
  show ?thesis
    using c scan auth parsePathEtc_text [OF q] v
    by (simp add: toString_text [OF assms] parse_def Let_def)
qed

section \<open>Resolution\<close>

interpretation uri_merge: dot_stack "\<lambda>st s. fst (merge_step (st, False) s)" False
  by unfold_locales (auto simp: merge_step_def name_seg_def)

lemma fst_merge_step: "fst (merge_step (st, b) s) = fst (merge_step (st, False) s)"
  by (simp add: merge_step_def)

lemma fst_foldl_merge:
  "fst (foldl merge_step (st, b) segs) = foldl (\<lambda>st s. fst (merge_step (st, False) s)) st segs"
proof (induction segs arbitrary: st b)
  case (Cons s segs)
  obtain st' b' where "merge_step (st, b) s = (st', b')" by (cases "merge_step (st, b) s") auto
  then show ?case using Cons [of st' b'] fst_merge_step [of st b s] by simp
qed simp

lemma merge_walk: "[] \<notin> set segs \<Longrightarrow> fst (foldl merge_step ([], b) segs) = walk [] segs"
  by (simp add: fst_foldl_merge uri_merge.foldl_walk_root)

lemma norm_segments_walk: "norm_segments True p = walk [] (getPathSegments p [])"
  using uri_dots.foldl_walk_root [OF getPathSegments_nonempty, of True p]
  by (simp add: norm_segments_def)

lemma walk_seg_ok:
  "list_all seg_ok segs \<Longrightarrow> list_all seg_ok dir \<Longrightarrow> list_all seg_ok (walk dir segs)"
proof (induction segs arbitrary: dir)
  case (Cons s segs)
  have "list_all seg_ok (butlast dir)"
    using Cons.prems(2) unfolding list_all_iff by (meson in_set_butlastD)
  then show ?case using Cons by simp
qed simp

text \<open>The directory that a relative path is resolved in: the segments of the base path without
  its last name.\<close>

definition base_dir :: "uri \<Rightarrow> string list" where
  "base_dir u = (let segs = getPathSegments (u_path u) []
     in if u_path u \<noteq> [] \<and> last (u_path u) \<noteq> CHR ''/'' then butlast segs else segs)"

lemma base_dir_ok: "list_all seg_ok (base_dir u)"
  using getPathSegments_ok [of "u_path u"] unfolding list_all_iff base_dir_def Let_def
  by (auto dest: in_set_butlastD)

lemma mergePath_eq:
  "\<exists>lead trail. mergePath u p = buildPath u (walk [] (base_dir u @ getPathSegments p [])) lead trail"
proof -
  have "[] \<notin> set (base_dir u @ getPathSegments p [])"
    using base_dir_ok [of u] getPathSegments_nonempty [of p] by (auto simp: list_all_iff seg_ok_def)
  then have w: "fst (foldl merge_step ([], False) (base_dir u @ getPathSegments p []))
      = walk [] (base_dir u @ getPathSegments p [])" by (rule merge_walk)
  have "getPathSegments p (if u_path u \<noteq> [] then
      (if last (u_path u) \<noteq> CHR ''/'' \<and> getPathSegments (u_path u) [] \<noteq> []
       then butlast (getPathSegments (u_path u) []) else getPathSegments (u_path u) []) else [])
    = base_dir u @ getPathSegments p []"
    by (subst getPathSegments_acc) (auto simp: base_dir_def Let_def getPathSegments_def [of "[]"])
  then show ?thesis
    using w unfolding mergePath_def Let_def
    by (auto split: prod.splits if_splits) (metis fst_conv)+
qed

lemma getPathSegments_buildPath:
  assumes "list_all seg_ok segs" "u_scheme u \<noteq> []"
  shows "getPathSegments (u_path (buildPath u segs lead trail)) [] = segs"
  using assms getPathSegments_build [of segs "if trail then ''/'' else []" "u_scheme u" lead]
  by (auto simp: buildPath_def)

lemma removeDotSegments_walk:
  assumes "u_scheme u \<noteq> []"
  shows "getPathSegments (u_path (removeDotSegments u True)) [] = walk [] (getPathSegments (u_path u) [])"
  using assms getPathSegments_buildPath [OF norm_segments_ok [of True "u_path u"], of u]
  by (simp add: removeDotSegments_eq norm_segments_walk getPathSegments_def [of "[]"])

lemma mergePath_walk:
  assumes "u_scheme u \<noteq> []"
  shows "getPathSegments (u_path (mergePath u p)) [] = walk [] (base_dir u @ getPathSegments p [])"
proof -
  have "list_all seg_ok (walk [] (base_dir u @ getPathSegments p []))"
    by (rule walk_seg_ok) (simp_all add: base_dir_ok getPathSegments_ok)
  then show ?thesis
    using mergePath_eq [of u p] getPathSegments_buildPath [OF _ assms] by metis
qed

lemma removeDotSegments_fields:
  "u_scheme (removeDotSegments u b) = u_scheme u" "u_userInfo (removeDotSegments u b) = u_userInfo u"
  "u_host (removeDotSegments u b) = u_host u" "u_port (removeDotSegments u b) = u_port u"
  "u_query (removeDotSegments u b) = u_query u" "u_fragment (removeDotSegments u b) = u_fragment u"
  by (simp_all add: removeDotSegments_eq buildPath_def)

lemma mergePath_fields:
  "u_scheme (mergePath u p) = u_scheme u" "u_userInfo (mergePath u p) = u_userInfo u"
  "u_host (mergePath u p) = u_host u" "u_port (mergePath u p) = u_port u"
  using mergePath_eq [of u p] by (auto simp: buildPath_def)

lemma resolve_segments:
  assumes "\<not> isRelative u"
  shows "getPathSegments (u_path (resolve u r)) [] =
    (if u_scheme r \<noteq> [] \<or> u_host r \<noteq> [] \<or> (u_path r \<noteq> [] \<and> hd (u_path r) = CHR ''/'')
     then walk [] (getPathSegments (u_path r) [])
     else if u_path r = [] then getPathSegments (u_path u) []
     else walk [] (base_dir u @ getPathSegments (u_path r) []))"
  using assms by (simp add: resolve_def isRelative_def removeDotSegments_walk mergePath_walk)

section \<open>The invariant of the object\<close>

text \<open>The port fits its type and the scheme is in lower case. The host is not always: \<open>setHost\<close>
  takes it as it is.\<close>

definition uri_inv :: "uri \<Rightarrow> bool" where
  "uri_inv u \<longleftrightarrow> u_port u < 65536 \<and> toLowerStr (u_scheme u) = u_scheme u"

lemma getWellKnownPort_bound: "getWellKnownPort u < 65536"
  by (simp add: getWellKnownPort_def)

lemma toLowerStr_idem: "toLowerStr (toLowerStr s) = toLowerStr s"
  by (simp add: toLowerStr_def lowerc_idem)

lemma setScheme_inv: "uri_inv u \<Longrightarrow> uri_inv (setScheme u s)"
  by (simp add: uri_inv_def setScheme_def getWellKnownPort_bound toLowerStr_idem Let_def)

lemma parsePort_inv: "uri_inv u \<Longrightarrow> uri_inv (state_of (parsePort u h it))"
  by (auto simp: parsePort_def uri_inv_def getWellKnownPort_bound Let_def
      split: list.split sum.split option.split)

lemma parseHostAndPort_inv: "uri_inv u \<Longrightarrow> uri_inv (state_of (parseHostAndPort u it))"
  by (auto simp: parseHostAndPort_def parsePort_inv split: list.split prod.split)

lemma parseAuthority_inv: "uri_inv (fst x) \<Longrightarrow> uri_inv (fst (state_of (parseAuthority x)))"
proof -
  assume "uri_inv (fst x)"
  then have "uri_inv (state_of (and_then (parseHostAndPort (fst x) part) (\<lambda>u. Returns (u\<lparr>u_userInfo := ui\<rparr>))))"
    for part ui
    by (intro state_of_and_then [of uri_inv] parseHostAndPort_inv) (simp_all add: uri_inv_def)
  then show ?thesis by (cases x) (simp add: parseAuthority_def split: prod.splits)
qed

lemma parse_parts_inv:
  "uri_inv (fst x) \<Longrightarrow> uri_inv (fst (state_of (parsePath x)))"
  "uri_inv (fst x) \<Longrightarrow> uri_inv (fst (state_of (parseQuery x)))"
  "uri_inv (fst x) \<Longrightarrow> uri_inv (fst (state_of (parseFragment x)))"
  by (cases x, simp add: parsePath_def parseQuery_def parseFragment_def uri_inv_def split: prod.splits)+

lemma when_next_inv:
  "(\<And>x. uri_inv (fst x) \<Longrightarrow> uri_inv (fst (state_of (f x)))) \<Longrightarrow> uri_inv (fst x) \<Longrightarrow>
     uri_inv (fst (state_of (when_next c f x)))"
  by (auto simp: when_next_def split: list.split prod.split)

lemma parsePathEtc_inv: "uri_inv (fst x) \<Longrightarrow> uri_inv (fst (state_of (parsePathEtc x)))"
proof (cases "snd x = []")
  case False
  assume x: "uri_inv (fst x)"
  show ?thesis
    unfolding parsePathEtc_nonempty [OF False, of "fst x", simplified]
    by (intro state_of_and_then [where P = "\<lambda>y. uri_inv (fst y)"])
      (auto intro!: when_next_inv parse_parts_inv x)
qed (cases x, simp add: parsePathEtc_def)

lemma parse_inv:
  assumes "uri_inv u"
  shows "uri_inv (state_of (parse u s))"
proof -
  note i = parsePathEtc_inv state_of_and_then [where P = "\<lambda>y. uri_inv (fst y)"] parseAuthority_inv
    setScheme_inv assms
  show ?thesis
    by (auto simp: parse_def Let_def intro!: i split: list.split prod.split)
qed

lemma resolve_inv: "uri_inv u \<Longrightarrow> uri_inv r \<Longrightarrow> uri_inv (resolve u r)"
  by (simp add: resolve_def uri_inv_def removeDotSegments_fields mergePath_fields Let_def)

section \<open>Properties\<close>

text \<open>C7: a URI with an authority that keeps to the characters of its parts is read back from its
  printed form, every member unchanged.\<close>

theorem uri_parse_toString:
  assumes "printable u"
  shows "parse empty_uri (toString u) = Returns u"
  by (rule parse_toString [OF assms])

definition sample_uri :: uri where
  "sample_uri = \<lparr>u_scheme = ''http'', u_userInfo = ''me'', u_host = ''::1'', u_port = 8080,
     u_path = ''/a b?'', u_query = ''q=1&r'', u_fragment = ''top#''\<rparr>"

theorem uri_parse_toString_witness:
  "printable sample_uri \<and> parse empty_uri (toString sample_uri) = Returns sample_uri"
proof -
  have "toLowerStr ''http'' = ''http''" "toLowerStr ''::1'' = ''::1''" by code_simp+
  then have "printable sample_uri" by (simp add: printable_def sample_uri_def)
  then show ?thesis using uri_parse_toString by blast
qed

text \<open>C19: decoding undoes percent encoding, whatever characters are reserved; with \<open>plusAsSpace\<close> the plus
  sign must be reserved. So the encoder loses nothing.\<close>

theorem uri_decode_encode:
  assumes "plusAsSpace \<longrightarrow> CHR ''+'' \<in> set reserved"
  shows "decode (encode s reserved []) acc plusAsSpace = Returns (acc @ s)
    \<and> (encode s reserved [] = encode t reserved [] \<longleftrightarrow> s = t)"
  using decode_encode [of plusAsSpace reserved s acc] assms percent.enc_inject [where reserved = reserved and x = s and y = t] by simp

theorem uri_decode_encode_witness:
  "decode (encode ''a+b%'' ''+'' []) ''x'' True = Returns ''xa+b%''"
  using uri_decode_encode [of True "''+''" "''a+b%''" "''x''"] by simp

text \<open>the encoded text has visible ASCII characters only, none of the illegal ones but the percent
  sign, and a reserved one only when it is unreserved in the sense of RFC 3986.\<close>

theorem uri_encode_alphabet:
  assumes "x \<in> set (encode s reserved [])"
  shows "0x20 < schar x \<and> schar x < 0x7F \<and> (x = CHR ''%'' \<or> x \<notin> set ILLEGAL)
    \<and> (x = CHR ''%'' \<or> unreserved x \<or> x \<notin> set reserved)"
  by (rule encode_chars [OF assms])

theorem uri_encode_alphabet_witness:
  "CHR ''%'' \<in> set (encode ''a b'' [] []) \<and> 0x20 < schar (CHR ''%'') \<and> schar (CHR ''%'') < 0x7F"
proof -
  have "CHR ''%'' \<in> set (encode ''a b'' [] [])" by code_simp
  then show ?thesis using uri_encode_alphabet [of "CHR ''%''" "''a b''" "[]"] by simp
qed

text \<open>C31: \<open>decode\<close> accepts exactly the texts in which two hexadecimal digits follow every percent sign;
  otherwise it throws a \<open>SyntaxException\<close> and leaves what it had decoded behind the old text.\<close>

lemma decode_loop_throws:
  "decode_loop p q it acc = Throws e d \<Longrightarrow> (\<exists>m. e = SyntaxException m) \<and> prefix acc d"
proof (induction it arbitrary: q acc rule: well_escaped.induct)
  case (2 c s)
  show ?case
  proof (cases "c = CHR ''%''")
    case False
    have IH: "(\<exists>m. e = SyntaxException m) \<and> prefix acc d" if "decode_loop p q' s (acc @ x) = Throws e d" for q' x
      using 2(2) [OF False that] append_prefixD by blast
    then show ?thesis using 2(3) False by (cases p) (auto simp: Let_def split: if_splits)
  next
    case True
    show ?thesis
    proof (cases "\<exists>hi lo rest. s = hi # lo # rest")
      case more: True
      then obtain hi lo rest where s: "s = hi # lo # rest" by blast
      show ?thesis
      proof (cases "hex_value hi = None \<or> hex_value lo = None")
        case True
        then show ?thesis using 2(3) s \<open>c = CHR ''%''\<close> by (auto simp: Let_def split: option.splits)
      next
        case False
        have IH: "(\<exists>m. e = SyntaxException m) \<and> prefix acc d"
          if "decode_loop p q' rest (acc @ x) = Throws e d" for q' x
          using 2(1) [OF \<open>c = CHR ''%''\<close> s refl that] append_prefixD by blast
        then show ?thesis using 2(3) s \<open>c = CHR ''%''\<close> False by (auto simp: Let_def)
      qed
    next
      case False
      then show ?thesis using True 2(3) by (cases s; cases "tl s") (auto simp: Let_def)
    qed
  qed
qed simp




text \<open>C24: normalising a relative reference keeps its target: the segments before and after lead to the
  same directory from every starting point.\<close>

theorem uri_normalize_relative:
  assumes "isRelative u"
  shows "walk dir (getPathSegments (u_path (normalize u)) []) = walk dir (getPathSegments (u_path u) [])"
proof -
  let ?p = "getPathSegments (u_path u) []" and ?q = "getPathSegments (u_path (normalize u)) []"
  have drop: "walk dir segs = walk dir (filter (\<lambda>s. s \<noteq> dot) segs)" for segs
    by (induction segs arbitrary: dir) simp_all
  have "filter (\<lambda>s. s \<noteq> dot) ?q = norm_segments False (u_path u)"
    using removeDotSegments_segments [of u False] assms by (simp add: normalize_def)
  then have "walk dir ?q = walk dir (norm_segments False (u_path u))" using drop [of ?q] by simp
  also have "\<dots> = walk dir ?p"
    using uri_dots.walk_foldl [OF getPathSegments_nonempty, of False dir "[]"] by (simp add: norm_segments_def)
  finally show ?thesis .
qed

theorem uri_normalize_relative_witness:
  "walk [''x''] (getPathSegments (u_path (normalize (empty_uri\<lparr>u_path := ''a/../../b:c/./d''\<rparr>))) [])
     = walk [''x''] (getPathSegments ''a/../../b:c/./d'' [])"
  using uri_normalize_relative [of "empty_uri\<lparr>u_path := ''a/../../b:c/./d''\<rparr>" "[''x'']"]
  by (simp add: isRelative_def empty_uri_def)



text \<open>C25: the object invariant (the port fits in 16 bits, the scheme is in lower case) holds after
  every parse, a failed one included, and after resolving.\<close>

theorem uri_invariant:
  "uri_inv empty_uri
   \<and> (uri_inv u \<longrightarrow> uri_inv (state_of (parse u s)) \<and> uri_inv (state_of (assign_str u s))
        \<and> uri_inv (state_of (setAuthority u s)) \<and> uri_inv (state_of (setPathEtc u s))
        \<and> uri_inv (setScheme u s) \<and> uri_inv (normalize u) \<and> uri_inv (state_of (resolve_str u s)))"
proof -
  have e: "uri_inv empty_uri" by (simp add: uri_inv_def empty_uri_def toLowerStr_def)
  have "uri_inv (clear u)" by (simp add: uri_inv_def clear_def toLowerStr_def)
  moreover have "uri_inv (state_of (resolve_str u s))" if "uri_inv u"
    using that e parse_inv [OF e, of s] by (auto simp: resolve_str_def resolve_inv split: outcome.split)
  moreover have "uri_inv (normalize u)" if "uri_inv u"
    using that by (simp add: normalize_def uri_inv_def removeDotSegments_fields)
  moreover have "uri_inv (u\<lparr>u_userInfo := [], u_host := [], u_port := 0\<rparr>)"
      "uri_inv (u\<lparr>u_path := [], u_query := [], u_fragment := []\<rparr>)" if "uri_inv u"
    using that by (simp_all add: uri_inv_def)
  ultimately show ?thesis
    using e parseAuthority_inv parsePathEtc_inv
    by (auto simp: assign_str_def setAuthority_def setPathEtc_def parse_inv setScheme_inv)
qed

theorem uri_invariant_witness:
  "uri_inv (state_of (parse empty_uri ''HTTP://h:99999/''))"
  using uri_invariant [of empty_uri "''HTTP://h:99999/''"] by blast

text \<open>the constructors that take an authority never set \<open>_port\<close> when the authority is empty: the
  object keeps what the memory held.\<close>

theorem uri_port_uninitialised:
  "URI_parts port0 sch [] p q f =
     Returns \<lparr>u_scheme = toLowerStr sch, u_userInfo = [], u_host = [], u_port = port0, u_path = p,
               u_query = q, u_fragment = f\<rparr>"
  by (simp add: URI_parts_def parseAuthority_def parseHostAndPort_def empty_uri_def)

end
