(* ===== verification/StringTokenizer.thy ===== *)
theory StringTokenizer
  imports Strings
begin

text \<open>
  \<open>StringTokenizer\<close>: the constructor splits a string at separator characters, optionally
  trimming the tokens and dropping empty ones; the remaining operations search and edit
  the token vector. The object is its vector of tokens.
\<close>

unbundle bit_operations_syntax

type_synonym tokenizer = "string list"

definition TOK_IGNORE_EMPTY :: int where "TOK_IGNORE_EMPTY = 1"
definition TOK_TRIM :: int where "TOK_TRIM = 2"

section \<open>The code\<close>

text \<open>The private \<open>trim\<close>: count the blanks in front, and from the back unless all are blank.\<close>

definition trim_token :: "string \<Rightarrow> string" where
  "trim_token token =
     (let front = length (takeWhile space token);
          back = (if front < length token then length (takeWhile space (rev token)) else 0)
      in take (length token - back - front) (drop front token))"

text \<open>The loop over the string and the handling of the last token behind it.\<close>

fun tokenize_loop ::
  "string \<Rightarrow> bool \<Rightarrow> bool \<Rightarrow> string \<Rightarrow> string \<Rightarrow> bool \<Rightarrow> tokenizer \<Rightarrow> tokenizer" where
  "tokenize_loop separators doTrim ignoreEmpty [] token lastToken tokens =
     (if token \<noteq> [] then
        (let token = (if doTrim then trim_token token else token)
         in if token \<noteq> [] then tokens @ [token] else tokens)
      else if lastToken then tokens @ [[]]
      else tokens)"
| "tokenize_loop separators doTrim ignoreEmpty (c # it) token lastToken tokens =
     (if c \<in> set separators then
        (let token = (if doTrim then trim_token token else token);
             tokens = (if token \<noteq> [] \<or> \<not> ignoreEmpty then tokens @ [token] else tokens);
             lastToken = (if \<not> ignoreEmpty then True else lastToken)
         in tokenize_loop separators doTrim ignoreEmpty it [] lastToken tokens)
      else tokenize_loop separators doTrim ignoreEmpty it (token @ [c]) False tokens)"

definition tokenize :: "string \<Rightarrow> string \<Rightarrow> int \<Rightarrow> tokenizer" where
  "tokenize str separators options =
     (let doTrim = ((options AND TOK_TRIM) \<noteq> 0);
          ignoreEmpty = ((options AND TOK_IGNORE_EMPTY) \<noteq> 0)
      in tokenize_loop separators doTrim ignoreEmpty str [] False [])"

definition token_at :: "tokenizer \<Rightarrow> nat \<Rightarrow> exn + string" where
  "token_at tokens index = (if index \<ge> length tokens then Inl RangeException else Inr (tokens ! index))"

text \<open>\<open>std::find\<close> over the tokens from a position on: the index of the first equal token.\<close>

fun find_token :: "tokenizer \<Rightarrow> string \<Rightarrow> nat option" where
  "find_token [] token = None"
| "find_token (t # ts) token = (if t = token then Some 0 else map_option Suc (find_token ts token))"

function count_loop :: "tokenizer \<Rightarrow> string \<Rightarrow> nat" where
  "count_loop ts token =
     (case find_token ts token of
        None \<Rightarrow> 0
      | Some k \<Rightarrow> Suc (count_loop (drop (Suc k) ts) token))"
  by pat_completeness auto
termination
proof (relation "measure (\<lambda>(ts, token). length ts)")
  fix ts token k
  assume "find_token ts token = Some k"
  then show "((drop (Suc k) ts, token), ts, token) \<in> measure (\<lambda>(ts, token). length ts)"
    by (cases ts) auto
qed simp

definition count_token :: "tokenizer \<Rightarrow> string \<Rightarrow> nat" where
  "count_token tokens token = count_loop tokens token"

definition find_at :: "tokenizer \<Rightarrow> string \<Rightarrow> nat \<Rightarrow> exn + nat" where
  "find_at tokens token pos =
     (if pos > length tokens then Inl UndefinedBehaviour
      else case find_token (drop pos tokens) token of
             Some k \<Rightarrow> Inr (pos + k)
           | None \<Rightarrow> Inl (NotFoundException token))"

definition has_token :: "tokenizer \<Rightarrow> string \<Rightarrow> bool" where
  "has_token tokens token = (find_token tokens token \<noteq> None)"

fun replace_tokens :: "tokenizer \<Rightarrow> string \<Rightarrow> string \<Rightarrow> nat \<times> tokenizer" where
  "replace_tokens [] oldToken newToken = (0, [])"
| "replace_tokens (t # ts) oldToken newToken =
     (let (n, ts') = replace_tokens ts oldToken newToken
      in if t = oldToken then (Suc n, newToken # ts') else (n, t # ts'))"

definition replace_at :: "tokenizer \<Rightarrow> string \<Rightarrow> string \<Rightarrow> nat \<Rightarrow> exn + nat \<times> tokenizer" where
  "replace_at tokens oldToken newToken pos =
     (if pos > length tokens then Inl UndefinedBehaviour
      else let (n, ts) = replace_tokens (drop pos tokens) oldToken newToken
           in Inr (n, take pos tokens @ ts))"

section \<open>Reference and lemmas\<close>

text \<open>Cutting a string at every separator; there is always at least one piece.\<close>

fun pieces :: "(char \<Rightarrow> bool) \<Rightarrow> string \<Rightarrow> string list" where
  "pieces P [] = [[]]"
| "pieces P (c # s) =
     (if P c then [] # pieces P s else (c # hd (pieces P s)) # tl (pieces P s))"

lemma pieces_not_Nil [simp]: "pieces P s \<noteq> []"
  by (cases s) auto

definition join :: "char \<Rightarrow> string list \<Rightarrow> string" where
  "join sep ps = (case ps of [] \<Rightarrow> [] | p # ps \<Rightarrow> p @ concat (map (\<lambda>q. sep # q) ps))"

lemma join_simps [simp]:
  "join sep [] = []" "join sep [p] = p" "join sep (p # q # ps) = p @ sep # join sep (q # ps)"
  by (simp_all add: join_def)

lemma join_pieces: "join sep (pieces (\<lambda>c. c = sep) s) = s"
proof (induction s)
  case (Cons c s)
  obtain q qs where q: "pieces (\<lambda>c. c = sep) s = q # qs"
    by (cases "pieces (\<lambda>c. c = sep) s") auto
  with Cons show ?case by (cases qs) auto
qed simp

lemma pieces_no_sep: "p \<in> set (pieces P s) \<Longrightarrow> \<not> list_ex P p"
proof (induction s arbitrary: p)
  case (Cons c s)
  have "hd (pieces P s) \<in> set (pieces P s)" by simp
  with Cons show ?case by (auto split: if_splits dest: list.set_sel(2) [OF pieces_not_Nil])
qed simp

lemma trim_token_eq: "trim_token token = trim token"
proof (cases "list_all space token")
  case True
  then show ?thesis
    by (simp add: trim_token_def trim_eq Let_def)
next
  case False
  then have "\<exists>c \<in> set token. \<not> space c" by (auto simp: list_all_iff)
  then have lt: "length (takeWhile space token) < length token"
    by (metis length_takeWhile_le le_neq_implies_less takeWhile_eq_all_conv takeWhile_eq_take take_all order_refl)
  obtain c where c: "c \<in> set token" "\<not> space c" using False by (auto simp: list_all_iff)
  have d: "drop (length (takeWhile space token)) token = dropWhile space token"
    by (simp add: dropWhile_eq_drop)
  let ?u = "takeWhile space token" and ?v = "dropWhile space token"
  have "c \<in> set ?v"
    using c by (metis UnE set_append set_takeWhileD takeWhile_dropWhile_id)
  then have tw: "takeWhile space (rev token) = takeWhile space (rev ?v)"
    using c(2) takeWhile_append1 [of c "rev ?v" space "rev ?u"]
    by (metis rev_append set_rev takeWhile_dropWhile_id)
  have "length token = length ?u + length ?v"
    by (metis length_append takeWhile_dropWhile_id)
  then have "trim_token token = take (length ?v - length (takeWhile space (rev ?v))) ?v"
    using lt by (simp add: trim_token_def Let_def d tw)
  also have "\<dots> = rev (drop (length (takeWhile space (rev ?v))) (rev ?v))"
    by (simp add: rev_drop)
  also have "\<dots> = trim token"
    by (simp add: trim_eq dropWhile_eq_drop)
  finally show ?thesis .
qed

text \<open>What the constructor makes of the pieces: the last one is treated apart.\<close>

definition last_token :: "bool \<Rightarrow> string \<Rightarrow> bool \<Rightarrow> tokenizer" where
  "last_token doTrim l lastToken =
     (if l \<noteq> [] then
        (let t = (if doTrim then trim l else l) in if t \<noteq> [] then [t] else [])
      else if lastToken then [[]] else [])"

lemma tokenize_loop_pieces:
  fixes separators doTrim ignoreEmpty
  defines "P \<equiv> (\<lambda>c. c \<in> set separators)" and "f \<equiv> (\<lambda>t. if doTrim then trim t else t)"
  assumes "ignoreEmpty \<longrightarrow> \<not> lastToken"
  shows "tokenize_loop separators doTrim ignoreEmpty it token lastToken tokens =
    (let ps = (token @ hd (pieces P it)) # tl (pieces P it)
     in tokens @ filter (\<lambda>t. t \<noteq> [] \<or> \<not> ignoreEmpty) (map f (butlast ps))
          @ last_token doTrim (last ps) (if tl ps = [] then lastToken else \<not> ignoreEmpty))"
  using assms(3)
proof (induction it arbitrary: token lastToken tokens)
  case Nil
  then show ?case by (simp add: last_token_def trim_token_eq f_def Let_def)
next
  case (Cons c it)
  obtain q qs where q: "pieces P it = q # qs" by (cases "pieces P it") auto
  show ?case
  proof (cases "P c")
    case True
    define tokens' where
      "tokens' = (if f token \<noteq> [] \<or> \<not> ignoreEmpty then tokens @ [f token] else tokens)"
    have "tokenize_loop separators doTrim ignoreEmpty (c # it) token lastToken tokens
        = tokenize_loop separators doTrim ignoreEmpty it [] (\<not> ignoreEmpty) tokens'"
      using True Cons.prems
      by (cases ignoreEmpty) (auto simp: P_def f_def trim_token_eq tokens'_def Let_def)
    then show ?thesis
      using True by (simp add: Cons.IH q Let_def tokens'_def)
  next
    case False
    then have "tokenize_loop separators doTrim ignoreEmpty (c # it) token lastToken tokens
        = tokenize_loop separators doTrim ignoreEmpty it (token @ [c]) False tokens"
      by (simp add: P_def)
    then show ?thesis
      using False by (simp add: Cons.IH q Let_def last_token_def)
  qed
qed

lemma tokenize_pieces:
  "tokenize str separators options =
    (let ps = pieces (\<lambda>c. c \<in> set separators) str;
         doTrim = ((options AND TOK_TRIM) \<noteq> 0);
         ignoreEmpty = ((options AND TOK_IGNORE_EMPTY) \<noteq> 0)
     in filter (\<lambda>t. t \<noteq> [] \<or> \<not> ignoreEmpty)
          (map (\<lambda>t. if doTrim then trim t else t) (butlast ps))
        @ last_token doTrim (last ps) (tl ps \<noteq> [] \<and> \<not> ignoreEmpty))"
proof -
  obtain q qs where "pieces (\<lambda>c. c \<in> set separators) str = q # qs"
    by (cases "pieces (\<lambda>c. c \<in> set separators) str") auto
  then show ?thesis
    by (simp add: tokenize_def Let_def tokenize_loop_pieces)
qed

lemma tokenize_plain:
  assumes "str \<noteq> []"
  shows "tokenize str separators 0 = pieces (\<lambda>c. c \<in> set separators) str"
proof -
  let ?ps = "pieces (\<lambda>c. c \<in> set separators) str"
  have "tl ?ps = [] \<Longrightarrow> last ?ps \<noteq> []"
    using assms by (cases str) (auto split: if_splits)
  then have "last_token False (last ?ps) (tl ?ps \<noteq> []) = [last ?ps]"
    by (auto simp: last_token_def)
  then show ?thesis by (simp add: tokenize_pieces Let_def)
qed

lemma tokenize_ignore_empty_trim:
  "tokenize str separators (TOK_IGNORE_EMPTY + TOK_TRIM) =
     filter (\<lambda>t. t \<noteq> []) (map trim (pieces (\<lambda>c. c \<in> set separators) str))"
proof -
  let ?ps = "pieces (\<lambda>c. c \<in> set separators) str"
  have "?ps = butlast ?ps @ [last ?ps]" by simp
  then have "map trim ?ps = map trim (butlast ?ps) @ [trim (last ?ps)]"
    by (metis list.simps(8) list.simps(9) map_append)
  moreover have "trim [] = []" by (simp add: trim_eq)
  ultimately show ?thesis
    by (simp add: tokenize_pieces TOK_TRIM_def TOK_IGNORE_EMPTY_def last_token_def Let_def)
qed

lemma find_token_None: "find_token ts token = None \<longleftrightarrow> token \<notin> set ts"
  by (induction ts) auto

lemma find_token_Some:
  "find_token ts token = Some k \<Longrightarrow> k < length ts \<and> ts ! k = token \<and> token \<notin> set (take k ts)"
  by (induction ts arbitrary: k) (auto split: if_splits)

declare count_loop.simps [simp del]

lemma count_loop_eq: "count_loop ts token = count_list ts token"
proof (induction ts token rule: count_loop.induct)
  case (1 ts token)
  show ?case
  proof (cases "find_token ts token")
    case None
    then have "token \<notin> set ts" by (simp add: find_token_None)
    with None show ?thesis
      by (subst count_loop.simps) (simp add: count_notin)
  next
    case (Some k)
    note k = find_token_Some [OF Some]
    then have "ts = take k ts @ token # drop (Suc k) ts"
      by (metis id_take_nth_drop)
    then have "count_list ts token = count_list (take k ts) token + Suc (count_list (drop (Suc k) ts) token)"
      by (metis count_list_append count_list.simps(2) add.commute plus_1_eq_Suc)
    then show ?thesis using 1 Some k
      by (subst count_loop.simps) (simp add: count_notin)
  qed
qed

lemma replace_tokens_eq:
  "replace_tokens ts old new = (count_list ts old, map (\<lambda>t. if t = old then new else t) ts)"
  by (induction ts) auto

section \<open>Properties\<close>

text \<open>C29: without options the tokens are the pieces between the separators: none of them contains
  the separator, and joined by it they give the string back.\<close>

theorem tokenize_join:
  assumes "str \<noteq> []"
  shows "join sep (tokenize str [sep] 0) = str \<and> (\<forall>t. t \<in> set (tokenize str [sep] 0) \<longrightarrow> sep \<notin> set t)"
proof -
  have t: "tokenize str [sep] 0 = pieces (\<lambda>c. c = sep) str"
    using tokenize_plain [OF assms, of "[sep]"] by simp
  then show ?thesis
    using join_pieces [of sep str] pieces_no_sep [of _ "\<lambda>c. c = sep" str] by (auto simp: list_ex_iff)
qed

theorem tokenize_join_witness:
  "join (CHR ''/'') (tokenize ''/usr//bin'' ''/'' 0) = ''/usr//bin''"
  using tokenize_join [of "''/usr//bin''" "CHR ''/''"] by simp

text \<open>with both options the tokens are the trimmed pieces that are not blank, in their order.\<close>

theorem tokenize_clean:
  "tokenize str separators (TOK_IGNORE_EMPTY + TOK_TRIM) =
     filter (\<lambda>t. t \<noteq> []) (map trim (pieces (\<lambda>c. c \<in> set separators) str))"
  by (rule tokenize_ignore_empty_trim)

lemma pieces_snoc:
  "\<not> list_ex P b \<Longrightarrow> P c \<Longrightarrow> pieces P (a @ c # b) = pieces P a @ [b]"
proof (induction a)
  case Nil
  have "pieces P b = [b]" using Nil.prems(1) by (induction b) auto
  then show ?case using Nil.prems(2) by simp
next
  case (Cons x a)
  then show ?case by (cases "pieces P a") auto
qed

text \<open>with \<open>TOK_TRIM\<close> alone a last piece of white space is dropped, whereas an empty last piece
  gives an empty token: the token count depends on blanks behind the last separator.\<close>

theorem tokenize_trim_blank_last:
  assumes "blank \<noteq> []" "trim blank = []" "sep \<notin> set blank"
  shows "tokenize (str @ sep # blank) [sep] TOK_TRIM = map trim (pieces (\<lambda>c. c = sep) str)
    \<and> tokenize (str @ [sep]) [sep] TOK_TRIM = map trim (pieces (\<lambda>c. c = sep) str) @ [[]]"
proof -
  have "pieces (\<lambda>c. c = sep) (str @ sep # b) = pieces (\<lambda>c. c = sep) str @ [b]" if "sep \<notin> set b" for b
    using that by (intro pieces_snoc) (auto simp: list_ex_iff)
  then show ?thesis
    using assms unfolding tokenize_pieces by (simp add: last_token_def TOK_TRIM_def TOK_IGNORE_EMPTY_def Let_def)
qed

theorem tokenize_trim_blank_last_witness:
  "tokenize ''a, '' '','' TOK_TRIM = [''a''] \<and> tokenize ''a,'' '','' TOK_TRIM = [''a'', '''']"
proof -
  have "trim '' '' = []" "map trim (pieces (\<lambda>c. c = CHR '','') ''a'') = [''a'']" by code_simp+
  then show ?thesis using tokenize_trim_blank_last [of "'' ''" "CHR '',''" "''a''"] by simp
qed

text \<open>\<open>replace\<close> changes exactly the tokens from the position on that are equal to the old one and
  gives their number, which \<open>count\<close> gives too; \<open>find\<close> gives the first position of a token, or throws.\<close>

theorem tokenizer_replace_find:
  assumes "pos \<le> length ts"
  shows "replace_at ts old new pos =
      Inr (count_token (drop pos ts) old, take pos ts @ map (\<lambda>t. if t = old then new else t) (drop pos ts))
    \<and> (case find_at ts tok pos of
         Inr k \<Rightarrow> pos \<le> k \<and> k < length ts \<and> ts ! k = tok \<and> tok \<notin> set (take (k - pos) (drop pos ts))
       | Inl e \<Rightarrow> e = NotFoundException tok \<and> tok \<notin> set (drop pos ts))"
proof -
  have "case find_at ts tok pos of
         Inr k \<Rightarrow> pos \<le> k \<and> k < length ts \<and> ts ! k = tok \<and> tok \<notin> set (take (k - pos) (drop pos ts))
       | Inl e \<Rightarrow> e = NotFoundException tok \<and> tok \<notin> set (drop pos ts)"
  proof (cases "find_token (drop pos ts) tok")
    case None
    then have "tok \<notin> set (drop pos ts)" by (simp add: find_token_None)
    then show ?thesis using None assms by (simp add: find_at_def)
  next
    case (Some k)
    then show ?thesis using assms find_token_Some [OF Some] by (auto simp: find_at_def)
  qed
  then show ?thesis using assms
    by (simp add: replace_at_def replace_tokens_eq count_token_def count_loop_eq)
qed

theorem tokenizer_replace_find_witness:
  "replace_at [''a'', ''b'', ''a''] ''a'' ''c'' 1 = Inr (1, [''a'', ''b'', ''c''])"
proof -
  have "count_token [''b'', ''a''] ''a'' = 1" by code_simp
  then show ?thesis using tokenizer_replace_find [of 1 "[''a'', ''b'', ''a'']" "''a''" "''c''"] by simp
qed

end
