(* ===== verification/Path.thy ===== *)
theory Path
  imports Dot_Segments NumericString StringTokenizer
begin

text \<open>
  \<open>Poco::Path\<close>: a path as node, device, directories, file name and version; its Unix, Windows and
  VMS notations, and the operations that change it. What the operating system tells (the
  home directory, the working directory, the environment, whether a file exists) is a
  parameter of the definitions that ask for it.
\<close>

section \<open>State\<close>

record path =
  p_node :: string
  p_device :: string
  p_name :: string
  p_version :: string
  p_dirs :: "string list"
  p_absolute :: bool

datatype Style = PATH_UNIX | PATH_WINDOWS | PATH_VMS | PATH_NATIVE | PATH_GUESS

definition clear :: "path \<Rightarrow> path" where
  "clear p = p\<lparr>p_node := [], p_device := [], p_name := [], p_dirs := [], p_version := [],
     p_absolute := False\<rparr>"

definition empty_path :: path where
  "empty_path = \<lparr>p_node = [], p_device = [], p_name = [], p_version = [], p_dirs = [],
     p_absolute = False\<rparr>"

definition Path_bool :: "bool \<Rightarrow> path" where
  "Path_bool a = empty_path\<lparr>p_absolute := a\<rparr>"

definition isAbsolute :: "path \<Rightarrow> bool" where "isAbsolute p \<longleftrightarrow> p_absolute p"
definition isDirectory :: "path \<Rightarrow> bool" where "isDirectory p \<longleftrightarrow> p_name p = []"
definition isFile :: "path \<Rightarrow> bool" where "isFile p \<longleftrightarrow> p_name p \<noteq> []"
definition depth :: "path \<Rightarrow> nat" where "depth p = length (p_dirs p)"

section \<open>Directories\<close>

definition pushDirectory :: "path \<Rightarrow> string \<Rightarrow> path" where
  "pushDirectory p dir =
     (if dir \<noteq> [] \<and> dir \<noteq> ''.'' then
        (if dir = ''..'' then
           (if p_dirs p \<noteq> [] \<and> last (p_dirs p) \<noteq> ''..'' then p\<lparr>p_dirs := butlast (p_dirs p)\<rparr>
            else if \<not> p_absolute p then p\<lparr>p_dirs := p_dirs p @ [dir]\<rparr>
            else p)
         else p\<lparr>p_dirs := p_dirs p @ [dir]\<rparr>)
      else p)"

definition popDirectory :: "path \<Rightarrow> path outcome" where
  "popDirectory p =
     (if p_dirs p = [] then Throws AssertionViolation p
      else Returns (p\<lparr>p_dirs := butlast (p_dirs p)\<rparr>))"

definition popFrontDirectory :: "path \<Rightarrow> path outcome" where
  "popFrontDirectory p =
     (if p_dirs p = [] then Throws AssertionViolation p
      else Returns (p\<lparr>p_dirs := tl (p_dirs p)\<rparr>))"

definition directory :: "path \<Rightarrow> int \<Rightarrow> exn + string" where
  "directory p n =
     (if 0 \<le> n \<and> nat n \<le> length (p_dirs p) then
        (if nat n < length (p_dirs p) then Inr (p_dirs p ! nat n) else Inr (p_name p))
      else Inl AssertionViolation)"

definition makeDirectory :: "path \<Rightarrow> path" where
  "makeDirectory p = (pushDirectory p (p_name p))\<lparr>p_name := [], p_version := []\<rparr>"

definition makeFile :: "path \<Rightarrow> path" where
  "makeFile p =
     (if p_dirs p \<noteq> [] \<and> p_name p = []
      then p\<lparr>p_name := last (p_dirs p), p_dirs := butlast (p_dirs p)\<rparr> else p)"

definition makeParent :: "path \<Rightarrow> path" where
  "makeParent p =
     (if p_name p = [] then
        (if p_dirs p = [] then
           (if \<not> p_absolute p then p\<lparr>p_dirs := p_dirs p @ [''..'']\<rparr> else p)
         else if last (p_dirs p) = ''..'' then p\<lparr>p_dirs := p_dirs p @ [''..'']\<rparr>
         else p\<lparr>p_dirs := butlast (p_dirs p)\<rparr>)
      else p\<lparr>p_name := [], p_version := []\<rparr>)"

definition parent :: "path \<Rightarrow> path" where
  "parent p = makeParent p"

definition makeAbsolute :: "path \<Rightarrow> path \<Rightarrow> path" where
  "makeAbsolute p base =
     (if \<not> p_absolute p then
        let tmp = foldl pushDirectory (makeDirectory base) (p_dirs p)
        in p\<lparr>p_node := p_node tmp, p_device := p_device tmp, p_dirs := p_dirs tmp,
             p_absolute := p_absolute base\<rparr>
      else p)"

definition absolute :: "path \<Rightarrow> path \<Rightarrow> path" where
  "absolute p base = (if \<not> p_absolute p then makeAbsolute p base else p)"

definition append_path :: "path \<Rightarrow> path \<Rightarrow> path" where
  "append_path p q =
     (let p = makeDirectory p
      in p\<lparr>p_dirs := p_dirs p @ p_dirs q, p_name := p_name q, p_version := p_version q\<rparr>)"

definition resolve :: "path \<Rightarrow> path \<Rightarrow> path" where
  "resolve p q =
     (if isAbsolute q then q
      else (foldl pushDirectory p (p_dirs q))\<lparr>p_name := p_name q\<rparr>)"

definition Path_parent_fileName :: "path \<Rightarrow> string \<Rightarrow> path" where
  "Path_parent_fileName par fileName = (makeDirectory par)\<lparr>p_name := fileName\<rparr>"

definition Path_parent_relative :: "path \<Rightarrow> path \<Rightarrow> path" where
  "Path_parent_relative par relative = resolve par relative"

section \<open>Node, device and file name\<close>

definition setNode :: "path \<Rightarrow> string \<Rightarrow> path" where
  "setNode p node = p\<lparr>p_node := node, p_absolute := p_absolute p \<or> node \<noteq> []\<rparr>"

definition setDevice :: "path \<Rightarrow> string \<Rightarrow> path" where
  "setDevice p device = p\<lparr>p_device := device, p_absolute := p_absolute p \<or> device \<noteq> []\<rparr>"

definition setFileName :: "path \<Rightarrow> string \<Rightarrow> path" where
  "setFileName p name = p\<lparr>p_name := name\<rparr>"

text \<open>\<open>std::string::rfind\<close> for a character.\<close>

fun rfind_char :: "char \<Rightarrow> string \<Rightarrow> nat option" where
  "rfind_char x [] = None"
| "rfind_char x (c # s) =
     (case rfind_char x s of Some n \<Rightarrow> Some (Suc n) | None \<Rightarrow> if c = x then Some 0 else None)"

definition getBaseName :: "path \<Rightarrow> string" where
  "getBaseName p =
     (case rfind_char (CHR ''.'') (p_name p) of Some pos \<Rightarrow> take pos (p_name p) | None \<Rightarrow> p_name p)"

definition getExtension :: "path \<Rightarrow> string" where
  "getExtension p =
     (case rfind_char (CHR ''.'') (p_name p) of Some pos \<Rightarrow> drop (pos + 1) (p_name p) | None \<Rightarrow> [])"

definition setBaseName :: "path \<Rightarrow> string \<Rightarrow> path" where
  "setBaseName p name =
     (let ext = getExtension p
      in p\<lparr>p_name := (if ext \<noteq> [] then name @ ''.'' @ ext else name)\<rparr>)"

definition setExtension :: "path \<Rightarrow> string \<Rightarrow> path" where
  "setExtension p extension =
     p\<lparr>p_name := (if extension \<noteq> [] then getBaseName p @ ''.'' @ extension else getBaseName p)\<rparr>"

section \<open>Unix notation\<close>

definition unix_dir :: "path \<Rightarrow> string \<Rightarrow> path" where
  "unix_dir p name =
     (if p_dirs p = [] then
        (if name \<noteq> [] \<and> last name = CHR '':'' then p\<lparr>p_absolute := True, p_device := butlast name\<rparr>
         else pushDirectory p name)
      else pushDirectory p name)"

function (sequential) unix_loop :: "path \<Rightarrow> string \<Rightarrow> path" where
  "unix_loop p [] = p"
| "unix_loop p it =
     (case scan (\<lambda>c. c \<noteq> CHR ''/'') it of
        (name, []) \<Rightarrow> p\<lparr>p_name := name\<rparr>
      | (name, _ # it) \<Rightarrow> unix_loop (unix_dir p name) it)"
  by pat_completeness auto
termination
  by (relation "measure (\<lambda>(p, it). length it)") (auto dest: scan_shorter [OF sym])

text \<open>\<open>Path cwd(home())\<close> is \<open>cwd\<close> here: parsing a path that starts with a tilde parses the home
  directory, and runs until the stack is full when the home directory starts with one too.\<close>

definition tilde_start :: "string \<Rightarrow> bool" where
  "tilde_start s \<longleftrightarrow> (case s of c # it \<Rightarrow> c = CHR ''~'' \<and> (it = [] \<or> hd it = CHR ''/'') | [] \<Rightarrow> False)"

definition parseUnix_from :: "path outcome \<Rightarrow> path \<Rightarrow> string \<Rightarrow> path outcome" where
  "parseUnix_from cwd p s =
     (let p = clear p
      in case s of
           [] \<Rightarrow> Returns p
         | c # it \<Rightarrow>
             if c = CHR ''/'' then Returns (unix_loop (p\<lparr>p_absolute := True\<rparr>) it)
             else if tilde_start s then
               (case cwd of
                  Returns q \<Rightarrow> Returns (unix_loop (p\<lparr>p_dirs := p_dirs q, p_absolute := True\<rparr>) it)
                | Throws e _ \<Rightarrow> Throws e p)
             else Returns (unix_loop p s))"

definition parseUnix :: "exn + string \<Rightarrow> path \<Rightarrow> string \<Rightarrow> path outcome" where
  "parseUnix home p s = parseUnix_from
     (case home of
        Inl e \<Rightarrow> Throws e empty_path
      | Inr h \<Rightarrow> if tilde_start h then Throws StackOverflow empty_path
                else parseUnix_from (Throws StackOverflow empty_path) empty_path h)
     p s"

definition buildUnix :: "path \<Rightarrow> string" where
  "buildUnix p =
     (if p_device p \<noteq> [] then ''/'' @ p_device p @ '':/''
      else if p_absolute p then ''/''
      else [])
     @ concat (map (\<lambda>d. d @ ''/'') (p_dirs p)) @ p_name p"

section \<open>Windows notation\<close>

definition win_sep :: "char \<Rightarrow> bool" where
  "win_sep c \<longleftrightarrow> c = CHR 0x5C \<or> c = CHR ''/''"

function (sequential) windows_loop :: "path \<Rightarrow> string \<Rightarrow> path" where
  "windows_loop p [] = p"
| "windows_loop p it =
     (case scan (\<lambda>c. \<not> win_sep c) it of
        (name, []) \<Rightarrow> p\<lparr>p_name := name\<rparr>
      | (name, _ # it) \<Rightarrow> windows_loop (pushDirectory p name) it)"
  by pat_completeness auto
termination
  by (relation "measure (\<lambda>(p, it). length it)") (auto dest: scan_shorter [OF sym])

definition drive_letter :: "char \<Rightarrow> bool" where
  "drive_letter d \<longleftrightarrow> between (CHR ''a'') (CHR ''z'') d \<or> between (CHR ''A'') (CHR ''Z'') d"

text \<open>The node of a UNC path or the drive, in front of the directories.\<close>

definition windows_root :: "path \<Rightarrow> string \<Rightarrow> string \<Rightarrow> (path \<times> string) outcome" where
  "windows_root p s it =
     (case it of
        [] \<Rightarrow> Returns (p, it)
      | d # rest \<Rightarrow>
          if p_absolute p \<and> win_sep d then
            (case scan (\<lambda>c. \<not> win_sep c) rest of
               (node, it) \<Rightarrow> Returns (p\<lparr>p_node := p_node p @ node\<rparr>, drop 1 it))
          else
            (case rest of
               c # rest \<Rightarrow>
                 if c = CHR '':'' then
                   (if p_absolute p \<or> \<not> drive_letter d then Throws (PathSyntaxException s) (p, rest)
                    else let p = p\<lparr>p_absolute := True, p_device := p_device p @ [d]\<rparr>
                         in if rest = [] \<or> \<not> win_sep (hd rest) then Throws (PathSyntaxException s) (p, rest)
                            else Returns (p, tl rest))
                 else Returns (p, it)
             | [] \<Rightarrow> Returns (p, it)))"

definition parseWindows :: "path \<Rightarrow> string \<Rightarrow> path outcome" where
  "parseWindows p s =
     (let p = clear p;
          (p, it) = (case s of
                       [] \<Rightarrow> (p, s)
                     | c # it \<Rightarrow> if win_sep c then (p\<lparr>p_absolute := True\<rparr>, it) else (p, s))
      in map_outcome_state fst
           (and_then (windows_root p s it) (\<lambda>(p, it).
              let p = windows_loop p it
              in Returns (if p_node p \<noteq> [] \<and> p_dirs p = [] \<and> p_name p \<noteq> [] then makeDirectory p else p, []))))"

definition buildWindows :: "path \<Rightarrow> string" where
  "buildWindows p =
     (if p_node p \<noteq> [] then [CHR 0x5C, CHR 0x5C] @ p_node p @ [CHR 0x5C]
      else if p_device p \<noteq> [] then p_device p @ [CHR '':'', CHR 0x5C]
      else if p_absolute p then [CHR 0x5C]
      else [])
     @ concat (map (\<lambda>d. d @ [CHR 0x5C]) (p_dirs p)) @ p_name p"

section \<open>VMS notation\<close>

text \<open>What a hyphen does to the directories: in the first pair of brackets and in the second, where
  the directories of the first pair are kept.\<close>

definition vms_up :: "nat option \<Rightarrow> string list \<Rightarrow> string list" where
  "vms_up d dirs =
     (case d of
        None \<Rightarrow> if dirs = [] \<or> last dirs = ''..'' then dirs @ [''..''] else butlast dirs
      | Some n \<Rightarrow> if length dirs > n then butlast dirs else dirs)"

definition vms_name :: "string \<Rightarrow> string \<times> string" where
  "vms_name it =
     (if it \<noteq> [] \<and> hd it = CHR ''-'' then (''-'', it)
      else scan (\<lambda>c. c \<noteq> CHR ''.'' \<and> c \<noteq> CHR '']'') it)"

definition vms_skip :: "string \<Rightarrow> string" where
  "vms_skip it = (if it \<noteq> [] \<and> hd it \<noteq> CHR '']'' then tl it else it)"

lemma vms_skip_shorter:
  "c \<noteq> CHR '']'' \<Longrightarrow> vms_name (c # cs) = (name, it) \<Longrightarrow> length (vms_skip it) < Suc (length cs)"
  using length_dropWhile_le [of "\<lambda>c. c \<noteq> CHR ''.'' \<and> c \<noteq> CHR '']''" cs]
  by (auto simp: vms_name_def vms_skip_def scan_def split: if_splits)

function (sequential) vms_loop :: "nat option \<Rightarrow> string list \<Rightarrow> string \<Rightarrow> string list \<times> string" where
  "vms_loop d dirs [] = (dirs, [])"
| "vms_loop d dirs (c # cs) =
     (if c = CHR '']'' then (dirs, c # cs)
      else (case vms_name (c # cs) of (name, it) \<Rightarrow>
        vms_loop d
          (if name \<noteq> [] then (if name = ''-'' then vms_up d dirs else dirs @ [name]) else dirs)
          (vms_skip it)))"
  by pat_completeness auto
termination
  by (relation "measure (\<lambda>(d, dirs, it). length it)") (auto simp: vms_skip_shorter [OF _ sym])

text \<open>From behind the first opening bracket to behind the last closing one.\<close>

definition vms_brackets :: "path \<Rightarrow> string \<Rightarrow> string \<Rightarrow> (path \<times> string) outcome" where
  "vms_brackets p s it =
     (if it = [] then Returns (p, it)
      else let p = p\<lparr>p_absolute := hd it \<noteq> CHR ''.'' \<and> hd it \<noteq> CHR '']'' \<and> hd it \<noteq> CHR ''-''\<rparr>;
               it = (if hd it = CHR ''.'' then tl it else it);
               (dirs, it) = vms_loop None (p_dirs p) it;
               p = p\<lparr>p_dirs := dirs\<rparr>
           in if it = [] then Throws (PathSyntaxException s) (p, it)
              else let it = tl it
                   in if it \<noteq> [] \<and> hd it = CHR ''['' then
                        (let it = tl it
                         in if \<not> p_absolute p then Throws (PathSyntaxException s) (p, it)
                            else if it \<noteq> [] \<and> hd it = CHR ''.'' then Throws (PathSyntaxException s) (p, it)
                            else let (dirs, it) = vms_loop (Some (length (p_dirs p))) (p_dirs p) it;
                                     p = p\<lparr>p_dirs := dirs\<rparr>
                                 in if it = [] then Throws (PathSyntaxException s) (p, it)
                                    else Returns (p, tl it))
                      else Returns (p, it))"

text \<open>The node and the device: the path, the name read so far and the rest of the input.\<close>

definition vms_node :: "path \<Rightarrow> string \<Rightarrow> string \<Rightarrow> path \<times> string \<times> string" where
  "vms_node p name it =
     (if hd it = CHR '':'' then
        (let it = tl it
         in if it \<noteq> [] \<and> hd it = CHR '':''
            then (p\<lparr>p_node := name, p_absolute := True\<rparr>, [], tl it)
            else (p\<lparr>p_device := name, p_absolute := True\<rparr>, [], it))
      else (p, name, it))"

definition vms_device :: "path \<Rightarrow> string \<Rightarrow> string \<Rightarrow> path \<times> string \<times> string" where
  "vms_device p name it =
     (if it \<noteq> [] \<and> p_device p = [] \<and> hd it \<noteq> CHR ''['' then
        (case scan (\<lambda>c. c \<noteq> CHR '':'' \<and> c \<noteq> CHR '';'') it of (rest_name, it) \<Rightarrow>
           if it \<noteq> [] \<and> hd it = CHR '':''
           then (p\<lparr>p_device := name @ rest_name, p_absolute := True\<rparr>, [], tl it)
           else (p, name @ rest_name, it))
      else (p, name, it))"

text \<open>The directories, the file name and the version, once the node and the device are read.\<close>

definition vms_finish :: "string \<Rightarrow> path \<Rightarrow> string \<Rightarrow> string \<Rightarrow> path outcome" where
  "vms_finish s p name it = map_outcome_state fst
     (and_then
        (if name = [] then
           and_then
             (if it \<noteq> [] \<and> hd it = CHR ''['' then vms_brackets p s (tl it) else Returns (p, it))
             (\<lambda>(p, it). case scan (\<lambda>c. c \<noteq> CHR '';'') it of (n, it) \<Rightarrow>
                Returns (p\<lparr>p_name := p_name p @ n\<rparr>, it))
         else Returns (p\<lparr>p_name := name\<rparr>, it))
        (\<lambda>(p, it). if it \<noteq> [] \<and> hd it = CHR '';''
           then Returns (p\<lparr>p_version := p_version p @ tl it\<rparr>, []) else Returns (p, it)))"

definition parseVMS :: "path \<Rightarrow> string \<Rightarrow> path outcome" where
  "parseVMS p s =
     (let p = clear p
      in if s = [] then Returns p
         else case scan (\<lambda>c. c \<noteq> CHR '':'' \<and> c \<noteq> CHR ''['' \<and> c \<noteq> CHR '';'') s of (name, it) \<Rightarrow>
           if it = [] then Returns (p\<lparr>p_name := name\<rparr>)
           else case vms_node p name it of (p, name, it) \<Rightarrow>
             case vms_device p name it of (p, name, it) \<Rightarrow> vms_finish s p name it)"

fun vms_rest :: "string list \<Rightarrow> string" where
  "vms_rest [] = []"
| "vms_rest (d # ds) = (if d = ''..'' then ''-'' else CHR ''.'' # d) @ vms_rest ds"

definition buildVMS :: "path \<Rightarrow> string" where
  "buildVMS p =
     (if p_node p \<noteq> [] then p_node p @ ''::'' else [])
     @ (if p_device p \<noteq> [] then p_device p @ '':'' else [])
     @ (case p_dirs p of
          [] \<Rightarrow> []
        | d # ds \<Rightarrow> ''['' @ (if \<not> p_absolute p \<and> d \<noteq> ''..'' then ''.'' else [])
            @ (if d = ''..'' then ''-'' else d) @ vms_rest ds @ '']'')
     @ p_name p
     @ (if p_version p \<noteq> [] then CHR '';'' # p_version p else [])"

section \<open>Guessing the notation\<close>

record guess =
  hasBackslash :: bool
  hasSlash :: bool
  hasOpenBracket :: bool
  hasClosBracket :: bool
  semiIt :: "string option"

text \<open>The \<open>switch\<close> of the scan: the cases for the brackets fall through to the next ones.
  \<open>semiIt\<close> is the input behind the character it points to.\<close>

fun guess_loop :: "guess \<Rightarrow> string \<Rightarrow> guess" where
  "guess_loop g [] = g"
| "guess_loop g (c # it) = guess_loop
     (if c = CHR 0x5C then g\<lparr>hasBackslash := True\<rparr>
      else if c = CHR ''/'' then g\<lparr>hasSlash := True\<rparr>
      else if c = CHR ''['' then g\<lparr>hasOpenBracket := True, hasClosBracket := True, semiIt := Some it\<rparr>
      else if c = CHR '']'' then g\<lparr>hasClosBracket := hasOpenBracket g, semiIt := Some it\<rparr>
      else if c = CHR '';'' then g\<lparr>semiIt := Some it\<rparr>
      else g) it"

definition guess_windows :: "string \<Rightarrow> bool" where
  "guess_windows s \<longleftrightarrow> length s > 2 \<and> s ! 1 = CHR '':'' \<and> (s ! 2 = CHR ''/'' \<or> s ! 2 = CHR 0x5C)"

definition parseGuess :: "exn + string \<Rightarrow> path \<Rightarrow> string \<Rightarrow> path outcome" where
  "parseGuess home p s =
     (let g = \<lparr>hasBackslash = False, hasSlash = False, hasOpenBracket = False, hasClosBracket = False,
               semiIt = None\<rparr>;
          g = (if \<not> guess_windows s then guess_loop g s else g)
      in if hasBackslash g \<or> guess_windows s then parseWindows p s
         else if hasSlash g then parseUnix home p s
         else let isVMS = (if hasClosBracket g then True
                           else case semiIt g of
                                  None \<Rightarrow> False
                                | Some it \<Rightarrow> list_all (between (CHR ''0'') (CHR ''9'')) it)
              in if isVMS then parseVMS p s else parseUnix home p s)"

section \<open>Assigning and printing\<close>

definition assign_style :: "exn + string \<Rightarrow> path \<Rightarrow> string \<Rightarrow> Style \<Rightarrow> path outcome" where
  "assign_style home p s style =
     (case style of
        PATH_UNIX \<Rightarrow> parseUnix home p s
      | PATH_WINDOWS \<Rightarrow> parseWindows p s
      | PATH_VMS \<Rightarrow> parseVMS p s
      | PATH_NATIVE \<Rightarrow> parseUnix home p s
      | PATH_GUESS \<Rightarrow> parseGuess home p s)"

definition assign :: "exn + string \<Rightarrow> path \<Rightarrow> string \<Rightarrow> path outcome" where
  "assign home p s = parseUnix home p s"

definition toString :: "path \<Rightarrow> string" where
  "toString p = buildUnix p"

definition toString_style :: "path \<Rightarrow> Style \<Rightarrow> string" where
  "toString_style p style =
     (case style of
        PATH_UNIX \<Rightarrow> buildUnix p
      | PATH_WINDOWS \<Rightarrow> buildWindows p
      | PATH_VMS \<Rightarrow> buildVMS p
      | _ \<Rightarrow> toString p)"

definition parse :: "exn + string \<Rightarrow> path \<Rightarrow> string \<Rightarrow> path outcome" where
  "parse home p s = assign home p s"

definition parse_style :: "exn + string \<Rightarrow> path \<Rightarrow> string \<Rightarrow> Style \<Rightarrow> path outcome" where
  "parse_style home p s style = assign_style home p s style"

text \<open>\<open>catch (...)\<close> takes every exception; running out of stack is none.\<close>

definition catch_all :: "path \<Rightarrow> path outcome \<Rightarrow> (path \<times> bool) outcome" where
  "catch_all p m =
     (case m of
        Returns q \<Rightarrow> Returns (q, True)
      | Throws e _ \<Rightarrow> if e = StackOverflow then Throws e (p, False) else Returns (p, False))"

definition tryParse :: "exn + string \<Rightarrow> path \<Rightarrow> string \<Rightarrow> (path \<times> bool) outcome" where
  "tryParse home p s = catch_all p (parse home empty_path s)"

definition tryParse_style :: "exn + string \<Rightarrow> path \<Rightarrow> string \<Rightarrow> Style \<Rightarrow> (path \<times> bool) outcome" where
  "tryParse_style home p s style = catch_all p (parse_style home empty_path s style)"

definition parseDirectory :: "exn + string \<Rightarrow> path \<Rightarrow> string \<Rightarrow> path outcome" where
  "parseDirectory home p s = and_then (assign home p s) (\<lambda>p. Returns (makeDirectory p))"

definition parseDirectory_style :: "exn + string \<Rightarrow> path \<Rightarrow> string \<Rightarrow> Style \<Rightarrow> path outcome" where
  "parseDirectory_style home p s style =
     and_then (assign_style home p s style) (\<lambda>p. Returns (makeDirectory p))"

definition forDirectory :: "exn + string \<Rightarrow> string \<Rightarrow> path outcome" where
  "forDirectory home s = parseDirectory home empty_path s"

section \<open>The system\<close>

definition with_slash :: "string \<Rightarrow> string" where
  "with_slash s = (if s \<noteq> [] \<and> last s \<noteq> CHR ''/'' then s @ ''/'' else s)"

definition currentImpl :: "string option \<Rightarrow> exn + string" where
  "currentImpl getcwd =
     (case getcwd of Some cwd \<Rightarrow> Inr (with_slash cwd)
      | None \<Rightarrow> Inl (SystemException ''cannot get current directory''))"

definition homeImpl :: "string option \<Rightarrow> string option \<Rightarrow> (string \<Rightarrow> string option) \<Rightarrow> exn + string" where
  "homeImpl pwd_uid pwd_euid getenv =
     (case pwd_uid of
        Some dir \<Rightarrow> Inr (with_slash dir)
      | None \<Rightarrow>
          (case pwd_euid of
             Some dir \<Rightarrow> Inr (with_slash dir)
           | None \<Rightarrow>
               (case getenv ''HOME'' of
                  Some dir \<Rightarrow> Inr (with_slash dir)
                | None \<Rightarrow> Inl (NotFoundException ''HOME''))))"

definition tempImpl :: "(string \<Rightarrow> string option) \<Rightarrow> string" where
  "tempImpl getenv = (case getenv ''TMPDIR'' of Some tmp \<Rightarrow> with_slash tmp | None \<Rightarrow> ''/tmp/'')"

definition nullImpl :: string where
  "nullImpl = ''/dev/null''"

definition listRootsImpl :: "string list \<Rightarrow> string list" where
  "listRootsImpl roots = [''/'']"

definition makeAbsolute_current :: "exn + string \<Rightarrow> exn + string \<Rightarrow> path \<Rightarrow> path outcome" where
  "makeAbsolute_current home cur p =
     (case cur of
        Inl e \<Rightarrow> Throws e p
      | Inr s \<Rightarrow> (case parseUnix home empty_path s of
                   Returns base \<Rightarrow> Returns (makeAbsolute p base)
                 | Throws e _ \<Rightarrow> Throws e p))"

text \<open>The variable behind a dollar sign and the rest of the input.\<close>

definition expand_var :: "string \<Rightarrow> string \<times> string" where
  "expand_var it =
     (if it \<noteq> [] \<and> hd it = CHR 0x7B then
        (case scan (\<lambda>c. c \<noteq> CHR 0x7D) (tl it) of (var, it) \<Rightarrow> (var, drop 1 it))
      else scan (\<lambda>c. isAlphaNumeric (schar c) \<or> c = CHR ''_'') it)"

lemma expand_var_length: "expand_var it = (var, rest) \<Longrightarrow> length rest \<le> length it"
  using length_dropWhile_le [of "\<lambda>c. c \<noteq> CHR 0x7D" "tl it"]
    length_dropWhile_le [of "\<lambda>c. isAlphaNumeric (schar c) \<or> c = CHR ''_''" it]
  by (auto simp: expand_var_def scan_def split: if_splits)

function (sequential) expand_loop :: "(string \<Rightarrow> string option) \<Rightarrow> string \<Rightarrow> string \<Rightarrow> string" where
  "expand_loop getenv [] result = result"
| "expand_loop getenv (c # it) result =
     (if c = CHR ''$'' then
        (case expand_var it of (var, rest) \<Rightarrow>
           expand_loop getenv rest
             (case getenv (c_str var) of Some val \<Rightarrow> result @ val | None \<Rightarrow> result))
      else expand_loop getenv it (result @ [c]))"
  by pat_completeness auto
termination
  by (relation "measure (\<lambda>(getenv, it, result). length it)")
    (auto dest: expand_var_length [OF sym] simp: le_imp_less_Suc)

definition expandImpl :: "exn + string \<Rightarrow> (string \<Rightarrow> string option) \<Rightarrow> string \<Rightarrow> exn + string" where
  "expandImpl home getenv s =
     (case s of
        [] \<Rightarrow> Inr []
      | c # it \<Rightarrow>
          if c = CHR ''~'' then
            (if it \<noteq> [] \<and> hd it = CHR ''/'' then
               (case home of Inl e \<Rightarrow> Inl e | Inr h \<Rightarrow> Inr (expand_loop getenv (tl it) h))
             else Inr (expand_loop getenv it ''~''))
          else Inr (expand_loop getenv s []))"

fun find_in :: "exn + string \<Rightarrow> (path \<Rightarrow> bool) \<Rightarrow> string list \<Rightarrow> string \<Rightarrow> path \<Rightarrow> (path \<times> bool) outcome" where
  "find_in home exists [] name p0 = Returns (p0, False)"
| "find_in home exists (l # locs) name p0 =
     (case parseUnix home empty_path l of
        Throws e _ \<Rightarrow> Throws e (p0, False)
      | Returns p \<Rightarrow>
          (case parseUnix home empty_path name of
             Throws e _ \<Rightarrow> Throws e (p0, False)
           | Returns q \<Rightarrow>
               let p = resolve (makeDirectory p) q
               in if exists p then Returns (p, True) else find_in home exists locs name p0))"

definition pathSeparator :: char where "pathSeparator = CHR '':''"
definition separator :: char where "separator = CHR ''/''"

definition find_path :: "exn + string \<Rightarrow> (path \<Rightarrow> bool) \<Rightarrow> string \<Rightarrow> string \<Rightarrow> path \<Rightarrow> (path \<times> bool) outcome" where
  "find_path home exists pathList name p0 =
     find_in home exists (tokenize pathList [pathSeparator] (TOK_IGNORE_EMPTY + TOK_TRIM)) name p0"

section \<open>Directories stay in normal form\<close>

lemma pushDirectory_fields [simp]:
  "p_node (pushDirectory p d) = p_node p" "p_device (pushDirectory p d) = p_device p"
  "p_name (pushDirectory p d) = p_name p" "p_version (pushDirectory p d) = p_version p"
  "p_absolute (pushDirectory p d) = p_absolute p"
  by (simp_all add: pushDirectory_def)

text \<open>\<open>pushDirectory\<close> as a step on the list of directories.\<close>

definition dir_step :: "bool \<Rightarrow> string list \<Rightarrow> string \<Rightarrow> string list" where
  "dir_step ab dirs d = p_dirs (pushDirectory (empty_path\<lparr>p_dirs := dirs, p_absolute := ab\<rparr>) d)"

lemma pushDirectory_dirs: "p_dirs (pushDirectory p d) = dir_step (p_absolute p) (p_dirs p) d"
  by (simp add: dir_step_def pushDirectory_def)

lemma pushDirectory_eq: "pushDirectory p d = p\<lparr>p_dirs := dir_step (p_absolute p) (p_dirs p) d\<rparr>"
  by (rule path.equality) (simp_all add: pushDirectory_dirs)

lemma foldl_pushDirectory:
  "foldl pushDirectory p ds = p\<lparr>p_dirs := foldl (dir_step (p_absolute p)) (p_dirs p) ds\<rparr>"
  by (induction ds arbitrary: p) (simp_all add: pushDirectory_eq)

lemma dir_step_Nil [simp]: "dir_step ab dirs [] = dirs"
  by (simp add: dir_step_def pushDirectory_def)

interpretation path_dots: dot_stack "dir_step ab" "\<not> ab" for ab
  by unfold_locales (auto simp: dir_step_def pushDirectory_def name_seg_def)

text \<open>The normal form: no empty and no dot directory, a leading \<open>..\<close> in relative paths only.\<close>

definition canonical :: "path \<Rightarrow> bool" where
  "canonical p \<longleftrightarrow> normal (\<not> p_absolute p) (p_dirs p)"

lemma dir_step_normal: "normal (\<not> ab) dirs \<Longrightarrow> normal (\<not> ab) (dir_step ab dirs d)"
  by (cases "d = []") (simp_all add: path_dots.normal_step)

lemma foldl_dir_step_normal: "normal (\<not> ab) dirs \<Longrightarrow> normal (\<not> ab) (foldl (dir_step ab) dirs ds)"
  by (induction ds arbitrary: dirs) (simp_all add: dir_step_normal)

lemma pushDirectory_canonical: "canonical p \<Longrightarrow> canonical (pushDirectory p d)"
  by (simp add: canonical_def pushDirectory_dirs dir_step_normal)

lemma makeDirectory_canonical: "canonical p \<Longrightarrow> canonical (makeDirectory p)"
  using pushDirectory_canonical [of p "p_name p"] by (simp add: makeDirectory_def canonical_def)

lemma makeDirectory_fields [simp]:
  "p_node (makeDirectory p) = p_node p" "p_device (makeDirectory p) = p_device p"
  "p_name (makeDirectory p) = []" "p_version (makeDirectory p) = []"
  "p_absolute (makeDirectory p) = p_absolute p"
  "p_dirs (makeDirectory p) = dir_step (p_absolute p) (p_dirs p) (p_name p)"
  by (simp_all add: makeDirectory_def pushDirectory_dirs)

lemma makeAbsolute_canonical: "canonical p \<Longrightarrow> canonical base \<Longrightarrow> canonical (makeAbsolute p base)"
  by (cases "p_absolute p")
    (simp_all add: makeAbsolute_def canonical_def foldl_pushDirectory foldl_dir_step_normal
      dir_step_normal Let_def)

lemma resolve_canonical: "canonical p \<Longrightarrow> canonical q \<Longrightarrow> canonical (resolve p q)"
  by (simp add: resolve_def canonical_def foldl_pushDirectory foldl_dir_step_normal)

lemma makeParent_canonical: "canonical p \<Longrightarrow> canonical (makeParent p)"
proof -
  assume p: "canonical p"
  consider "p_name p \<noteq> []" | "p_name p = []" "p_dirs p = []"
    | "p_name p = []" "p_dirs p \<noteq> []" "last (p_dirs p) \<noteq> up"
    | "p_name p = []" "p_dirs p \<noteq> []" "last (p_dirs p) = up" by blast
  then show ?thesis
  proof cases
    case 1
    then show ?thesis using p by (simp add: makeParent_def canonical_def)
  next
    case 2
    then show ?thesis by (simp add: makeParent_def canonical_def) (simp add: normal_def)
  next
    case 3
    then show ?thesis using p by (simp add: makeParent_def canonical_def normal_butlast)
  next
    case 4
    have all: "list_all (\<lambda>s. s = up) (p_dirs p)"
      using normal_all_up [OF _ 4(2,3)] p unfolding canonical_def by blast
    then have "\<not> p_absolute p" using p 4(2) unfolding canonical_def normal_def by (cases "p_dirs p") auto
    then show ?thesis
      using p 4 all by (simp add: makeParent_def canonical_def normal_snoc_up)
  qed
qed

lemma clear_eq: "clear p = empty_path"
  by (simp add: clear_def empty_path_def)

lemma canonical_empty [simp]: "canonical (empty_path\<lparr>p_absolute := a\<rparr>)" "canonical empty_path"
  by (simp_all add: canonical_def empty_path_def)

lemma unix_dir_canonical: "canonical p \<Longrightarrow> canonical (unix_dir p d)"
  by (simp add: unix_dir_def pushDirectory_canonical) (simp add: canonical_def)

lemma unix_loop_canonical: "canonical p \<Longrightarrow> canonical (unix_loop p it)"
proof (induction p it rule: unix_loop.induct)
  case (2 p c it)
  obtain name rest where s: "scan (\<lambda>c. c \<noteq> CHR ''/'') (c # it) = (name, rest)"
    by (cases "scan (\<lambda>c. c \<noteq> CHR ''/'') (c # it)")
  show ?case
  proof (cases rest)
    case Nil
    then show ?thesis using s 2(2) by (simp add: canonical_def)
  next
    case (Cons d rest')
    then show ?thesis using 2 s by (simp add: unix_dir_canonical)
  qed
qed simp

lemma unix_loop_absolute: "p_absolute p \<Longrightarrow> p_absolute (unix_loop p it)"
proof (induction p it rule: unix_loop.induct)
  case (2 p c it)
  obtain name rest where s: "scan (\<lambda>c. c \<noteq> CHR ''/'') (c # it) = (name, rest)"
    by (cases "scan (\<lambda>c. c \<noteq> CHR ''/'') (c # it)")
  then show ?case using 2 by (cases rest) (auto simp: unix_dir_def)
qed simp

lemma parseUnix_from_canonical:
  assumes "\<And>q. cwd = Returns q \<Longrightarrow> normal False (p_dirs q)"
  shows "canonical (state_of (parseUnix_from cwd p s))"
proof -
  have "canonical (empty_path\<lparr>p_dirs := p_dirs q, p_absolute := True\<rparr>)" if "cwd = Returns q" for q
    using assms [OF that] by (simp add: canonical_def)
  then show ?thesis
    by (auto simp: parseUnix_from_def clear_eq Let_def simp del: unix_loop.simps(2)
        intro!: unix_loop_canonical split: list.split outcome.split)
qed

lemma parseUnix_canonical:
  assumes "home = Inr h" "hd h = CHR ''/''" "h \<noteq> []"
  shows "canonical (state_of (parseUnix home p s))"
proof -
  obtain h' where h: "h = CHR ''/'' # h'" using assms by (cases h) auto
  have "p_absolute (unix_loop (empty_path\<lparr>p_absolute := True\<rparr>) h')"
    by (simp add: unix_loop_absolute)
  moreover have "canonical (unix_loop (empty_path\<lparr>p_absolute := True\<rparr>) h')"
    by (simp add: unix_loop_canonical)
  ultimately have "normal False (p_dirs (unix_loop (empty_path\<lparr>p_absolute := True\<rparr>) h'))"
    by (simp add: canonical_def)
  then show ?thesis unfolding parseUnix_def using assms(1) h
    by (intro parseUnix_from_canonical)
      (auto simp: parseUnix_from_def clear_eq tilde_start_def Let_def)
qed

lemma windows_loop_canonical: "canonical p \<Longrightarrow> canonical (windows_loop p it)"
proof (induction p it rule: windows_loop.induct)
  case (2 p c it)
  obtain name rest where s: "scan (\<lambda>c. \<not> win_sep c) (c # it) = (name, rest)"
    by (cases "scan (\<lambda>c. \<not> win_sep c) (c # it)")
  show ?case
  proof (cases rest)
    case Nil
    then show ?thesis using s 2(2) by (simp add: canonical_def)
  next
    case (Cons d rest')
    then show ?thesis using 2 s by (simp add: pushDirectory_canonical)
  qed
qed simp

lemma windows_root_canonical:
  "p_dirs p = [] \<Longrightarrow> canonical (fst (state_of (windows_root p s it)))"
  by (auto simp: windows_root_def canonical_def Let_def split: list.split prod.split)

lemma parseWindows_canonical: "canonical (state_of (parseWindows p s))"
proof -
  obtain q it where q: "(case s of [] \<Rightarrow> (clear p, s)
      | c # it \<Rightarrow> if win_sep c then ((clear p)\<lparr>p_absolute := True\<rparr>, it) else (clear p, s)) = (q, it)"
    by fastforce
  then have "p_dirs q = []" by (auto simp: clear_def split: list.splits if_splits)
  then have "canonical (fst (state_of (and_then (windows_root q s it) (\<lambda>(p, it).
              let p = windows_loop p it
              in Returns (if p_node p \<noteq> [] \<and> p_dirs p = [] \<and> p_name p \<noteq> [] then makeDirectory p else p, [])))))"
    by (intro state_of_and_then [where P = "\<lambda>x. canonical (fst x)"] windows_root_canonical)
      (auto simp: Let_def windows_loop_canonical makeDirectory_canonical)
  then show ?thesis using q by (simp add: parseWindows_def Let_def)
qed

text \<open>Where a relative path leads from an absolute one.\<close>

lemma foldl_dir_step_walk:
  assumes "normal False dirs" "[] \<notin> set ds"
  shows "foldl (dir_step True) dirs ds = walk dirs ds"
proof -
  have n: "list_all name_seg (foldl (dir_step True) dirs ds)" "list_all name_seg dirs"
    using foldl_dir_step_normal [of True dirs ds] assms by (simp_all add: normal_False)
  have "walk [] (foldl (dir_step True) dirs ds) = walk (walk [] dirs) ds"
    using path_dots.walk_foldl [OF assms(2), of True "[]" dirs] assms(1) by simp
  then show ?thesis using n by (simp add: walk_names)
qed

lemma makeAbsolute_walk:
  assumes "\<not> p_absolute p" "p_absolute base" "canonical p" "canonical base"
  shows "p_dirs (makeAbsolute p base) = walk (p_dirs (makeDirectory base)) (p_dirs p)"
  using assms foldl_dir_step_walk [of "dir_step True (p_dirs base) (p_name base)" "p_dirs p"]
    dir_step_normal [of True "p_dirs base" "p_name base"] normal_no_Nil
  by (simp add: makeAbsolute_def foldl_pushDirectory canonical_def Let_def)

lemma resolve_walk:
  assumes "p_absolute p" "\<not> p_absolute q" "canonical p" "canonical q"
  shows "p_dirs (resolve p q) = walk (p_dirs p) (p_dirs q)"
  using assms foldl_dir_step_walk [of "p_dirs p" "p_dirs q"] normal_no_Nil
  by (simp add: resolve_def isAbsolute_def foldl_pushDirectory canonical_def)

section \<open>Printing and parsing: Unix\<close>

lemma scan_slash: "lacks ''/'' n \<Longrightarrow> scan (\<lambda>c. c \<noteq> CHR ''/'') (n @ CHR ''/'' # it) = (n, CHR ''/'' # it)"
  using lacks_scan [of "''/''" n "''/''" "CHR ''/'' # it"] by simp

lemma scan_slash_end: "lacks ''/'' n \<Longrightarrow> scan (\<lambda>c. c \<noteq> CHR ''/'') n = (n, [])"
  using lacks_scan [of "''/''" n "''/''" "[]"] by simp

lemma unix_loop_nonempty:
  "it \<noteq> [] \<Longrightarrow> unix_loop p it =
     (case scan (\<lambda>c. c \<noteq> CHR ''/'') it of
        (name, []) \<Rightarrow> p\<lparr>p_name := name\<rparr>
      | (name, _ # it) \<Rightarrow> unix_loop (unix_dir p name) it)"
  by (cases it) simp_all

lemma unix_loop_text:
  assumes "list_all (lacks ''/'') ds" "lacks ''/'' n"
  shows "unix_loop p (concat (map (\<lambda>d. d @ ''/'') ds) @ n) =
    (if n = [] then foldl unix_dir p ds else (foldl unix_dir p ds)\<lparr>p_name := n\<rparr>)"
  using assms(1)
proof (induction ds arbitrary: p)
  case Nil
  then show ?case using scan_slash_end [OF assms(2)]
    by (cases "n = []") (simp_all add: unix_loop_nonempty)
next
  case (Cons d ds)
  let ?rest = "concat (map (\<lambda>d. d @ ''/'') ds) @ n"
  have "unix_loop p (d @ CHR ''/'' # ?rest) = unix_loop (unix_dir p d) ?rest"
    using Cons.prems scan_slash [of d ?rest] by (subst unix_loop_nonempty) simp_all
  then show ?case using Cons by simp
qed

lemma unix_dirs_text:
  assumes "normal (\<not> p_absolute p) (p_dirs p @ ds)"
    "p_dirs p \<noteq> [] \<or> ds = [] \<or> last (hd ds) \<noteq> CHR '':''"
  shows "foldl unix_dir p ds = p\<lparr>p_dirs := p_dirs p @ ds\<rparr>"
  using assms
proof (induction ds arbitrary: p)
  case (Cons d ds)
  have n: "normal (\<not> p_absolute p) (p_dirs p @ [d])"
    using normal_append [of "\<not> p_absolute p" "p_dirs p @ [d]" ds] Cons.prems(1) by simp
  have "unix_dir p d = pushDirectory p d" using Cons.prems(2) by (auto simp: unix_dir_def)
  also have "\<dots> = p\<lparr>p_dirs := p_dirs p @ [d]\<rparr>"
    using path_dots.step_normal_snoc [OF n] by (simp add: pushDirectory_eq)
  finally have d: "unix_dir p d = p\<lparr>p_dirs := p_dirs p @ [d]\<rparr>" .
  then show ?case using Cons.IH [of "unix_dir p d"] Cons.prems by simp
qed simp

text \<open>The paths that \<open>buildUnix\<close> prints without loss.\<close>

definition unix_printable :: "path \<Rightarrow> bool" where
  "unix_printable p \<longleftrightarrow>
     p_node p = [] \<and> p_version p = [] \<and> canonical p
     \<and> list_all (lacks ''/'') (p_dirs p) \<and> lacks ''/'' (p_name p) \<and> lacks ''/'' (p_device p)
     \<and> (p_device p \<noteq> [] \<longrightarrow> p_absolute p)
     \<and> (p_dirs p \<noteq> [] \<longrightarrow> last (hd (p_dirs p)) \<noteq> CHR '':'')
     \<and> (\<not> p_absolute p \<longrightarrow> \<not> tilde_start (buildUnix p))"

lemma unix_loop_parts:
  assumes "unix_printable p" "p_dirs q = []" "p_absolute q = p_absolute p" "p_name q = []"
  shows "unix_loop q (concat (map (\<lambda>d. d @ ''/'') (p_dirs p)) @ p_name p)
    = q\<lparr>p_dirs := p_dirs p, p_name := p_name p\<rparr>"
proof -
  have "foldl unix_dir q (p_dirs p) = q\<lparr>p_dirs := p_dirs p\<rparr>"
    using unix_dirs_text [of q "p_dirs p"] assms by (auto simp: unix_printable_def canonical_def)
  then show ?thesis
    using unix_loop_text [of "p_dirs p" "p_name p" q] assms by (simp add: unix_printable_def)
qed

lemma unix_text_hd:
  assumes "unix_printable p" "concat (map (\<lambda>d. d @ ''/'') (p_dirs p)) @ p_name p = c # cs"
  shows "c \<noteq> CHR ''/''"
proof (cases "p_dirs p")
  case Nil
  then show ?thesis using assms by (auto simp: unix_printable_def)
next
  case (Cons d ds)
  then have "d \<noteq> []"
    using assms(1) normal_no_Nil [of "\<not> p_absolute p" "p_dirs p"] by (auto simp: unix_printable_def canonical_def)
  then show ?thesis using Cons assms by (cases d) (auto simp: unix_printable_def)
qed

lemma parseUnix_buildUnix:
  assumes "unix_printable p"
  shows "parseUnix home q (buildUnix p) = Returns p"
proof -
  let ?t = "concat (map (\<lambda>d. d @ ''/'') (p_dirs p)) @ p_name p"
  consider (device) "p_device p \<noteq> []" | (root) "p_device p = []" "p_absolute p"
    | (relative) "p_device p = []" "\<not> p_absolute p" by blast
  then show ?thesis
  proof cases
    case device
    let ?q = "empty_path\<lparr>p_absolute := True\<rparr>"
    have t: "buildUnix p = CHR ''/'' # (p_device p @ '':'') @ CHR ''/'' # ?t"
      using device by (simp add: buildUnix_def)
    have "lacks ''/'' (p_device p @ '':'')" using assms by (simp add: unix_printable_def)
    then have "unix_loop ?q ((p_device p @ '':'') @ CHR ''/'' # ?t)
        = unix_loop (unix_dir ?q (p_device p @ '':'')) ?t"
      using scan_slash [of "p_device p @ '':''" ?t] by (subst unix_loop_nonempty) simp_all
    also have "unix_dir ?q (p_device p @ '':'') = ?q\<lparr>p_device := p_device p\<rparr>"
      by (simp add: unix_dir_def empty_path_def)
    also have "unix_loop \<dots> ?t = ?q\<lparr>p_device := p_device p, p_dirs := p_dirs p, p_name := p_name p\<rparr>"
      using assms device unix_loop_parts [of p "?q\<lparr>p_device := p_device p\<rparr>"]
      by (simp add: unix_printable_def empty_path_def)
    also have "\<dots> = p" using assms device by (intro path.equality) (auto simp: unix_printable_def empty_path_def)
    finally show ?thesis unfolding t by (simp add: parseUnix_def parseUnix_from_def clear_eq Let_def)
  next
    case root
    have "unix_loop (empty_path\<lparr>p_absolute := True\<rparr>) ?t = p"
      using assms root unix_loop_parts [of p "empty_path\<lparr>p_absolute := True\<rparr>"]
      by (intro path.equality) (simp_all add: unix_printable_def empty_path_def)
    then show ?thesis
      using root by (simp add: parseUnix_def parseUnix_from_def clear_eq buildUnix_def Let_def)
  next
    case relative
    have t: "buildUnix p = ?t" using relative by (simp add: buildUnix_def)
    have p: "unix_loop empty_path ?t = p"
      using assms relative unix_loop_parts [of p empty_path]
      by (intro path.equality) (simp_all add: unix_printable_def empty_path_def)
    show ?thesis
    proof (cases ?t)
      case Nil
      then show ?thesis using p t by (simp add: parseUnix_def parseUnix_from_def clear_eq)
    next
      case (Cons c cs)
      have "c \<noteq> CHR ''/''" "\<not> tilde_start (c # cs)"
        using unix_text_hd [OF assms Cons] assms relative t Cons by (simp_all add: unix_printable_def)
      then show ?thesis
        using p unfolding t Cons
        by (simp add: parseUnix_def parseUnix_from_def clear_eq Let_def del: unix_loop.simps(2))
    qed
  qed
qed

section \<open>Printing and parsing: Windows\<close>

abbreviation win_seps :: string where "win_seps \<equiv> [CHR 0x5C, CHR ''/'']"

lemma win_sep_set: "win_sep c \<longleftrightarrow> c \<in> set win_seps"
  by (auto simp: win_sep_def)

lemma scan_win: "lacks win_seps n \<Longrightarrow> scan (\<lambda>c. \<not> win_sep c) (n @ CHR 0x5C # it) = (n, CHR 0x5C # it)"
  using lacks_scan [of win_seps n win_seps "CHR 0x5C # it"] by (simp add: win_sep_def)

lemma scan_win_end: "lacks win_seps n \<Longrightarrow> scan (\<lambda>c. \<not> win_sep c) n = (n, [])"
  using lacks_scan [of win_seps n win_seps "[]"] by (simp add: win_sep_def)

lemma windows_loop_nonempty:
  "it \<noteq> [] \<Longrightarrow> windows_loop p it =
     (case scan (\<lambda>c. \<not> win_sep c) it of
        (name, []) \<Rightarrow> p\<lparr>p_name := name\<rparr>
      | (name, _ # it) \<Rightarrow> windows_loop (pushDirectory p name) it)"
  by (cases it) simp_all

definition win_text :: "path \<Rightarrow> string" where
  "win_text p = concat (map (\<lambda>d. d @ [CHR 0x5C]) (p_dirs p)) @ p_name p"

lemma windows_loop_text:
  assumes "list_all (lacks win_seps) ds" "lacks win_seps n"
  shows "windows_loop p (concat (map (\<lambda>d. d @ [CHR 0x5C]) ds) @ n) =
    (if n = [] then foldl pushDirectory p ds else (foldl pushDirectory p ds)\<lparr>p_name := n\<rparr>)"
  using assms(1)
proof (induction ds arbitrary: p)
  case Nil
  then show ?case using scan_win_end [OF assms(2)]
    by (cases "n = []") (simp_all add: windows_loop_nonempty)
next
  case (Cons d ds)
  let ?rest = "concat (map (\<lambda>d. d @ [CHR 0x5C]) ds) @ n"
  have "windows_loop p (d @ CHR 0x5C # ?rest) = windows_loop (pushDirectory p d) ?rest"
    using Cons.prems scan_win [of d ?rest] by (subst windows_loop_nonempty) simp_all
  then show ?case using Cons by simp
qed

text \<open>The paths that \<open>buildWindows\<close> prints without loss: a node (then something behind it), a drive
  letter, or neither; in the last case the text must not look like a drive.\<close>

definition windows_printable :: "path \<Rightarrow> bool" where
  "windows_printable p \<longleftrightarrow>
     p_version p = [] \<and> canonical p
     \<and> list_all (lacks win_seps) (p_dirs p) \<and> lacks win_seps (p_name p) \<and> lacks win_seps (p_node p)
     \<and> (p_node p \<noteq> [] \<longrightarrow> p_absolute p \<and> p_device p = [] \<and> (p_dirs p \<noteq> [] \<or> p_name p = []))
     \<and> (p_device p \<noteq> [] \<longrightarrow> p_absolute p \<and> length (p_device p) = 1 \<and> drive_letter (hd (p_device p)))
     \<and> (p_node p = [] \<and> p_device p = [] \<longrightarrow>
          (case win_text p of c # d # _ \<Rightarrow> d \<noteq> CHR '':'' | _ \<Rightarrow> True))"

lemma windows_loop_parts:
  assumes "windows_printable p" "p_dirs q = []" "p_absolute q = p_absolute p" "p_name q = []"
  shows "windows_loop q (win_text p) = q\<lparr>p_dirs := p_dirs p, p_name := p_name p\<rparr>"
proof -
  have "foldl pushDirectory q (p_dirs p) = q\<lparr>p_dirs := p_dirs p\<rparr>"
    using path_dots.foldl_normal [of "p_absolute p" "p_dirs p"] assms
    by (simp add: foldl_pushDirectory windows_printable_def canonical_def)
  then show ?thesis
    using windows_loop_text [of "p_dirs p" "p_name p" q] assms
    by (simp add: windows_printable_def win_text_def)
qed

lemma win_text_hd:
  assumes "windows_printable p" "win_text p = c # cs"
  shows "\<not> win_sep c"
proof (cases "p_dirs p")
  case Nil
  then show ?thesis using assms by (auto simp: windows_printable_def win_text_def win_sep_set)
next
  case (Cons d ds)
  then have "d \<noteq> []"
    using assms(1) normal_no_Nil [of "\<not> p_absolute p" "p_dirs p"]
    by (auto simp: windows_printable_def canonical_def)
  then show ?thesis
    using Cons assms by (cases d) (auto simp: windows_printable_def win_text_def win_sep_set)
qed

lemma windows_root_plain:
  assumes "windows_printable p" "p_node p = []" "p_device p = []"
  shows "windows_root q s (win_text p) = Returns (q, win_text p)"
proof (cases "win_text p")
  case (Cons c cs)
  then show ?thesis
    using assms win_text_hd [OF assms(1) Cons]
    by (cases cs) (simp_all add: windows_root_def windows_printable_def)
qed (simp add: windows_root_def)

lemma parseWindows_finish:
  assumes "(case s of [] \<Rightarrow> (empty_path, s)
      | c # it \<Rightarrow> if win_sep c then (empty_path\<lparr>p_absolute := True\<rparr>, it) else (empty_path, s)) = (q, it)"
    "windows_root q s it = Returns (r, win_text p)"
    "windows_printable p" "p_dirs r = []" "p_name r = []" "p_absolute r = p_absolute p"
    "p_node r = p_node p" "p_device r = p_device p" "p_version r = []"
  shows "parseWindows x s = Returns p"
proof -
  have "windows_loop r (win_text p) = p"
    using windows_loop_parts [OF assms(3,4,6,5)] assms by (intro path.equality) (auto simp: windows_printable_def)
  moreover have "\<not> (p_node p \<noteq> [] \<and> p_dirs p = [] \<and> p_name p \<noteq> [])"
    using assms(3) by (auto simp: windows_printable_def)
  ultimately show ?thesis
    using assms(1,2) by (auto simp: parseWindows_def clear_eq Let_def)
qed

lemma parseWindows_buildWindows:
  assumes "windows_printable p"
  shows "parseWindows q (buildWindows p) = Returns p"
proof -
  consider (node) "p_node p \<noteq> []" | (device) "p_node p = []" "p_device p \<noteq> []"
    | (root) "p_node p = []" "p_device p = []" "p_absolute p"
    | (relative) "p_node p = []" "p_device p = []" "\<not> p_absolute p" by blast
  then show ?thesis
  proof cases
    case node
    then have "buildWindows p = CHR 0x5C # CHR 0x5C # p_node p @ CHR 0x5C # win_text p"
      by (simp add: buildWindows_def win_text_def)
    then show ?thesis
      using node assms scan_win [of "p_node p" "win_text p"]
      by (intro parseWindows_finish [where it = "CHR 0x5C # p_node p @ CHR 0x5C # win_text p"
            and r = "empty_path\<lparr>p_absolute := True, p_node := p_node p\<rparr>"])
        (auto simp: windows_root_def windows_printable_def empty_path_def win_sep_def)
  next
    case device
    then obtain d where d: "p_device p = [d]" "drive_letter d" "p_absolute p"
      using assms by (cases "p_device p") (auto simp: windows_printable_def)
    then have nd: "\<not> win_sep d"
      by (auto simp: drive_letter_def between_def schar_def uchar_def win_sep_def)
    have "buildWindows p = d # CHR '':'' # CHR 0x5C # win_text p"
      using device d by (simp add: buildWindows_def win_text_def)
    then show ?thesis
      using device assms d nd
      by (intro parseWindows_finish [where it = "d # CHR '':'' # CHR 0x5C # win_text p"
            and r = "empty_path\<lparr>p_absolute := True, p_device := [d]\<rparr>"])
        (auto simp: windows_root_def empty_path_def Let_def, simp_all add: win_sep_def)
  next
    case root
    then have "buildWindows p = CHR 0x5C # win_text p" by (simp add: buildWindows_def win_text_def)
    then show ?thesis
      using root assms windows_root_plain [OF assms]
      by (intro parseWindows_finish [where it = "win_text p" and r = "empty_path\<lparr>p_absolute := True\<rparr>"])
        (auto simp: empty_path_def win_sep_def)
  next
    case relative
    then have t: "buildWindows p = win_text p" by (simp add: buildWindows_def win_text_def)
    have "(case win_text p of [] \<Rightarrow> (empty_path, win_text p)
        | c # it \<Rightarrow> if win_sep c then (empty_path\<lparr>p_absolute := True\<rparr>, it) else (empty_path, win_text p))
      = (empty_path, win_text p)"
      using win_text_hd [OF assms] by (auto split: list.split)
    then show ?thesis
      unfolding t using relative assms windows_root_plain [OF assms]
      by (intro parseWindows_finish [where it = "win_text p" and r = empty_path])
        (auto simp: empty_path_def)
  qed
qed

section \<open>Printing and parsing: VMS\<close>

definition vms_dir_ok :: "string \<Rightarrow> bool" where
  "vms_dir_ok d \<longleftrightarrow> d \<noteq> [] \<and> lacks ''.]'' d \<and> hd d \<noteq> CHR ''-''"

lemma vms_loop_dot: "vms_loop d dirs (CHR ''.'' # it) = vms_loop d dirs it"
  by (simp add: vms_name_def scan_def vms_skip_def)

lemma vms_loop_hyphen: "vms_loop d dirs (CHR ''-'' # it) = vms_loop d (vms_up d dirs) it"
  by (simp add: vms_name_def vms_skip_def)

lemma vms_loop_name:
  assumes "vms_dir_ok d" "it \<noteq> []" "hd it \<in> set ''.]''"
  shows "vms_loop m dirs (d @ it) = vms_loop m (dirs @ [d]) (vms_skip it)"
proof -
  obtain c cs where d: "d = c # cs" "c \<noteq> CHR '']''" "c \<noteq> CHR ''-''"
    using assms(1) by (cases d) (auto simp: vms_dir_ok_def)
  have "scan (\<lambda>c. c \<noteq> CHR ''.'' \<and> c \<noteq> CHR '']'') (d @ it) = (d, it)"
    using lacks_scan [of "''.]''" d "''.]''" it] assms by (simp add: vms_dir_ok_def)
  then have "vms_name (c # cs @ it) = (d, it)" using d by (simp add: vms_name_def)
  moreover have "d \<noteq> ''-''" using d by auto
  ultimately show ?thesis using d by simp
qed

lemma vms_loop_close [simp]: "vms_loop m dirs (CHR '']'' # r) = (dirs, CHR '']'' # r)"
  by simp

declare vms_loop.simps(2) [simp del]

lemma vms_loop_names:
  assumes "list_all vms_dir_ok (d # ds)" "list_all name_seg ds"
  shows "vms_loop m dirs (d @ vms_rest ds @ CHR '']'' # r) = (dirs @ d # ds, CHR '']'' # r)"
  using assms
proof (induction ds arbitrary: d dirs)
  case Nil
  then show ?case by (simp add: vms_loop_name) (simp add: vms_skip_def)
next
  case (Cons e ds)
  then have "e \<noteq> up" by (simp add: name_seg_def)
  then have "vms_loop m dirs (d @ vms_rest (e # ds) @ CHR '']'' # r)
      = vms_loop m (dirs @ [d]) (e @ vms_rest ds @ CHR '']'' # r)"
    using Cons.prems vms_loop_name [of d "CHR ''.'' # e @ vms_rest ds @ CHR '']'' # r" m dirs]
    by (simp add: vms_skip_def)
  then show ?case using Cons by simp
qed

lemma vms_loop_rest:
  assumes "list_all (\<lambda>s. s = up) dirs" "list_all (\<lambda>s. s = up) ups"
    "list_all vms_dir_ok names" "list_all name_seg names"
  shows "vms_loop None dirs (vms_rest (ups @ names) @ CHR '']'' # r) = (dirs @ ups @ names, CHR '']'' # r)"
  using assms(1,2)
proof (induction ups arbitrary: dirs)
  case Nil
  show ?case
  proof (cases names)
    case (Cons d ds)
    then have "d \<noteq> up" using assms(4) by (simp add: name_seg_def)
    then have "vms_loop None dirs (vms_rest names @ CHR '']'' # r)
        = vms_loop None dirs (d @ vms_rest ds @ CHR '']'' # r)"
      using Cons by (simp add: vms_loop_dot)
    then show ?thesis using Cons assms vms_loop_names [of d ds None dirs r] by simp
  qed simp
next
  case (Cons u ups)
  have "dirs = [] \<or> last dirs = up" using Cons.prems(1) last_in_set [of dirs] unfolding list_all_iff by blast
  then have "vms_up None dirs = dirs @ [up]" by (simp add: vms_up_def)
  then show ?case using Cons by (simp add: vms_loop_hyphen)
qed

text \<open>The paths that \<open>buildVMS\<close> prints without loss.\<close>

definition vms_printable :: "path \<Rightarrow> bool" where
  "vms_printable p \<longleftrightarrow>
     canonical p \<and> list_all (\<lambda>d. d = ''..'' \<or> vms_dir_ok d) (p_dirs p)
     \<and> lacks '':[;'' (p_node p) \<and> lacks '':[;'' (p_device p) \<and> lacks '':[;'' (p_name p)
     \<and> (p_dirs p = [] \<longrightarrow> (p_absolute p \<longleftrightarrow> p_node p \<noteq> [] \<or> p_device p \<noteq> []))"

definition vms_dirs_text :: "path \<Rightarrow> string" where
  "vms_dirs_text p =
     (case p_dirs p of
        [] \<Rightarrow> []
      | d # ds \<Rightarrow> ''['' @ (if \<not> p_absolute p \<and> d \<noteq> ''..'' then ''.'' else [])
          @ (if d = ''..'' then ''-'' else d) @ vms_rest ds @ '']'')"

definition vms_version_text :: "path \<Rightarrow> string" where
  "vms_version_text p = (if p_version p \<noteq> [] then CHR '';'' # p_version p else [])"

definition vms_tail :: "path \<Rightarrow> string" where
  "vms_tail p = vms_dirs_text p @ p_name p @ vms_version_text p"

lemma buildVMS_text:
  "buildVMS p = (if p_node p \<noteq> [] then p_node p @ ''::'' else [])
     @ (if p_device p \<noteq> [] then p_device p @ '':'' else []) @ vms_tail p"
  by (simp add: buildVMS_def vms_tail_def vms_dirs_text_def vms_version_text_def split: list.split)

lemma vms_split:
  assumes "vms_printable p" "p_dirs p = ups @ names" "list_all (\<lambda>s. s = up) ups" "names = [] \<or> hd names \<noteq> up"
  shows "list_all vms_dir_ok names" "list_all name_seg names" "p_absolute p \<Longrightarrow> ups = []"
proof -
  have "dropWhile (\<lambda>s. s = up) (ups @ names) = dropWhile (\<lambda>s. s = up) names"
    using assms(3) by (induction ups) auto
  also have "\<dots> = names" using assms(4) by (cases names) auto
  finally have "dropWhile (\<lambda>s. s = up) (p_dirs p) = names" using assms(2) by simp
  then show n: "list_all name_seg names"
    using assms(1) unfolding vms_printable_def canonical_def normal_def by simp
  show "ups = []" if "p_absolute p"
    using assms(1,2,3) that unfolding vms_printable_def canonical_def normal_def by (cases ups) auto
  have "list_all (\<lambda>d. d = up \<or> vms_dir_ok d) names" using assms(1,2) by (simp add: vms_printable_def)
  then show "list_all vms_dir_ok names" using n unfolding list_all_iff name_seg_def by metis
qed

lemma vms_brackets_text:
  assumes "vms_printable p" "p_dirs p \<noteq> []" "p_dirs q = []" "r = [] \<or> hd r \<noteq> CHR ''[''"
  shows "vms_brackets q s (tl (vms_dirs_text p) @ r) = Returns (q\<lparr>p_dirs := p_dirs p, p_absolute := p_absolute p\<rparr>, r)"
proof -
  define ups names where un: "ups = takeWhile (\<lambda>s. s = up) (p_dirs p)" "names = dropWhile (\<lambda>s. s = up) (p_dirs p)"
  have ds: "p_dirs p = ups @ names" using un by simp
  have ups: "list_all (\<lambda>s. s = up) ups" using un by simp
  have "names = [] \<or> hd names \<noteq> up" using un hd_dropWhile [of "\<lambda>s. s = up" "p_dirs p"] by blast
  note n = vms_split [OF assms(1) ds ups this]
  show ?thesis
  proof (cases ups)
    case Nil
    then obtain d dd where d: "p_dirs p = d # dd" "d \<noteq> up" "vms_dir_ok d" "list_all vms_dir_ok dd"
        "list_all name_seg dd"
      using assms(2) ds n by (cases names) (auto simp: name_seg_def)
    then obtain c cs where c: "d = c # cs" "c \<notin> set ''.]-''"
      by (cases d) (auto simp: vms_dir_ok_def)
    have "vms_loop None [] (d @ vms_rest dd @ CHR '']'' # r) = (d # dd, CHR '']'' # r)"
      using vms_loop_names [of d dd None "[]" r] d by simp
    then show ?thesis using d c assms(3,4)
      by (cases "p_absolute p") (auto simp: vms_brackets_def vms_dirs_text_def Let_def)
  next
    case (Cons u us)
    then have abs: "\<not> p_absolute p" and u: "u = up" using n(3) ups by auto
    have "vms_loop None [] (vms_rest (ups @ names) @ CHR '']'' # r) = (ups @ names, CHR '']'' # r)"
      using vms_loop_rest [OF _ ups n(1,2), of "[]" r] by simp
    then show ?thesis using ds Cons u abs assms(3,4)
      by (auto simp: vms_brackets_def vms_dirs_text_def Let_def)
  qed
qed


lemma scan_version:
  "lacks '';'' n \<Longrightarrow> scan (\<lambda>c. c \<noteq> CHR '';'') (n @ vms_version_text p) = (n, vms_version_text p)"
  using lacks_scan [of "'';''" n "'';''" "vms_version_text p"] by (simp add: vms_version_text_def)

lemma scan_device:
  "lacks '':[;'' n \<Longrightarrow> scan (\<lambda>c. c \<noteq> CHR '':'' \<and> c \<noteq> CHR '';'') (n @ vms_version_text p) = (n, vms_version_text p)"
  using lacks_scan [of "'':[;''" n "'':;''" "vms_version_text p"] by (simp add: vms_version_text_def)

lemma scan_node:
  assumes "lacks '':[;'' n" "it = [] \<or> hd it \<in> set '':[;''"
  shows "scan (\<lambda>c. c \<noteq> CHR '':'' \<and> c \<noteq> CHR ''['' \<and> c \<noteq> CHR '';'') (n @ it) = (n, it)"
  using lacks_scan [of "'':[;''" n "'':[;''" it] assms by simp

lemma vms_name_hd:
  "vms_printable p \<Longrightarrow> p_name p @ vms_version_text p = [] \<or> hd (p_name p @ vms_version_text p) \<notin> set '':[''"
  by (cases "p_name p") (auto simp: vms_printable_def vms_version_text_def)

text \<open>\<open>q\<close> holds the node and the device of \<open>p\<close>; what is left gives the rest of \<open>p\<close>.\<close>

definition vms_head :: "path \<Rightarrow> path \<Rightarrow> bool" where
  "vms_head p q \<longleftrightarrow> q = empty_path\<lparr>p_node := p_node p, p_device := p_device p,
     p_absolute := (p_node p \<noteq> [] \<or> p_device p \<noteq> [])\<rparr>"

lemma vms_finish_name:
  assumes "vms_printable p" "vms_head p q" "p_dirs p = []" "p_name p \<noteq> []"
  shows "vms_finish s q (p_name p) (vms_version_text p) = Returns p"
  using assms
  by (cases p) (auto simp: vms_finish_def vms_version_text_def vms_printable_def vms_head_def empty_path_def)

lemma vms_finish_tail:
  assumes "vms_printable p" "vms_head p q"
  shows "vms_finish s q [] (vms_tail p) = Returns p"
proof -
  have sc: "scan (\<lambda>c. c \<noteq> CHR '';'') (p_name p @ vms_version_text p) = (p_name p, vms_version_text p)"
    using assms(1) scan_version [of "p_name p" p] lacks_mono [of "'':[;''" "p_name p" "'';''"]
    by (simp add: vms_printable_def)
  show ?thesis
  proof (cases "p_dirs p = []")
    case True
    then have "vms_tail p = p_name p @ vms_version_text p" by (simp add: vms_tail_def vms_dirs_text_def)
    moreover have "\<not> (vms_tail p \<noteq> [] \<and> hd (vms_tail p) = CHR ''['')"
      using vms_name_hd [OF assms(1)] calculation by auto
    ultimately show ?thesis
      using sc assms True
      by (cases p) (auto simp: vms_finish_def vms_version_text_def vms_printable_def vms_head_def empty_path_def)
  next
    case False
    obtain t where t: "vms_dirs_text p = CHR ''['' # t" using False
      by (cases "p_dirs p") (auto simp: vms_dirs_text_def)
    have "vms_brackets q s (t @ p_name p @ vms_version_text p)
        = Returns (q\<lparr>p_dirs := p_dirs p, p_absolute := p_absolute p\<rparr>, p_name p @ vms_version_text p)"
      using vms_brackets_text [OF assms(1) False, of q "p_name p @ vms_version_text p" s]
        vms_name_hd [OF assms(1)] assms(2) t
      by (auto simp: vms_head_def empty_path_def)
    then show ?thesis
      using sc assms t
      by (cases p) (auto simp: vms_finish_def vms_tail_def vms_version_text_def vms_head_def empty_path_def)
  qed
qed

lemma vms_tail_hd: "p_dirs p \<noteq> [] \<Longrightarrow> vms_tail p \<noteq> [] \<and> hd (vms_tail p) = CHR ''[''"
  by (cases "p_dirs p") (simp_all add: vms_tail_def vms_dirs_text_def)

lemma vms_device_tail:
  assumes "vms_printable p" "p_device p = []" "vms_head p q"
  shows "case vms_device q [] (vms_tail p) of (r, name, it) \<Rightarrow> vms_finish s r name it = Returns p"
proof (cases "p_dirs p = []")
  case True
  then have t: "vms_tail p = p_name p @ vms_version_text p" by (simp add: vms_tail_def vms_dirs_text_def)
  have n: "scan (\<lambda>c. c \<noteq> CHR '':'' \<and> c \<noteq> CHR '';'') (vms_tail p) = (p_name p, vms_version_text p)"
    using assms(1) scan_device [of "p_name p" p] by (simp add: vms_printable_def t)
  have v: "\<not> (vms_version_text p \<noteq> [] \<and> hd (vms_version_text p) = CHR '':'')"
    by (simp add: vms_version_text_def)
  have h: "vms_tail p \<noteq> [] \<Longrightarrow> hd (vms_tail p) \<noteq> CHR ''[''" using vms_name_hd [OF assms(1)] t by auto
  show ?thesis
  proof (cases "p_name p = []")
    case True
    then show ?thesis
      using n v h t vms_finish_tail [OF assms(1,3), of s] assms(2,3)
      by (auto simp: vms_device_def vms_head_def)
  next
    case False
    then show ?thesis
      using n v h t vms_finish_name [OF assms(1,3) True] assms(2,3)
      by (auto simp: vms_device_def vms_head_def)
  qed
next
  case False
  then show ?thesis using vms_tail_hd [OF False] vms_finish_tail [OF assms(1,3)]
    by (simp add: vms_device_def)
qed


lemmas parseVMS_unfold = parseVMS_def clear_eq Let_def buildVMS_text vms_node_def

lemma parseVMS_node_device:
  assumes "vms_printable p" "p_node p \<noteq> []" "p_device p \<noteq> []"
  shows "parseVMS q (buildVMS p) = Returns p"
proof -
  let ?r = "empty_path\<lparr>p_node := p_node p, p_absolute := True\<rparr>"
  have ok: "lacks '':[;'' (p_node p)" "lacks '':[;'' (p_device p)"
    using assms by (simp_all add: vms_printable_def)
  have "scan (\<lambda>c. c \<noteq> CHR '':'' \<and> c \<noteq> CHR '';'') (p_device p @ CHR '':'' # vms_tail p)
      = (p_device p, CHR '':'' # vms_tail p)"
    using lacks_scan [OF ok(2), of "'':;''" "CHR '':'' # vms_tail p"] by simp
  moreover have "hd (p_device p @ CHR '':'' # vms_tail p) \<noteq> CHR ''[''"
    using assms(3) ok(2) by (cases "p_device p") auto
  ultimately have d: "vms_device ?r [] (p_device p @ CHR '':'' # vms_tail p)
      = (?r\<lparr>p_device := p_device p\<rparr>, [], vms_tail p)"
    by (simp add: vms_device_def empty_path_def)
  have "vms_head p (?r\<lparr>p_device := p_device p\<rparr>)" using assms by (simp add: vms_head_def empty_path_def)
  then show ?thesis
    using assms(2,3) d scan_node [OF ok(1), of "CHR '':'' # CHR '':'' # p_device p @ CHR '':'' # vms_tail p"]
      vms_finish_tail [OF assms(1)]
    by (simp add: parseVMS_unfold)
qed

lemma parseVMS_name:
  assumes "vms_printable p" "p_node p = []" "p_device p = []" "p_dirs p = []"
  shows "parseVMS q (buildVMS p) = Returns p"
proof -
  let ?s = "buildVMS p"
  have h: "vms_head p empty_path" using assms by (simp add: vms_head_def empty_path_def)
  have t: "?s = p_name p @ vms_version_text p"
    using assms by (simp add: buildVMS_text vms_tail_def vms_dirs_text_def)
  have vt: "vms_version_text p = [] \<or> hd (vms_version_text p) = CHR '';''" by (simp add: vms_version_text_def)
  have sc: "scan (\<lambda>c. c \<noteq> CHR '':'' \<and> c \<noteq> CHR ''['' \<and> c \<noteq> CHR '';'') ?s = (p_name p, vms_version_text p)"
    using scan_node [of "p_name p" "vms_version_text p"] assms(1) vt t by (auto simp: vms_printable_def)
  show ?thesis
  proof (cases "vms_version_text p = []")
    case True
    then have "p = empty_path\<lparr>p_name := p_name p\<rparr>"
      using assms by (intro path.equality)
        (auto simp: vms_version_text_def vms_printable_def empty_path_def split: if_splits)
    then show ?thesis using True sc t by (cases "p_name p = []") (auto simp: parseVMS_def clear_eq, simp add: empty_path_def)
  next
    case False
    have "vms_device empty_path (p_name p) (vms_version_text p) = (empty_path, p_name p, vms_version_text p)"
      using vt False scan_device [of "[]" p] by (simp add: vms_device_def)
    moreover have "vms_finish ?s empty_path (p_name p) (vms_version_text p) = Returns p"
      using vms_finish_name [OF assms(1) h assms(4)] vms_finish_tail [OF assms(1) h] assms
      by (cases "p_name p = []") (auto simp: vms_tail_def vms_dirs_text_def)
    ultimately show ?thesis using sc vt False t by (auto simp: parseVMS_def clear_eq Let_def vms_node_def)
  qed
qed

lemma parseVMS_buildVMS:
  assumes "vms_printable p"
  shows "parseVMS q (buildVMS p) = Returns p"
proof -
  have ok: "lacks '':[;'' (p_node p)" "lacks '':[;'' (p_device p)"
    using assms by (simp_all add: vms_printable_def)
  have tail: "vms_tail p = [] \<or> hd (vms_tail p) \<noteq> CHR '':''"
    using vms_tail_hd [of p] vms_name_hd [OF assms]
    by (cases "p_dirs p = []") (auto simp: vms_tail_def vms_dirs_text_def)
  consider "p_node p \<noteq> []" "p_device p \<noteq> []" | (node) "p_node p \<noteq> []" "p_device p = []"
    | (device) "p_node p = []" "p_device p \<noteq> []" | (dirs) "p_node p = []" "p_device p = []" "p_dirs p \<noteq> []"
    | "p_node p = []" "p_device p = []" "p_dirs p = []" by blast
  then show ?thesis
  proof cases
    case node
    let ?r = "empty_path\<lparr>p_node := p_node p, p_absolute := True\<rparr>"
    have "vms_head p ?r" using node by (simp add: vms_head_def empty_path_def)
    then show ?thesis
      using node scan_node [OF ok(1), of "CHR '':'' # CHR '':'' # vms_tail p"]
        vms_device_tail [OF assms node(2), of ?r "buildVMS p"]
      by (auto simp: parseVMS_unfold split: prod.splits)
  next
    case device
    let ?r = "empty_path\<lparr>p_device := p_device p, p_absolute := True\<rparr>"
    have "vms_head p ?r" using device by (simp add: vms_head_def empty_path_def)
    then show ?thesis
      using device tail scan_node [OF ok(2), of "CHR '':'' # vms_tail p"] vms_finish_tail [OF assms, of ?r]
      by (auto simp: parseVMS_unfold vms_device_def)
  next
    case dirs
    have "vms_head p empty_path" using dirs by (simp add: vms_head_def empty_path_def)
    then show ?thesis
      using dirs scan_node [of "[]" "vms_tail p"] vms_tail_hd [OF dirs(3)] vms_finish_tail [OF assms]
      by (auto simp: parseVMS_unfold vms_device_def)
  qed (use assms in \<open>simp_all add: parseVMS_node_device parseVMS_name\<close>)
qed

section \<open>The three notations as encoders\<close>

interpretation unix_notation: codec buildUnix "\<lambda>s. returned (parseUnix home q s)" unix_printable for home q
  by unfold_locales (simp add: parseUnix_buildUnix)

interpretation windows_notation: codec buildWindows "\<lambda>s. returned (parseWindows q s)" windows_printable for q
  by unfold_locales (simp add: parseWindows_buildWindows)

interpretation vms_notation: codec buildVMS "\<lambda>s. returned (parseVMS q s)" vms_printable for q
  by unfold_locales (simp add: parseVMS_buildVMS)

section \<open>File names\<close>

lemma rfind_char_None: "rfind_char x s = None \<longleftrightarrow> x \<notin> set s"
  by (induction s) (auto split: option.split)

lemma rfind_char_append: "x \<notin> set e \<Longrightarrow> rfind_char x (b @ x # e) = Some (length b)"
proof (induction b)
  case Nil
  then have "rfind_char x e = None" by (simp add: rfind_char_None)
  then show ?case by simp
qed simp

lemma rfind_char_Some: "rfind_char x s = Some n \<Longrightarrow> s = take n s @ x # drop (Suc n) s \<and> x \<notin> set (drop (Suc n) s)"
proof (induction s arbitrary: n)
  case (Cons c s)
  then show ?case
    by (auto simp: rfind_char_None split: option.splits if_splits)
qed simp

lemma name_split:
  "CHR ''.'' \<in> set (p_name p) \<Longrightarrow> p_name p = getBaseName p @ ''.'' @ getExtension p"
  using rfind_char_None [of "CHR ''.''" "p_name p"] rfind_char_Some [of "CHR ''.''" "p_name p"]
  by (auto simp: getBaseName_def getExtension_def)

lemma setExtension_get:
  assumes "CHR ''.'' \<notin> set e" "e \<noteq> []"
  shows "getExtension (setExtension p e) = e" "getBaseName (setExtension p e) = getBaseName p"
  using rfind_char_append [OF assms(1), of "getBaseName p"] assms(2)
  by (simp_all add: getExtension_def setExtension_def getBaseName_def [of "p\<lparr>p_name := _\<rparr>"])

lemma getExtension_no_dot: "CHR ''.'' \<notin> set (getExtension p)"
  using rfind_char_Some [of "CHR ''.''" "p_name p"]
  by (auto simp: getExtension_def split: option.split)

lemma setBaseName_get:
  assumes "getExtension p \<noteq> []"
  shows "getBaseName (setBaseName p b) = b" "getExtension (setBaseName p b) = getExtension p"
  using rfind_char_append [OF getExtension_no_dot [of p], of b] assms
  by (simp_all add: setBaseName_def getBaseName_def getExtension_def [of "p\<lparr>p_name := _\<rparr>"] Let_def)

lemma makeFile_makeDirectory:
  assumes "name_seg (p_name p)" "p_version p = []"
  shows "makeFile (makeDirectory p) = p"
proof -
  have "p_dirs (makeDirectory p) = p_dirs p @ [p_name p]"
    using path_dots.push_name [OF assms(1)] by simp
  then show ?thesis using assms(2)
    by (intro path.equality) (simp_all add: makeFile_def)
qed

section \<open>Searching\<close>

lemma parseUnix_returns:
  assumes "home = Inr h" "h \<noteq> []" "hd h = CHR ''/''"
  shows "returns (parseUnix home p s)"
proof -
  obtain h' where "h = CHR ''/'' # h'" using assms by (cases h) auto
  then show ?thesis using assms(1)
    by (auto simp: parseUnix_def parseUnix_from_def tilde_start_def Let_def split: list.split)
qed

definition candidate :: "exn + string \<Rightarrow> string \<Rightarrow> string \<Rightarrow> path" where
  "candidate home name l =
     resolve (makeDirectory (state_of (parseUnix home empty_path l))) (state_of (parseUnix home empty_path name))"

lemma find_in_first:
  assumes "home = Inr h" "h \<noteq> []" "hd h = CHR ''/''"
  shows "find_in home exists locs name p0 =
    Returns (case List.find exists (map (candidate home name) locs) of
               Some p \<Rightarrow> (p, True) | None \<Rightarrow> (p0, False))"
proof (induction locs)
  case (Cons l locs)
  obtain p q where "parseUnix home empty_path l = Returns p" "parseUnix home empty_path name = Returns q"
    using parseUnix_returns [OF assms] by (meson returns_iff)
  then show ?case using Cons by (simp add: candidate_def Let_def)
qed simp

section \<open>Guessing and expanding\<close>

lemma guess_loop_plain:
  "lacks [CHR 0x5C, CHR ''/'', CHR ''['', CHR '']'', CHR '';''] s \<Longrightarrow> guess_loop g (s @ t) = guess_loop g t"
  by (induction s) auto

lemma guess_loop_keeps:
  "lacks [CHR 0x5C, CHR ''/''] s \<Longrightarrow> hasOpenBracket g \<Longrightarrow> hasClosBracket g \<Longrightarrow>
     hasBackslash (guess_loop g s) = hasBackslash g \<and> hasSlash (guess_loop g s) = hasSlash g
     \<and> hasClosBracket (guess_loop g s)"
  by (induction s arbitrary: g) auto

lemma parseVMS_open_bracket:
  assumes "n \<noteq> []" "lacks '':[;'' n"
  shows "parseVMS p (n @ CHR ''['' # r) = Returns (empty_path\<lparr>p_name := n\<rparr>)"
  using assms scan_node [OF assms(2), of "CHR ''['' # r"]
  by (simp add: parseVMS_def clear_eq vms_node_def vms_device_def vms_finish_def Let_def empty_path_def)

lemma parseGuess_open_bracket:
  assumes "n \<noteq> []" "lacks [CHR '':'', CHR ''['', CHR '']'', CHR '';'', CHR ''/'', CHR 0x5C] n"
    "lacks [CHR ''/'', CHR 0x5C] r"
  shows "parseGuess home p (n @ CHR ''['' # r) = Returns (empty_path\<lparr>p_name := n\<rparr>)"
proof -
  let ?s = "n @ CHR ''['' # r"
  let ?g = "\<lparr>hasBackslash = False, hasSlash = False, hasOpenBracket = False, hasClosBracket = False,
               semiIt = None\<rparr>"
  have "?s ! 1 \<noteq> CHR '':''"
  proof (cases "tl n")
    case Nil
    then show ?thesis using assms(1) by (cases n) auto
  next
    case (Cons c cs)
    then show ?thesis using assms(1,2) by (cases n) (auto simp: nth_append)
  qed
  then have w: "\<not> guess_windows ?s" by (simp add: guess_windows_def)
  have "guess_loop ?g ?s = guess_loop (?g\<lparr>hasOpenBracket := True, hasClosBracket := True, semiIt := Some r\<rparr>) r"
    using assms(2) by (subst guess_loop_plain) (auto elim: lacks_mono)
  moreover have "lacks [CHR 0x5C, CHR ''/''] r" using assms(3) by (rule lacks_mono) auto
  ultimately have "\<not> hasBackslash (guess_loop ?g ?s) \<and> \<not> hasSlash (guess_loop ?g ?s) \<and> hasClosBracket (guess_loop ?g ?s)"
    using guess_loop_keeps [of r "?g\<lparr>hasOpenBracket := True, hasClosBracket := True, semiIt := Some r\<rparr>"] by simp
  moreover have "parseVMS p ?s = Returns (empty_path\<lparr>p_name := n\<rparr>)"
    using parseVMS_open_bracket [OF assms(1), of p r] assms(2) lacks_mono [OF assms(2), of "'':[;''"] by auto
  ultimately show ?thesis using w by (simp add: parseGuess_def Let_def)
qed

lemma expand_loop_plain:
  "lacks ''$'' s \<Longrightarrow> expand_loop getenv (s @ t) result = expand_loop getenv t (result @ s)"
  by (induction s arbitrary: result) auto

lemma expand_loop_braces:
  assumes "lacks [CHR 0x7D] var" "CHR 0x00 \<notin> set var"
  shows "expand_loop getenv (CHR ''$'' # CHR 0x7B # var @ CHR 0x7D # rest) result =
    expand_loop getenv rest (result @ (case getenv var of Some val \<Rightarrow> val | None \<Rightarrow> []))"
proof -
  have "scan (\<lambda>c. c \<noteq> CHR 0x7D) (var @ CHR 0x7D # rest) = (var, CHR 0x7D # rest)"
    using lacks_scan [OF assms(1), of "[CHR 0x7D]" "CHR 0x7D # rest"] by simp
  moreover have "c_str var = var" using assms(2) unfolding c_str_def by (auto intro!: takeWhile_eq_all_conv [THEN iffD2])
  ultimately show ?thesis by (simp add: expand_var_def split: option.split)
qed

section \<open>Properties\<close>


definition sample_path :: path where
  "sample_path = \<lparr>p_node = [], p_device = ''c'', p_name = ''f.txt'', p_version = [],
     p_dirs = [''usr'', ''lib''], p_absolute = True\<rparr>"





definition sample_vms :: path where
  "sample_vms = \<lparr>p_node = ''n'', p_device = ''dev'', p_name = ''f.txt'', p_version = ''5'',
     p_dirs = [''..'', ''..'', ''usr''], p_absolute = False\<rparr>"




text \<open>C22: making a relative path absolute, and resolving one against an absolute path, arrive at the
  directory that a walk along its directories from the base arrives at; nothing climbs above the root.\<close>

theorem path_resolve_walk:
  assumes "canonical p" "canonical base" "\<not> p_absolute p" "p_absolute base"
  shows "p_dirs (makeAbsolute p base) = walk (p_dirs (makeDirectory base)) (p_dirs p)
    \<and> p_dirs (resolve base p) = walk (p_dirs base) (p_dirs p)
    \<and> p_absolute (makeAbsolute p base) \<and> p_absolute (resolve base p)
    \<and> p_name (makeAbsolute p base) = p_name p \<and> p_name (resolve base p) = p_name p"
  using makeAbsolute_walk [OF assms(3,4,1,2)] resolve_walk [OF assms(4,3,2,1)] assms
  by (simp add: makeAbsolute_def resolve_def isAbsolute_def foldl_pushDirectory Let_def)

theorem path_resolve_walk_witness:
  "p_dirs (makeAbsolute sample_vms sample_path) = [''usr'', ''usr'']
   \<and> p_dirs (resolve sample_path sample_vms) = [''usr'']"
proof -
  have "canonical sample_vms" "canonical sample_path" "\<not> p_absolute sample_vms" "p_absolute sample_path"
    "walk (p_dirs (makeDirectory sample_path)) (p_dirs sample_vms) = [''usr'', ''usr'']"
    "walk (p_dirs sample_path) (p_dirs sample_vms) = [''usr'']" by code_simp+
  then show ?thesis using path_resolve_walk [of sample_vms sample_path] by simp
qed

text \<open>\<open>find\<close> returns the first location of the list, in its order, at which the file exists; if there is
  none, the path argument is unchanged.\<close>

theorem path_find_first:
  assumes "home = CHR ''/'' # h"
  shows "find_path (Inr home) exists pathList name p0 =
    Returns (case List.find exists (map (candidate (Inr home) name)
                (filter (\<lambda>t. t \<noteq> []) (map trim (pieces (\<lambda>c. c = CHR '':'') pathList)))) of
               Some p \<Rightarrow> (p, True) | None \<Rightarrow> (p0, False))"
  using find_in_first [of "Inr home" home exists] assms
  by (simp add: find_path_def tokenize_ignore_empty_trim pathSeparator_def)

theorem path_find_first_witness:
  "find_path (Inr ''/root'') (\<lambda>p. False) ''/bin:/usr/bin'' ''ls'' empty_path = Returns (empty_path, False)"
proof -
  have "List.find (\<lambda>p. False) xs = None" for xs :: "path list" by (simp add: find_None_iff)
  then show ?thesis using path_find_first [of "''/root''" "''root''" "\<lambda>p. False"] by simp
qed

text \<open>base name and extension: setting an extension replaces the part behind the last dot and keeps
  the base name, and setting a base name keeps the extension.\<close>

theorem path_names:
  assumes "e \<noteq> []" "CHR ''.'' \<notin> set e"
  shows "getExtension (setExtension p e) = e \<and> getBaseName (setExtension p e) = getBaseName p
    \<and> getBaseName (setBaseName (setExtension p e) b) = b \<and> getExtension (setBaseName (setExtension p e) b) = e
    \<and> p_name (setExtension p e) = getBaseName p @ ''.'' @ e"
  using setExtension_get [OF assms(2,1), of p] setBaseName_get [of "setExtension p e" b] assms
  by (simp add: setExtension_def [of p e])

theorem path_names_witness:
  "p_name (setBaseName (setExtension sample_path ''gz'') ''x'') = ''x.gz''"
proof -
  have "getExtension (setExtension sample_path ''gz'') = ''gz''"
    using path_names [of "''gz''" sample_path] by simp
  then show ?thesis by (simp add: setBaseName_def Let_def)
qed

text \<open>guessing the notation: the \<open>switch\<close> falls through from the opening to the closing bracket, so
  a name with an opening bracket alone counts as VMS notation, and everything from the bracket on
  is lost.\<close>

theorem path_guess_open_bracket:
  assumes "n \<noteq> []" "lacks [CHR '':'', CHR ''['', CHR '']'', CHR '';'', CHR ''/'', CHR 0x5C] n"
    "lacks [CHR ''/'', CHR 0x5C] r"
  shows "parseGuess home p (n @ CHR ''['' # r) = Returns (empty_path\<lparr>p_name := n\<rparr>)"
  by (rule parseGuess_open_bracket [OF assms])

theorem path_guess_open_bracket_witness:
  "parseGuess (Inr ''/root'') empty_path ''notes[1.txt'' = Returns (empty_path\<lparr>p_name := ''notes''\<rparr>)"
  using path_guess_open_bracket [of "''notes''" "''1.txt''"] by simp

text \<open>\<open>makeDirectory\<close> and \<open>makeFile\<close> are inverse on a path with a proper file name and no version.\<close>

theorem path_make_directory_file:
  assumes "name_seg (p_name p)" "p_version p = []"
  shows "makeFile (makeDirectory p) = p \<and> p_dirs (makeDirectory p) = p_dirs p @ [p_name p]
    \<and> parent (makeDirectory p) = p\<lparr>p_name := []\<rparr>"
proof -
  have "p_dirs (makeDirectory p) = p_dirs p @ [p_name p]" using path_dots.push_name [OF assms(1)] by simp
  moreover from this have "parent (makeDirectory p) = p\<lparr>p_name := []\<rparr>"
    using assms by (intro path.equality) (simp_all add: parent_def makeParent_def name_seg_def)
  ultimately show ?thesis using makeFile_makeDirectory [OF assms] by simp
qed

theorem path_make_directory_file_witness:
  "makeFile (makeDirectory sample_path) = sample_path"
proof -
  have "name_seg (p_name sample_path)" "p_version sample_path = []" by code_simp+
  then show ?thesis using path_make_directory_file [of sample_path] by blast
qed

end
