(* ===== verification/FIFOBuffer.thy ===== *)
theory FIFOBuffer
  imports Poco_Prelude
begin

text \<open>
  \<open>Poco::Buffer\<close> and \<open>Poco::BasicFIFOBuffer\<close>, for elements of one byte (the instance \<open>FIFOBuffer\<close>). A
  buffer is a block of memory with a capacity and a used size; the FIFO keeps its content in
  a window of the block, which it moves to the front when a write does not fit behind it. A
  copy beyond the block is \<open>UndefinedBehaviour\<close>. The events the FIFO fires are appended to a log.
\<close>

section \<open>Buffer\<close>

text \<open>The memory that a pointer refers to: its cells, and whether the caller supplied it (then it must
  not be deleted).\<close>

record memory =
  cells :: string
  external :: bool

record buffer =
  b_capacity :: nat
  b_used :: nat
  b_ptr :: memory
  b_ownMem :: bool

text \<open>\<open>new T[n]\<close>; \<open>junk\<close> is what fresh memory holds.\<close>

definition alloc :: "(nat \<Rightarrow> char) \<Rightarrow> nat \<Rightarrow> memory" where
  "alloc junk n = \<lparr>cells = map junk [0..<n], external = False\<rparr>"

text \<open>\<open>memcpy\<close> of some bytes to an offset of a block, inside it.\<close>

definition overwrite :: "string \<Rightarrow> nat \<Rightarrow> string \<Rightarrow> string" where
  "overwrite mem off xs = take off mem @ xs @ drop (off + length xs) mem"

definition memcpy :: "memory \<Rightarrow> nat \<Rightarrow> string \<Rightarrow> memory option" where
  "memcpy m off xs =
     (if off + length xs \<le> length (cells m) then Some (m\<lparr>cells := overwrite (cells m) off xs\<rparr>) else None)"

definition Buffer_new :: "(nat \<Rightarrow> char) \<Rightarrow> nat \<Rightarrow> buffer" where
  "Buffer_new junk capacity =
     \<lparr>b_capacity = capacity, b_used = capacity, b_ptr = alloc junk capacity, b_ownMem = True\<rparr>"

definition Buffer_wrap :: "string \<Rightarrow> buffer" where
  "Buffer_wrap mem =
     \<lparr>b_capacity = length mem, b_used = length mem, b_ptr = \<lparr>cells = mem, external = True\<rparr>, b_ownMem = False\<rparr>"

definition Buffer_from :: "string \<Rightarrow> buffer" where
  "Buffer_from mem =
     \<lparr>b_capacity = length mem, b_used = length mem, b_ptr = \<lparr>cells = mem, external = False\<rparr>, b_ownMem = True\<rparr>"

definition Buffer_copy :: "buffer \<Rightarrow> buffer" where
  "Buffer_copy other =
     \<lparr>b_capacity = b_used other, b_used = b_used other,
      b_ptr = \<lparr>cells = take (b_used other) (cells (b_ptr other)), external = False\<rparr>, b_ownMem = True\<rparr>"

definition buffer_resize :: "(nat \<Rightarrow> char) \<Rightarrow> buffer \<Rightarrow> nat \<Rightarrow> bool \<Rightarrow> buffer outcome" where
  "buffer_resize junk b newCapacity preserveContent =
     (if \<not> b_ownMem b then
        Throws (InvalidAccessException ''Cannot resize buffer which does not own its storage.'') b
      else
        let b = (if newCapacity > b_capacity b then
                   let p = alloc junk newCapacity;
                       p = (if preserveContent
                            then p\<lparr>cells := overwrite (cells p) 0 (take (b_used b) (cells (b_ptr b)))\<rparr> else p)
                   in b\<lparr>b_ptr := p, b_capacity := newCapacity\<rparr>
                 else b)
        in Returns (b\<lparr>b_used := newCapacity\<rparr>))"

definition setCapacity :: "(nat \<Rightarrow> char) \<Rightarrow> buffer \<Rightarrow> nat \<Rightarrow> bool \<Rightarrow> buffer outcome" where
  "setCapacity junk b newCapacity preserveContent =
     (if \<not> b_ownMem b then
        Throws (InvalidAccessException ''Cannot resize buffer which does not own its storage.'') b
      else if newCapacity \<noteq> b_capacity b then
        let p = alloc junk newCapacity;
            n = (if b_used b < newCapacity then b_used b else newCapacity);
            p = (if preserveContent then p\<lparr>cells := overwrite (cells p) 0 (take n (cells (b_ptr b)))\<rparr> else p);
            b = b\<lparr>b_ptr := p, b_capacity := newCapacity\<rparr>
        in Returns (if newCapacity < b_used b then b\<lparr>b_used := newCapacity\<rparr> else b)
      else Returns b)"

text \<open>Copying into the block, with the undefined case made visible.\<close>

definition store :: "nat \<Rightarrow> string \<Rightarrow> buffer \<Rightarrow> buffer outcome" where
  "store off xs b =
     (case memcpy (b_ptr b) off xs of Some p \<Rightarrow> Returns (b\<lparr>b_ptr := p\<rparr>) | None \<Rightarrow> Throws UndefinedBehaviour b)"

definition buffer_assign :: "(nat \<Rightarrow> char) \<Rightarrow> buffer \<Rightarrow> string \<Rightarrow> buffer outcome" where
  "buffer_assign junk b buf =
     (if buf = [] then Returns b
      else and_then
             (and_then (if length buf > b_capacity b then buffer_resize junk b (length buf) False else Returns b)
                (store 0 buf))
             (\<lambda>b. Returns (b\<lparr>b_used := length buf\<rparr>)))"

definition buffer_append :: "(nat \<Rightarrow> char) \<Rightarrow> buffer \<Rightarrow> string \<Rightarrow> buffer outcome" where
  "buffer_append junk b buf =
     (if buf = [] then Returns b
      else and_then (buffer_resize junk b (b_used b + length buf) True)
             (\<lambda>b. store (b_used b - length buf) buf b))"

definition buffer_append_val :: "(nat \<Rightarrow> char) \<Rightarrow> buffer \<Rightarrow> char \<Rightarrow> buffer outcome" where
  "buffer_append_val junk b val =
     and_then (buffer_resize junk b (b_used b + 1) True) (\<lambda>b. store (b_used b - 1) [val] b)"

text \<open>\<open>swap\<close> exchanges three of the four members: \<open>_ownMem\<close> stays where it is.\<close>

definition buffer_swap :: "buffer \<Rightarrow> buffer \<Rightarrow> buffer \<times> buffer" where
  "buffer_swap b other =
     (b\<lparr>b_ptr := b_ptr other, b_capacity := b_capacity other, b_used := b_used other\<rparr>,
      other\<lparr>b_ptr := b_ptr b, b_capacity := b_capacity b, b_used := b_used b\<rparr>)"

text \<open>The destructor must delete only memory that \<open>new\<close> gave.\<close>

definition destroy_ok :: "buffer \<Rightarrow> bool" where
  "destroy_ok b \<longleftrightarrow> (b_ownMem b \<longrightarrow> \<not> external (b_ptr b))"

definition buffer_operator_assign :: "buffer \<Rightarrow> buffer \<Rightarrow> buffer outcome" where
  "buffer_operator_assign b other =
     (case buffer_swap b (Buffer_copy other) of
        (b, tmp) \<Rightarrow> if destroy_ok tmp then Returns b else Throws UndefinedBehaviour b)"

definition buffer_equal :: "buffer \<Rightarrow> buffer \<Rightarrow> bool" where
  "buffer_equal b other \<longleftrightarrow>
     b_used b = b_used other
     \<and> take (b_used b) (cells (b_ptr b)) = take (b_used b) (cells (b_ptr other))"

definition buffer_clear :: "buffer \<Rightarrow> buffer outcome" where
  "buffer_clear b = store 0 (replicate (b_used b) (CHR 0x00)) b"

definition buffer_at :: "buffer \<Rightarrow> nat \<Rightarrow> exn + char" where
  "buffer_at b index =
     (if index < b_used b then Inr (cells (b_ptr b) ! index) else Inl AssertionViolation)"

section \<open>FIFO buffer\<close>

datatype event = Readable bool | Writable bool

record fifo =
  f_buffer :: buffer
  f_begin :: nat
  f_used :: nat
  f_notify :: bool
  f_eof :: bool
  f_error :: bool
  f_events :: "event list"

definition Fifo_new :: "(nat \<Rightarrow> char) \<Rightarrow> nat \<Rightarrow> bool \<Rightarrow> fifo" where
  "Fifo_new junk sz ntf =
     \<lparr>f_buffer = Buffer_new junk sz, f_begin = 0, f_used = 0, f_notify = ntf, f_eof = False,
      f_error = False, f_events = []\<rparr>"

definition Fifo_wrap :: "string \<Rightarrow> bool \<Rightarrow> fifo" where
  "Fifo_wrap mem ntf =
     \<lparr>f_buffer = Buffer_wrap mem, f_begin = 0, f_used = 0, f_notify = ntf, f_eof = False,
      f_error = False, f_events = []\<rparr>"

definition Fifo_from :: "string \<Rightarrow> bool \<Rightarrow> fifo" where
  "Fifo_from mem ntf =
     \<lparr>f_buffer = Buffer_from mem, f_begin = 0, f_used = length mem, f_notify = ntf, f_eof = False,
      f_error = False, f_events = []\<rparr>"

definition fsize :: "fifo \<Rightarrow> nat" where "fsize f = b_used (f_buffer f)"

definition isEmpty :: "fifo \<Rightarrow> bool" where "isEmpty f \<longleftrightarrow> f_used f = 0"
definition isFull :: "fifo \<Rightarrow> bool" where "isFull f \<longleftrightarrow> fsize f = f_used f"
definition isValid :: "fifo \<Rightarrow> bool" where "isValid f \<longleftrightarrow> \<not> f_error f"
definition isReadable :: "fifo \<Rightarrow> bool" where "isReadable f \<longleftrightarrow> \<not> isEmpty f \<and> isValid f"
definition isWritable :: "fifo \<Rightarrow> bool" where "isWritable f \<longleftrightarrow> \<not> isFull f \<and> isValid f \<and> \<not> f_eof f"
definition isEOF :: "fifo \<Rightarrow> bool" where "isEOF f \<longleftrightarrow> isEmpty f \<and> f_eof f"

text \<open>Subtraction of \<open>std::size_t\<close> wraps around.\<close>

definition sub64 :: "nat \<Rightarrow> nat \<Rightarrow> nat" where
  "sub64 a b = (if b \<le> a then a - b else 2 ^ 64 + a - b)"

definition available :: "fifo \<Rightarrow> nat" where "available f = sub64 (fsize f) (f_used f)"

definition fire :: "event \<Rightarrow> fifo \<Rightarrow> fifo" where
  "fire e f = f\<lparr>f_events := f_events f @ [e]\<rparr>"

definition notify :: "nat \<Rightarrow> fifo \<Rightarrow> fifo" where
  "notify usedBefore f =
     (let f = (if usedBefore = 0 \<and> f_used f > 0 then fire (Readable True) f
               else if usedBefore > 0 \<and> f_used f = 0 then fire (Readable False) f else f)
      in if usedBefore = fsize f \<and> f_used f < fsize f then fire (Writable True) f
         else if usedBefore < fsize f \<and> f_used f = fsize f then fire (Writable False) f else f)"

definition notify_if :: "nat \<Rightarrow> fifo \<Rightarrow> fifo" where
  "notify_if usedBefore f = (if f_notify f then notify usedBefore f else f)"

definition fifo_resize :: "(nat \<Rightarrow> char) \<Rightarrow> fifo \<Rightarrow> nat \<Rightarrow> bool \<Rightarrow> fifo outcome" where
  "fifo_resize junk f newSize preserveContent =
     (if preserveContent \<and> newSize < f_used f then
        Throws (InvalidAccessException ''Can not resize FIFO without data loss.'') f
      else let usedBefore = f_used f
           in case buffer_resize junk (f_buffer f) newSize preserveContent of
                Throws e b \<Rightarrow> Throws e (f\<lparr>f_buffer := b\<rparr>)
              | Returns b \<Rightarrow>
                  let f = f\<lparr>f_buffer := b\<rparr>;
                      f = (if \<not> preserveContent then f\<lparr>f_used := 0\<rparr> else f)
                  in Returns (notify_if usedBefore f))"

text \<open>The bytes of the block from an offset on, if they all lie in it.\<close>

definition load :: "buffer \<Rightarrow> nat \<Rightarrow> nat \<Rightarrow> string option" where
  "load b off n =
     (if off + n \<le> length (cells (b_ptr b)) then Some (take n (drop off (cells (b_ptr b)))) else None)"

definition peek :: "fifo \<Rightarrow> nat \<Rightarrow> exn + string" where
  "peek f len =
     (if len = 0 then Inr []
      else if \<not> isReadable f then Inr []
      else let len = (if len > f_used f then f_used f else len)
           in case load (f_buffer f) (f_begin f) len of Some xs \<Rightarrow> Inr xs | None \<Rightarrow> Inl UndefinedBehaviour)"

text \<open>\<open>peek\<close> into a buffer, which is resized to what it gets.\<close>

definition peek_buffer :: "(nat \<Rightarrow> char) \<Rightarrow> fifo \<Rightarrow> buffer \<Rightarrow> nat \<Rightarrow> (buffer \<times> nat) outcome" where
  "peek_buffer junk f b len =
     (if \<not> isReadable f then Returns (b, 0)
      else let len = (if len = 0 \<or> len > f_used f then f_used f else len)
           in case buffer_resize junk b len True of
                Throws e b \<Rightarrow> Throws e (b, 0)
              | Returns b \<Rightarrow>
                  (case peek f len of
                     Inl e \<Rightarrow> Throws e (b, 0)
                   | Inr xs \<Rightarrow> map_outcome_state (\<lambda>b. (b, length xs)) (store 0 xs b)))"

text \<open>What both forms of \<open>read\<close> do with the bytes that \<open>peek\<close> gave.\<close>

definition consume :: "fifo \<Rightarrow> nat \<Rightarrow> exn + string \<Rightarrow> (fifo \<times> string) outcome" where
  "consume f len r =
     (case r of
        Inl e \<Rightarrow> Throws e (f, [])
      | Inr xs \<Rightarrow>
          let usedBefore = f_used f
          in if length xs \<le> f_used f then
               let f = f\<lparr>f_used := f_used f - length xs\<rparr>;
                   f = (if f_used f = 0 then f\<lparr>f_begin := 0\<rparr> else f\<lparr>f_begin := f_begin f + len\<rparr>)
               in Returns (notify_if usedBefore f, xs)
             else Throws AssertionViolation (f, xs))"

definition fifo_read :: "fifo \<Rightarrow> nat \<Rightarrow> (fifo \<times> string) outcome" where
  "fifo_read f len =
     (if len = 0 then Returns (f, [])
      else if \<not> isReadable f then Returns (f, [])
      else consume f len (peek f len))"

definition fifo_read_buffer :: "(nat \<Rightarrow> char) \<Rightarrow> fifo \<Rightarrow> buffer \<Rightarrow> nat \<Rightarrow> (fifo \<times> buffer \<times> nat) outcome" where
  "fifo_read_buffer junk f b len =
     (if \<not> isReadable f then Returns (f, b, 0)
      else case peek_buffer junk f b len of
             Throws e (b, n) \<Rightarrow> Throws e (f, b, 0)
           | Returns (b, n) \<Rightarrow>
               map_outcome_state (\<lambda>(f, xs). (f, b, length xs))
                 (consume f len (Inr (take n (cells (b_ptr b))))))"

text \<open>The move of the window to the front of the block.\<close>

definition compact :: "fifo \<Rightarrow> fifo outcome" where
  "compact f =
     (case load (f_buffer f) (f_begin f) (f_used f) of
        None \<Rightarrow> Throws UndefinedBehaviour f
      | Some xs \<Rightarrow>
          (case store 0 xs (f_buffer f) of
             Returns b \<Rightarrow> Returns (f\<lparr>f_buffer := b, f_begin := 0\<rparr>)
           | Throws e b \<Rightarrow> Throws e f))"

definition put_bytes :: "string \<Rightarrow> fifo \<Rightarrow> (fifo \<times> nat) outcome" where
  "put_bytes xs f =
     (let usedBefore = f_used f;
          avail = sub64 (sub64 (fsize f) (f_used f)) (f_begin f);
          len = (if length xs > avail then avail else length xs)
      in case store (f_begin f + f_used f) (take len xs) (f_buffer f) of
           Throws e b \<Rightarrow> Throws e (f, 0)
         | Returns b \<Rightarrow>
             let f = f\<lparr>f_buffer := b, f_used := f_used f + len\<rparr>
             in if f_used f \<le> fsize f then Returns (notify_if usedBefore f, len)
                else Throws AssertionViolation (f, len))"

definition fifo_write :: "fifo \<Rightarrow> string \<Rightarrow> (fifo \<times> nat) outcome" where
  "fifo_write f xs =
     (if xs = [] then Returns (f, 0)
      else if \<not> isWritable f then Returns (f, 0)
      else case (if sub64 (fsize f) (f_begin f + f_used f) < length xs then compact f else Returns f) of
             Throws e f \<Rightarrow> Throws e (f, 0)
           | Returns f \<Rightarrow> put_bytes xs f)"

definition fifo_write_buffer :: "fifo \<Rightarrow> buffer \<Rightarrow> nat \<Rightarrow> (fifo \<times> nat) outcome" where
  "fifo_write_buffer f b len =
     (let n = (if len = 0 then b_used b else if len > b_used b then b_used b else len)
      in fifo_write f (take n (cells (b_ptr b))))"

definition drain :: "fifo \<Rightarrow> nat \<Rightarrow> fifo" where
  "drain f len =
     (let usedBefore = f_used f;
          f = (if len = 0 \<or> len \<ge> f_used f then f\<lparr>f_begin := 0, f_used := 0\<rparr>
               else f\<lparr>f_used := f_used f - len\<rparr>)
      in notify_if usedBefore f)"

definition fifo_copy :: "fifo \<Rightarrow> string \<Rightarrow> fifo outcome" where
  "fifo_copy f xs =
     (if xs = [] then Returns f
      else if length xs > available f then Throws (InvalidAccessException ''Cannot extend buffer.'') f
      else if \<not> isWritable f then Throws (InvalidAccessException ''Buffer not writable.'') f
      else if \<not> f_used f < fsize f then Throws AssertionViolation f
      else case store (f_used f) xs (f_buffer f) of
             Throws e b \<Rightarrow> Throws e f
           | Returns b \<Rightarrow>
               Returns (notify_if (f_used f) (f\<lparr>f_buffer := b, f_used := f_used f + length xs\<rparr>)))"

definition advance :: "fifo \<Rightarrow> nat \<Rightarrow> fifo outcome" where
  "advance f len =
     (if len > available f then Throws (InvalidAccessException ''Cannot extend buffer.'') f
      else if \<not> isWritable f then Throws (InvalidAccessException ''Buffer not writable.'') f
      else Returns (notify_if (f_used f) (f\<lparr>f_used := f_used f + len\<rparr>)))"

definition next_pos :: "fifo \<Rightarrow> exn + nat" where
  "next_pos f =
     (if available f = 0 then Inl (InvalidAccessException ''Buffer is full.'') else Inr (f_used f))"

text \<open>The numbers that \<open>format\<close> puts into the message are left out.\<close>

definition fifo_at :: "fifo \<Rightarrow> nat \<Rightarrow> exn + char" where
  "fifo_at f index =
     (if index \<ge> f_used f then Inl (InvalidAccessException ''Index out of bounds'')
      else buffer_at (f_buffer f) (f_begin f + index))"

definition setError :: "fifo \<Rightarrow> bool \<Rightarrow> fifo" where
  "setError f err =
     (if err then
        let f = (if isReadable f \<and> f_notify f then fire (Readable False) f else f);
            f = (if isWritable f \<and> f_notify f then fire (Writable False) f else f)
        in f\<lparr>f_error := True, f_used := 0\<rparr>
      else
        let f = f\<lparr>f_error := False\<rparr>
        in if f_notify f \<and> \<not> f_eof f then fire (Writable True) f else f)"

definition setEOF :: "fifo \<Rightarrow> bool \<Rightarrow> fifo" where
  "setEOF f eof =
     (let f = (if f_notify f then fire (Writable (\<not> eof)) f else f) in f\<lparr>f_eof := eof\<rparr>)"

definition setNotify :: "fifo \<Rightarrow> bool \<Rightarrow> fifo" where
  "setNotify f ntf = f\<lparr>f_notify := ntf\<rparr>"

section \<open>Invariant and content\<close>

definition buffer_inv :: "buffer \<Rightarrow> bool" where
  "buffer_inv b \<longleftrightarrow> length (cells (b_ptr b)) = b_capacity b \<and> b_used b \<le> b_capacity b"

definition fifo_inv :: "fifo \<Rightarrow> bool" where
  "fifo_inv f \<longleftrightarrow> buffer_inv (f_buffer f) \<and> f_begin f + f_used f \<le> fsize f"

text \<open>The content of the window: the abstract queue.\<close>

definition content :: "fifo \<Rightarrow> string" where
  "content f = take (f_used f) (drop (f_begin f) (cells (b_ptr (f_buffer f))))"

lemma fifo_inv_cells: "fifo_inv f \<Longrightarrow> f_begin f + f_used f \<le> length (cells (b_ptr (f_buffer f)))"
  by (simp add: fifo_inv_def buffer_inv_def fsize_def)

lemma length_content: "fifo_inv f \<Longrightarrow> length (content f) = f_used f"
  using fifo_inv_cells [of f] by (simp add: content_def)

lemma notify_fields [simp]:
  "f_buffer (notify_if n f) = f_buffer f" "f_begin (notify_if n f) = f_begin f"
  "f_used (notify_if n f) = f_used f" "f_notify (notify_if n f) = f_notify f"
  "f_eof (notify_if n f) = f_eof f" "f_error (notify_if n f) = f_error f"
  by (auto simp: notify_if_def notify_def fire_def Let_def)

lemma notify_keeps [simp]:
  "fsize (notify_if n f) = fsize f" "content (notify_if n f) = content f"
  "fifo_inv (notify_if n f) = fifo_inv f"
  by (simp_all add: fsize_def content_def fifo_inv_def)

lemma buffer_resize_inv:
  "buffer_inv b \<Longrightarrow> buffer_inv (state_of (buffer_resize junk b n p))"
  by (auto simp: buffer_resize_def buffer_inv_def alloc_def overwrite_def Let_def)

lemma setCapacity_inv:
  "buffer_inv b \<Longrightarrow> buffer_inv (state_of (setCapacity junk b n p))"
  by (auto simp: setCapacity_def buffer_inv_def alloc_def overwrite_def Let_def)

lemma store_inv: "buffer_inv b \<Longrightarrow> buffer_inv (state_of (store off xs b))"
  by (auto simp: store_def memcpy_def buffer_inv_def overwrite_def split: option.split)

lemma store_Returns:
  "off + length xs \<le> length (cells (b_ptr b)) \<Longrightarrow>
     store off xs b = Returns (b\<lparr>b_ptr := (b_ptr b)\<lparr>cells := overwrite (cells (b_ptr b)) off xs\<rparr>\<rparr>)"
  by (simp add: store_def memcpy_def)

lemma length_overwrite: "off + length xs \<le> length m \<Longrightarrow> length (overwrite m off xs) = length m"
  by (simp add: overwrite_def)

lemma take_drop_overwrite:
  "off + n + length xs \<le> length m \<Longrightarrow>
     take (n + length xs) (drop off (overwrite m (off + n) xs)) = take n (drop off m) @ xs"
  by (simp add: overwrite_def drop_take)

lemma take_overwrite_0: "length xs \<le> length m \<Longrightarrow> take (length xs) (overwrite m 0 xs) = xs"
  by (simp add: overwrite_def)

lemma buffer_append_content:
  assumes "buffer_inv b" "b_ownMem b"
  shows "\<exists>b'. buffer_append junk b xs = Returns b' \<and> buffer_inv b' \<and> b_used b' = b_used b + length xs
    \<and> take (b_used b') (cells (b_ptr b')) = take (b_used b) (cells (b_ptr b)) @ xs"
proof (cases "xs = []")
  case True
  then show ?thesis using assms by (simp add: buffer_append_def)
next
  case False
  define b1 where "b1 = state_of (buffer_resize junk b (b_used b + length xs) True)"
  have r: "buffer_resize junk b (b_used b + length xs) True = Returns b1"
    using assms by (simp add: b1_def buffer_resize_def Let_def)
  have i: "buffer_inv b1" "b_used b1 = b_used b + length xs"
    using buffer_resize_inv [OF assms(1), of junk "b_used b + length xs" True] assms(2)
    by (simp_all add: b1_def) (simp add: buffer_resize_def Let_def)
  have c: "take (b_used b) (cells (b_ptr b1)) = take (b_used b) (cells (b_ptr b))"
    using assms by (auto simp: b1_def buffer_resize_def buffer_inv_def alloc_def overwrite_def Let_def)
  let ?m = "cells (b_ptr b1)"
  have l: "b_used b + length xs \<le> length ?m" using i by (simp add: buffer_inv_def)
  have "buffer_append junk b xs = store (b_used b) xs b1" using False r i by (simp add: buffer_append_def)
  also have "\<dots> = Returns (b1\<lparr>b_ptr := (b_ptr b1)\<lparr>cells := overwrite ?m (b_used b) xs\<rparr>\<rparr>)"
    using l by (rule store_Returns)
  finally show ?thesis
    using i l c take_drop_overwrite [of 0 "b_used b" xs ?m] by (simp add: buffer_inv_def length_overwrite)
qed

section \<open>Reading and writing refine a bounded queue\<close>

lemma consume_spec:
  assumes "fifo_inv f" "0 < n" "n \<le> f_used f" "n < f_used f \<Longrightarrow> len = n"
  shows "\<exists>f'. consume f len (Inr (take n (content f))) = Returns (f', take n (content f)) \<and> fifo_inv f'
    \<and> content f' = drop n (content f) \<and> fsize f' = fsize f \<and> f_eof f' = f_eof f \<and> f_error f' = f_error f"
proof -
  have l: "length (take n (content f)) = n" using assms by (simp add: length_content)
  show ?thesis
  proof (cases "n = f_used f")
    case True
    then have "drop n (content f) = []" using assms(1) by (simp add: length_content)
    then show ?thesis
      using True assms l by (auto simp: consume_def Let_def fifo_inv_def fsize_def content_def)
  next
    case False
    then have "len = n" "n < f_used f" using assms by auto
    moreover have "take (f_used f - n) (drop (f_begin f + n) m) = drop n (take (f_used f) (drop (f_begin f) m))"
      for m :: string using \<open>n < f_used f\<close> by (simp add: drop_take add.commute)
    ultimately show ?thesis
      using assms l by (auto simp: consume_def Let_def fifo_inv_def fsize_def content_def)
  qed
qed

lemma peek_spec:
  assumes "fifo_inv f"
  shows "peek f len = Inr (if isReadable f then take len (content f) else [])"
proof -
  let ?n = "if len > f_used f then f_used f else len"
  have "f_begin f + ?n \<le> length (cells (b_ptr (f_buffer f)))" using fifo_inv_cells [OF assms] by auto
  then have "load (f_buffer f) (f_begin f) ?n = Some (take ?n (content f))"
    by (simp add: load_def content_def)
  moreover have "take ?n (content f) = take len (content f)" using length_content [OF assms] by simp
  ultimately show ?thesis by (simp add: peek_def Let_def)
qed

lemma fifo_read_spec:
  assumes "fifo_inv f"
  shows "\<exists>f'. fifo_read f len = Returns (f', if isReadable f then take len (content f) else [])
    \<and> fifo_inv f' \<and> content f' = (if isReadable f then drop len (content f) else content f)
    \<and> fsize f' = fsize f \<and> f_eof f' = f_eof f \<and> f_error f' = f_error f"
proof (cases "len = 0 \<or> \<not> isReadable f")
  case True
  then show ?thesis using assms by (auto simp: fifo_read_def)
next
  case False
  let ?n = "min len (f_used f)"
  have "take ?n (content f) = take len (content f)" "drop ?n (content f) = drop len (content f)"
    using length_content [OF assms] by (auto simp: min_def)
  moreover have "0 < ?n" "?n < f_used f \<Longrightarrow> len = ?n"
    using False by (auto simp: isReadable_def isEmpty_def)
  ultimately show ?thesis
    using consume_spec [OF assms, of ?n len] False peek_spec [OF assms, of len] by (simp add: fifo_read_def)
qed

lemma sub64_le [simp]: "b \<le> a \<Longrightarrow> sub64 a b = a - b"
  by (simp add: sub64_def)

lemma compact_spec:
  assumes "fifo_inv f"
  shows "\<exists>f'. compact f = Returns f' \<and> fifo_inv f' \<and> content f' = content f \<and> f_begin f' = 0
    \<and> f_used f' = f_used f \<and> fsize f' = fsize f \<and> f_eof f' = f_eof f \<and> f_error f' = f_error f"
proof -
  let ?m = "cells (b_ptr (f_buffer f))"
  have l: "length (content f) \<le> length ?m" "length (content f) = f_used f"
    using fifo_inv_cells [OF assms] length_content [OF assms] by auto
  have "load (f_buffer f) (f_begin f) (f_used f) = Some (content f)"
    using fifo_inv_cells [OF assms] by (simp add: load_def content_def)
  moreover have "take (f_used f) (overwrite ?m 0 (content f)) = content f"
    using take_overwrite_0 [OF l(1)] l(2) by simp
  ultimately show ?thesis
    using l assms store_Returns [of 0 "content f" "f_buffer f"]
    by (simp add: compact_def fifo_inv_def buffer_inv_def fsize_def length_overwrite)
      (simp add: content_def [of "f\<lparr>f_buffer := _, f_begin := _\<rparr>"])
qed

lemma put_bytes_spec:
  assumes "fifo_inv f"
  shows "let n = min (length xs) (fsize f - f_used f - f_begin f) in
    \<exists>f'. put_bytes xs f = Returns (f', n) \<and> fifo_inv f' \<and> content f' = content f @ take n xs
      \<and> fsize f' = fsize f \<and> f_eof f' = f_eof f \<and> f_error f' = f_error f"
proof -
  define n where "n = min (length xs) (fsize f - f_used f - f_begin f)"
  let ?m = "cells (b_ptr (f_buffer f))" and ?off = "f_begin f + f_used f"
  let ?b = "(f_buffer f)\<lparr>b_ptr := (b_ptr (f_buffer f))\<lparr>cells := overwrite ?m ?off (take n xs)\<rparr>\<rparr>"
  define g where "g = f\<lparr>f_buffer := ?b, f_used := f_used f + n\<rparr>"
  have inv: "?off \<le> fsize f" "fsize f \<le> length ?m" "length ?m = b_capacity (f_buffer f)"
    "b_used (f_buffer f) \<le> b_capacity (f_buffer f)"
    using assms by (auto simp: fifo_inv_def buffer_inv_def fsize_def)
  have n: "length (take n xs) = n" "?off + n \<le> fsize f" using inv(1) by (auto simp: n_def)
  then have l: "?off + length (take n xs) \<le> length ?m" using inv(2) by simp
  have avail: "sub64 (sub64 (fsize f) (f_used f)) (f_begin f) = fsize f - f_used f - f_begin f"
    using inv(1) by simp
  have len: "(if length xs > fsize f - f_used f - f_begin f then fsize f - f_used f - f_begin f else length xs) = n"
    by (auto simp: n_def)
  have size: "fsize g = fsize f" "f_used g \<le> fsize g" using n by (simp_all add: g_def fsize_def)
  have "put_bytes xs f = Returns (notify_if (f_used f) g, n)"
    using store_Returns [OF l] size unfolding put_bytes_def Let_def avail len by (simp add: g_def)
  moreover have "content g = content f @ take n xs"
    using take_drop_overwrite [OF l] n by (simp add: g_def content_def)
  moreover have "fifo_inv g"
    using inv n l by (simp add: g_def fifo_inv_def buffer_inv_def fsize_def length_overwrite)
  moreover have "f_eof g = f_eof f" "f_error g = f_error f" by (simp_all add: g_def)
  ultimately show ?thesis unfolding Let_def n_def [symmetric] using size by auto
qed

lemma fifo_write_spec:
  assumes "fifo_inv f"
  shows "let n = (if isWritable f then min (length xs) (fsize f - f_used f) else 0) in
    \<exists>f'. fifo_write f xs = Returns (f', n) \<and> fifo_inv f' \<and> content f' = content f @ take n xs
      \<and> fsize f' = fsize f \<and> f_eof f' = f_eof f \<and> f_error f' = f_error f"
proof (cases "xs = [] \<or> \<not> isWritable f")
  case True
  then show ?thesis using assms by (auto simp: fifo_write_def)
next
  case False
  have inv: "f_begin f + f_used f \<le> fsize f" using assms by (simp add: fifo_inv_def)
  show ?thesis
  proof (cases "fsize f - (f_begin f + f_used f) < length xs")
    case True
    obtain g where g: "compact f = Returns g" "fifo_inv g" "content g = content f" "f_begin g = 0"
      "f_used g = f_used f" "fsize g = fsize f" "f_eof g = f_eof f" "f_error g = f_error f"
      using compact_spec [OF assms] by blast
    then show ?thesis using put_bytes_spec [OF g(2), of xs] True False inv by (simp add: fifo_write_def Let_def)
  next
    case room: False
    then have "min (length xs) (fsize f - f_used f - f_begin f) = min (length xs) (fsize f - f_used f)"
      using inv by auto
    then show ?thesis using put_bytes_spec [OF assms, of xs] room False inv by (simp add: fifo_write_def Let_def)
  qed
qed

section \<open>Interleaved reads and writes\<close>

text \<open>A sequence of operations on a queue, with everything that was accepted and everything that was read.\<close>

datatype 'a fifo_op = Write "'a list" | Read nat

fun run_ops ::
  "('s \<Rightarrow> 'a list \<Rightarrow> ('s \<times> nat) outcome) \<Rightarrow> ('s \<Rightarrow> nat \<Rightarrow> ('s \<times> 'a list) outcome) \<Rightarrow>
   's \<Rightarrow> 'a fifo_op list \<Rightarrow> 'a list \<Rightarrow> 'a list \<Rightarrow> ('s \<times> 'a list \<times> 'a list) outcome" where
  "run_ops wr rd s [] accepted out = Returns (s, accepted, out)"
| "run_ops wr rd s (Write xs # ops) accepted out =
     (case wr s xs of
        Returns (s, n) \<Rightarrow> run_ops wr rd s ops (accepted @ take n xs) out
      | Throws e (s, n) \<Rightarrow> Throws e (s, accepted, out))"
| "run_ops wr rd s (Read k # ops) accepted out =
     (case rd s k of
        Returns (s, ys) \<Rightarrow> run_ops wr rd s ops accepted (out @ ys)
      | Throws e (s, ys) \<Rightarrow> Throws e (s, accepted, out))"

lemma run_ops_append:
  "run_ops wr rd s ops accepted out = Returns (s', accepted', out') \<Longrightarrow>
     run_ops wr rd s (ops @ rest) accepted out = run_ops wr rd s' rest accepted' out'"
proof (induction ops arbitrary: s accepted out)
  case (Cons op ops)
  then show ?case by (cases op) (auto split: outcome.splits prod.splits)
qed simp

text \<open>The contract of a bounded queue: a write appends a prefix of its data, a read takes a prefix of the
  content. A client sees its data in order, whatever the sequence of operations.\<close>

locale bounded_queue =
  fixes wr :: "'s \<Rightarrow> 'a list \<Rightarrow> ('s \<times> nat) outcome" and rd :: "'s \<Rightarrow> nat \<Rightarrow> ('s \<times> 'a list) outcome"
    and abst :: "'s \<Rightarrow> 'a list" and inv :: "'s \<Rightarrow> bool"
  assumes wr_appends: "inv s \<Longrightarrow> \<exists>s' n. wr s xs = Returns (s', n) \<and> inv s' \<and> abst s' = abst s @ take n xs"
    and rd_takes: "inv s \<Longrightarrow> \<exists>s' ys. rd s k = Returns (s', ys) \<and> inv s' \<and> abst s = ys @ abst s'"
    and rd_all: "inv s \<Longrightarrow> length (abst s) \<le> k \<Longrightarrow> \<exists>s'. rd s k = Returns (s', abst s) \<and> inv s' \<and> abst s' = []"
begin

lemma run_ops_order:
  assumes "inv s" "p @ accepted = out @ abst s"
  shows "\<exists>s' accepted' out'. run_ops wr rd s ops accepted out = Returns (s', accepted', out')
    \<and> inv s' \<and> p @ accepted' = out' @ abst s'"
  using assms
proof (induction ops arbitrary: s accepted out)
  case (Cons op ops)
  show ?case
  proof (cases op)
    case (Write xs)
    obtain s' n where w: "wr s xs = Returns (s', n)" "inv s'" "abst s' = abst s @ take n xs"
      using wr_appends [OF Cons.prems(1)] by blast
    then have "p @ accepted @ take n xs = out @ abst s'" using Cons.prems(2) by (metis append.assoc)
    then show ?thesis using Cons.IH [OF w(2)] w Write by simp
  next
    case (Read k)
    obtain s' ys where r: "rd s k = Returns (s', ys)" "inv s'" "abst s = ys @ abst s'"
      using rd_takes [OF Cons.prems(1)] by blast
    then have "p @ accepted = (out @ ys) @ abst s'" using Cons.prems(2) by simp
    then show ?thesis using Cons.IH [OF r(2)] r Read by simp
  qed
qed auto

lemma run_ops_drained:
  assumes "inv s" "run_ops wr rd s ops [] [] = Returns (s', accepted, out)" "length (abst s') \<le> k"
  shows "\<exists>t. run_ops wr rd s (ops @ [Read k]) [] [] = Returns (t, accepted, abst s @ accepted)"
proof -
  have "inv s'" "abst s @ accepted = out @ abst s'"
    using run_ops_order [OF assms(1), of "abst s" "[]" "[]" ops] assms(2) by auto
  then show ?thesis
    using rd_all [OF _ assms(3)] run_ops_append [OF assms(2), of "[Read k]"] by auto
qed

end

interpretation fifo: bounded_queue fifo_write fifo_read content "\<lambda>f. fifo_inv f \<and> \<not> f_error f"
proof
  fix s :: fifo and xs :: string
  assume s: "fifo_inv s \<and> \<not> f_error s"
  then show "\<exists>s' n. fifo_write s xs = Returns (s', n) \<and> (fifo_inv s' \<and> \<not> f_error s') \<and> content s' = content s @ take n xs"
    using fifo_write_spec [of s xs] by (auto simp: Let_def)
next
  fix s :: fifo and k :: nat
  assume s: "fifo_inv s \<and> \<not> f_error s"
  then show "\<exists>s' ys. fifo_read s k = Returns (s', ys) \<and> (fifo_inv s' \<and> \<not> f_error s') \<and> content s = ys @ content s'"
    using fifo_read_spec [of s k] by (cases "isReadable s") auto
  assume k: "length (content s) \<le> k"
  have "content s = [] \<longleftrightarrow> \<not> isReadable s"
    using s length_content [of s] by (auto simp: isReadable_def isEmpty_def isValid_def)
  then show "\<exists>s'. fifo_read s k = Returns (s', content s) \<and> (fifo_inv s' \<and> \<not> f_error s') \<and> content s' = []"
    using fifo_read_spec [of s k] s k by (cases "isReadable s") auto
qed

section \<open>Events\<close>

text \<open>What the last \<open>readable\<close> event said, \<open>False\<close> before the first.\<close>

fun last_readable :: "bool \<Rightarrow> event list \<Rightarrow> bool" where
  "last_readable b [] = b"
| "last_readable b (Readable c # es) = last_readable c es"
| "last_readable b (Writable c # es) = last_readable b es"

lemma last_readable_append [simp]: "last_readable b (es @ fs) = last_readable (last_readable b es) fs"
  by (induction b es rule: last_readable.induct) auto

definition events_agree :: "fifo \<Rightarrow> bool" where
  "events_agree f \<longleftrightarrow>
     f_notify f \<and> last_readable False (f_events f) = (f_used f > 0) \<and> (f_error f \<longrightarrow> f_used f = 0)"

lemma notify_agree:
  assumes "f_notify f" "last_readable False (f_events f) = (n > 0)" "f_error f \<longrightarrow> f_used f = 0"
  shows "events_agree (notify_if n f)"
  using assms by (auto simp: events_agree_def notify_if_def notify_def fire_def Let_def)

lemma drain_agree: "events_agree f \<Longrightarrow> events_agree (drain f n)"
  unfolding drain_def Let_def by (rule notify_agree) (auto simp: events_agree_def)

lemma setError_agree: "events_agree f \<Longrightarrow> events_agree (setError f e)"
  by (auto simp: events_agree_def setError_def fire_def isReadable_def isEmpty_def isValid_def Let_def)

lemma setEOF_agree: "events_agree f \<Longrightarrow> events_agree (setEOF f e)"
  by (auto simp: events_agree_def setEOF_def fire_def Let_def)

lemma consume_agree: "events_agree f \<Longrightarrow> events_agree (fst (state_of (consume f len r)))"
  by (auto simp: consume_def Let_def split: sum.split intro!: notify_agree) (auto simp: events_agree_def)

lemma fifo_read_agree: "events_agree f \<Longrightarrow> events_agree (fst (state_of (fifo_read f len)))"
  by (simp add: fifo_read_def consume_agree)

lemma compact_agree: "events_agree f \<Longrightarrow> events_agree (state_of (compact f))"
  by (auto simp: compact_def events_agree_def split: option.split outcome.split)

lemma put_bytes_agree: "events_agree f \<Longrightarrow> \<not> f_error f \<Longrightarrow> put_bytes xs f = Returns (f', n) \<Longrightarrow> events_agree f'"
  by (auto simp: put_bytes_def Let_def split: outcome.splits if_splits intro!: notify_agree)
    (auto simp: events_agree_def)

lemma fifo_write_agree:
  assumes "events_agree f" "fifo_write f xs = Returns (f', n)"
  shows "events_agree f'"
proof (cases "xs = [] \<or> \<not> isWritable f")
  case True
  then show ?thesis using assms by (auto simp: fifo_write_def split: if_splits)
next
  case False
  then obtain g where "put_bytes xs g = Returns (f', n)" "g = f \<or> compact f = Returns g"
    using assms(2) by (auto simp: fifo_write_def split: outcome.splits if_splits)
  moreover from this have "\<not> f_error g"
    using False by (auto simp: isWritable_def isValid_def compact_def split: option.splits outcome.splits)
  ultimately show ?thesis using compact_agree [OF assms(1)] put_bytes_agree assms(1) by auto
qed

section \<open>Properties\<close>

text \<open>C5: from a FIFO without error flag, every sequence of writes and reads runs without a throw and
  without undefined behaviour, keeps the invariant, and what was read, followed by what is still
  inside, is what was inside, followed by what was accepted: data leave in the order they came.
  One more read of the size gives everything that is left.\<close>

theorem fifo_order:
  assumes "fifo_inv f" "\<not> f_error f"
  shows "\<exists>f' accepted out. run_ops fifo_write fifo_read f ops [] [] = Returns (f', accepted, out)
    \<and> fifo_inv f' \<and> content f @ accepted = out @ content f'
    \<and> (\<exists>t. run_ops fifo_write fifo_read f (ops @ [Read (fsize f')]) [] [] = Returns (t, accepted, content f @ accepted))"
proof -
  obtain f' accepted out where r: "run_ops fifo_write fifo_read f ops [] [] = Returns (f', accepted, out)"
    "fifo_inv f'" "content f @ accepted = out @ content f'"
    using fifo.run_ops_order [of f "content f" "[]" "[]" ops] assms by auto
  have "length (content f') \<le> fsize f'" using r(2) length_content [OF r(2)] by (simp add: fifo_inv_def)
  then show ?thesis using fifo.run_ops_drained [OF _ r(1)] r assms by blast
qed

definition sample_fifo :: fifo where
  "sample_fifo = Fifo_new (\<lambda>_. CHR ''x'') 4 True"

lemmas sample_defs = sample_fifo_def Fifo_new_def Fifo_from_def Buffer_new_def Buffer_from_def alloc_def
  fifo_inv_def buffer_inv_def fsize_def content_def isWritable_def isFull_def isValid_def events_agree_def

theorem fifo_order_witness:
  "\<exists>f' accepted out. run_ops fifo_write fifo_read sample_fifo [Write ''abc'', Read 2, Write ''defg''] [] []
     = Returns (f', accepted, out) \<and> content sample_fifo @ accepted = out @ content f'"
proof -
  have "fifo_inv sample_fifo" "\<not> f_error sample_fifo" by (simp_all add: sample_defs)
  then show ?thesis using fifo_order [of sample_fifo "[Write ''abc'', Read 2, Write ''defg'']"] by blast
qed

text \<open>how much is written and read: a write accepts as much as is free, moving the window to the
  front when it must, and nothing when the FIFO is full, at its end of file or in error; a read
  gives as much as is asked for and there is.\<close>

theorem fifo_read_write_amount:
  assumes "fifo_inv f"
  shows "(\<exists>f' n. fifo_write f xs = Returns (f', n)
        \<and> n = (if isWritable f then min (length xs) (fsize f - f_used f) else 0)
        \<and> content f' = content f @ take n xs \<and> fifo_inv f' \<and> fsize f' = fsize f)
    \<and> (\<exists>f'. fifo_read f len = Returns (f', if isReadable f then take len (content f) else [])
        \<and> content f' = (if isReadable f then drop len (content f) else content f) \<and> fifo_inv f' \<and> fsize f' = fsize f)"
proof
  show "\<exists>f' n. fifo_write f xs = Returns (f', n)
        \<and> n = (if isWritable f then min (length xs) (fsize f - f_used f) else 0)
        \<and> content f' = content f @ take n xs \<and> fifo_inv f' \<and> fsize f' = fsize f"
    using fifo_write_spec [OF assms, of xs] unfolding Let_def by blast
  show "\<exists>f'. fifo_read f len = Returns (f', if isReadable f then take len (content f) else [])
        \<and> content f' = (if isReadable f then drop len (content f) else content f) \<and> fifo_inv f' \<and> fsize f' = fsize f"
    using fifo_read_spec [OF assms, of len] by blast
qed

theorem fifo_read_write_amount_witness:
  "\<exists>f' n. fifo_write sample_fifo ''abcdef'' = Returns (f', n) \<and> n = 4 \<and> content f' = ''abcd''"
proof -
  have i: "fifo_inv sample_fifo" "isWritable sample_fifo" "fsize sample_fifo = 4" "f_used sample_fifo = 0"
    "content sample_fifo = []" by (simp_all add: sample_defs)
  show ?thesis using fifo_read_write_amount [OF i(1), of "''abcdef''" 0] i(2-) by auto
qed



text \<open>C35: \<open>drain\<close> of a part of the content does not move the beginning of the window: it drops the newest
  elements instead of the oldest.\<close>

theorem fifo_drain_drops_newest:
  assumes "fifo_inv f" "0 < n" "n < f_used f"
  shows "content (drain f n) = take (f_used f - n) (content f)"
  using assms by (simp add: drain_def Let_def) (simp add: content_def)

theorem fifo_drain_drops_newest_witness:
  "\<exists>f. fifo_inv f \<and> content f = ''abc'' \<and> content (drain f 1) = ''ab''"
proof -
  let ?f = "Fifo_from ''abc'' False"
  have i: "fifo_inv ?f" "f_used ?f = 3" "content ?f = ''abc''" by (simp_all add: sample_defs)
  then show ?thesis using fifo_drain_drops_newest [OF i(1), of 1] by auto
qed

text \<open>\<open>copy\<close>, \<open>advance\<close> and a shrinking \<open>resize\<close> ignore where the window begins. After a read that left data,
  \<open>copy\<close> stores its bytes before the end of the content, \<open>advance\<close> makes the window reach beyond the
  buffer, and so does \<open>resize\<close>, after which a write of a few bytes goes beyond the memory.\<close>

definition half_read_fifo :: fifo where
  "half_read_fifo = (Fifo_new (\<lambda>_. CHR ''x'') 4 False)\<lparr>f_begin := 2, f_used := 1,
     f_buffer := Buffer_from ''abcd''\<rparr>"

lemmas fifo_ops = fifo_copy_def advance_def fifo_resize_def buffer_resize_def fifo_write_def put_bytes_def
  store_def overwrite_def memcpy_def available_def sub64_def notify_if_def notify_def fire_def Let_def

theorem fifo_window_ignored:
  "fifo_inv half_read_fifo \<and> content half_read_fifo = ''c''
   \<and> (\<exists>f'. fifo_copy half_read_fifo ''z'' = Returns f' \<and> content f' = ''cd'')
   \<and> (\<exists>f'. advance half_read_fifo 3 = Returns f' \<and> \<not> fifo_inv f')
   \<and> (\<exists>f' e. fifo_resize (\<lambda>_. CHR ''x'') half_read_fifo 2 True = Returns f' \<and> \<not> fifo_inv f'
        \<and> fifo_write f' ''12'' = Throws UndefinedBehaviour e)"
proof -
  let ?f = half_read_fifo
  have c: "fifo_copy ?f ''z'' = Returns (?f\<lparr>f_buffer := Buffer_from ''azcd'', f_used := 2\<rparr>)"
    "advance ?f 3 = Returns (?f\<lparr>f_used := 4\<rparr>)"
    "fifo_resize (\<lambda>_. CHR ''x'') ?f 2 True = Returns (?f\<lparr>f_buffer := (Buffer_from ''abcd'')\<lparr>b_used := 2\<rparr>\<rparr>)"
    by (simp_all add: half_read_fifo_def fifo_ops sample_defs)
  have w: "fifo_write (?f\<lparr>f_buffer := (Buffer_from ''abcd'')\<lparr>b_used := 2\<rparr>\<rparr>) ''12''
      = Throws UndefinedBehaviour (?f\<lparr>f_buffer := (Buffer_from ''abcd'')\<lparr>b_used := 2\<rparr>\<rparr>, 0)"
    by (simp add: half_read_fifo_def fifo_ops sample_defs)
  have i: "fifo_inv ?f" "content ?f = ''c''" "content (?f\<lparr>f_buffer := Buffer_from ''azcd'', f_used := 2\<rparr>) = ''cd''"
    "\<not> fifo_inv (?f\<lparr>f_used := 4\<rparr>)" "\<not> fifo_inv (?f\<lparr>f_buffer := (Buffer_from ''abcd'')\<lparr>b_used := 2\<rparr>\<rparr>)"
    by (simp_all add: half_read_fifo_def sample_defs)
  show ?thesis using c w i by blast
qed

text \<open>assigning to a buffer that wraps memory of the caller: \<open>swap\<close> leaves \<open>_ownMem\<close> behind, so the
  destructor of the temporary deletes the caller's memory.\<close>

theorem buffer_assign_deletes_wrapped:
  "buffer_operator_assign (Buffer_wrap mem) other =
     Throws UndefinedBehaviour ((Buffer_copy other)\<lparr>b_ownMem := False\<rparr>)"
  by (simp add: buffer_operator_assign_def buffer_swap_def destroy_ok_def Buffer_copy_def Buffer_wrap_def)

end
