(* ===== verification/UTF8Encoding.thy ===== *)
theory UTF8Encoding
  imports Strings
begin

text \<open>
  \<open>Poco::UTF8Encoding\<close>: which byte sequences are legal, and the conversion between a character
  code and its bytes. A byte array is the list of the bytes that may be read; reading behind
  its end is \<open>UndefinedBehaviour\<close>. The lemmas give the conversions as arithmetic, and show that the
  two directions are inverse.
\<close>

unbundle bit_operations_syntax

section \<open>Bytes and tables\<close>

definition byte :: "char \<Rightarrow> int" where
  "byte c = int (uchar c)"

text \<open>What the first byte of a sequence says: the character itself, or minus the length of the
  sequence, or \<open>-1\<close> for a byte that starts none. Equal neighbours are written as one run.\<close>

definition charMap :: "int list" where
  "charMap =
     map int [0..<128] @ replicate 64 (-1) @ replicate 32 (-2) @ replicate 16 (-3) @
     replicate 8 (-4) @ replicate 4 (-5) @ replicate 2 (-6) @ replicate 2 (-1)"

definition names :: "string list" where
  "names = [''UTF-8'', ''UTF8'']"

definition isA :: "string \<Rightarrow> bool" where
  "isA encodingName = list_ex (\<lambda>name. icompare encodingName name = 0) names"

section \<open>Legal sequences\<close>

text \<open>The test of a byte after the second one, and of the second byte, which depends on the first.\<close>

definition continuation :: "int \<Rightarrow> bool" where
  "continuation a \<longleftrightarrow> \<not> (a < 0x80 \<or> a > 0xBF)"

definition second_byte :: "int \<Rightarrow> int \<Rightarrow> bool" where
  "second_byte b a \<longleftrightarrow>
     \<not> a > 0xBF \<and>
     (if b = 0xE0 then \<not> a < 0xA0
      else if b = 0xED then \<not> a > 0x9F
      else if b = 0xF0 then \<not> a < 0x90
      else if b = 0xF4 then \<not> a > 0x8F
      else \<not> a < 0x80)"

text \<open>\<open>isLegal\<close>: the cases of the \<open>switch\<close> fall through from the given length to one. Bytes behind the end
  of the list are not the caller's to read.\<close>

definition isLegal :: "string \<Rightarrow> int \<Rightarrow> exn + bool" where
  "isLegal bytes len =
     (if len \<notin> {1, 2, 3, 4} then Inr False
      else if length bytes < nat len then Inl UndefinedBehaviour
      else let b = (\<lambda>i. byte (bytes ! i))
           in Inr ((len \<ge> 4 \<longrightarrow> continuation (b 3)) \<and> (len \<ge> 3 \<longrightarrow> continuation (b 2))
                \<and> (len \<ge> 2 \<longrightarrow> second_byte (b 0) (b 1))
                \<and> \<not> (b 0 \<ge> 0x80 \<and> b 0 < 0xC2) \<and> b 0 \<le> 0xF4))"

section \<open>Conversion\<close>

text \<open>The loop \<open>while (n++ < -1) { uc <<= 6; uc |= (*++bytes & 0x3F); }\<close>.\<close>

fun trail_loop :: "nat \<Rightarrow> int \<Rightarrow> string \<Rightarrow> int" where
  "trail_loop 0 uc bytes = uc"
| "trail_loop (Suc n) uc bytes = trail_loop n (push_bit 6 uc OR (byte (hd bytes) AND 0x3F)) (tl bytes)"

definition decode_sequence :: "int \<Rightarrow> string \<Rightarrow> exn + int" where
  "decode_sequence n bytes =
     (if n \<in> {-6, -5, -1} then Inr (-1)
      else if n \<in> {-4, -3, -2} then
        (case isLegal bytes (- n) of
           Inl e \<Rightarrow> Inl e
         | Inr legal \<Rightarrow>
             if \<not> legal then Inr (-1)
             else let uc = byte (hd bytes) AND (push_bit (nat (n + 4)) 0x07 OR 0x03)
                  in Inr (trail_loop (nat (- n - 1)) uc (tl bytes)))
      else Inr n)"

definition convert :: "string \<Rightarrow> exn + int" where
  "convert bytes =
     (if bytes = [] then Inl UndefinedBehaviour else decode_sequence (charMap ! uchar (hd bytes)) bytes)"

definition queryConvert :: "string \<Rightarrow> int \<Rightarrow> exn + int" where
  "queryConvert bytes len =
     (if bytes = [] then Inl UndefinedBehaviour
      else let n = charMap ! uchar (hd bytes)
           in if - n > len then Inr n else decode_sequence n bytes)"

definition sequenceLength :: "string \<Rightarrow> int \<Rightarrow> exn + int" where
  "sequenceLength bytes len =
     (if 1 \<le> len then
        (if bytes = [] then Inl UndefinedBehaviour
         else let cc = charMap ! uchar (hd bytes) in Inr (if cc \<ge> 0 then 1 else - cc))
      else Inr (-1))"

text \<open>The other direction: the number of bytes of a character, and the bytes themselves when they fit.\<close>

definition convert_char :: "int \<Rightarrow> int \<Rightarrow> int \<times> string" where
  "convert_char ch len =
     (if ch \<le> 0x7F then (1, if len \<ge> 1 then [to_char ch] else [])
      else if ch \<le> 0x7FF then
        (2, if len \<ge> 2 then
              [to_char (drop_bit 6 ch AND 0x1F OR 0xC0), to_char (ch AND 0x3F OR 0x80)] else [])
      else if ch \<le> 0xFFFF then
        (3, if len \<ge> 3 then
              [to_char (drop_bit 12 ch AND 0x0F OR 0xE0), to_char (drop_bit 6 ch AND 0x3F OR 0x80),
               to_char (ch AND 0x3F OR 0x80)] else [])
      else if ch \<le> 0x10FFFF then
        (4, if len \<ge> 4 then
              [to_char (drop_bit 18 ch AND 0x07 OR 0xF0), to_char (drop_bit 12 ch AND 0x3F OR 0x80),
               to_char (drop_bit 6 ch AND 0x3F OR 0x80), to_char (ch AND 0x3F OR 0x80)] else [])
      else (0, []))"

section \<open>Arithmetic of the bit operations\<close>

lemma byte_bounds [simp]: "0 \<le> byte c" "byte c < 256"
proof -
  have "uchar c < 256" by simp
  then show "0 \<le> byte c" "byte c < 256" unfolding byte_def by linarith+
qed

lemma byte_to_char [simp]: "byte (to_char n) = n mod 256"
  by (simp add: byte_def to_char_def uchar_def of_nat_of_char)

lemma to_char_of_byte [simp]: "to_char (byte c) = c"
  by (simp add: byte_def to_char_nat)

lemma byte_inject [simp]: "byte c = byte d \<longleftrightarrow> c = d"
  by (metis to_char_of_byte)

lemma and_masks:
  "(x :: int) AND 0x3F = x mod 64" "x AND 0x1F = x mod 32" "x AND 0x0F = x mod 16" "x AND 0x07 = x mod 8"
proof -
  have "x AND 0x3F = take_bit 6 x" "x AND 0x1F = take_bit 5 x" "x AND 0x0F = take_bit 4 x" "x AND 0x07 = take_bit 3 x"
    by (simp_all add: take_bit_eq_mask mask_eq_exp_minus_1)
  then show "x AND 0x3F = x mod 64" "x AND 0x1F = x mod 32" "x AND 0x0F = x mod 16" "x AND 0x07 = x mod 8"
    by (simp_all add: take_bit_eq_mod)
qed

lemma or_leads:
  "(x :: int) mod 64 OR 0x80 = x mod 64 + 0x80" "x mod 32 OR 0xC0 = x mod 32 + 0xC0"
  "x mod 16 OR 0xE0 = x mod 16 + 0xE0" "x mod 8 OR 0xF0 = x mod 8 + 0xF0"
proof -
  have l: "list_all (\<lambda>y::int. y OR 0x80 = y + 0x80) [0..63]" "list_all (\<lambda>y::int. y OR 0xC0 = y + 0xC0) [0..31]"
    "list_all (\<lambda>y::int. y OR 0xE0 = y + 0xE0) [0..15]" "list_all (\<lambda>y::int. y OR 0xF0 = y + 0xF0) [0..7]"
    by code_simp+
  show "x mod 64 OR 0x80 = x mod 64 + 0x80" "x mod 32 OR 0xC0 = x mod 32 + 0xC0"
    "x mod 16 OR 0xE0 = x mod 16 + 0xE0" "x mod 8 OR 0xF0 = x mod 8 + 0xF0"
    using l by (auto simp: list_all_iff)
qed

lemma or_shift: "push_bit 6 uc OR (b mod 64) = uc * 64 + (b :: int) mod 64"
proof -
  have "push_bit 6 uc OR take_bit 6 b = concat_bit 6 b uc"
    by (simp add: concat_bit_def or.commute)
  also have "\<dots> = take_bit 6 b + push_bit 6 uc" by (simp add: concat_bit_eq)
  finally show ?thesis by (simp add: take_bit_eq_mod push_bit_eq_mult)
qed

lemma charMap_nth:
  assumes "n < 256"
  shows "charMap ! n =
    (if n < 0x80 then int n else if n < 0xC0 then -1 else if n < 0xE0 then -2 else if n < 0xF0 then -3
     else if n < 0xF8 then -4 else if n < 0xFC then -5 else if n < 0xFE then -6 else -1)"
  using assms by (auto simp: charMap_def nth_append)

lemma charMap_byte:
  "charMap ! uchar c =
    (if byte c < 0x80 then byte c else if byte c < 0xC0 then -1 else if byte c < 0xE0 then -2
     else if byte c < 0xF0 then -3 else if byte c < 0xF8 then -4 else if byte c < 0xFC then -5
     else if byte c < 0xFE then -6 else -1)"
  using charMap_nth [of "uchar c"] by (simp add: byte_def)


section \<open>Encoded characters\<close>

lemma convert_char_arith:
  assumes "0 \<le> ch" "ch \<le> 0x10FFFF"
  shows "convert_char ch 4 =
    (if ch < 0x80 then (1, [to_char ch])
     else if ch < 0x800 then (2, [to_char (ch div 64 + 0xC0), to_char (ch mod 64 + 0x80)])
     else if ch < 0x10000 then
       (3, [to_char (ch div 4096 + 0xE0), to_char (ch div 64 mod 64 + 0x80), to_char (ch mod 64 + 0x80)])
     else (4, [to_char (ch div 262144 + 0xF0), to_char (ch div 4096 mod 64 + 0x80),
               to_char (ch div 64 mod 64 + 0x80), to_char (ch mod 64 + 0x80)]))"
proof -
  have "ch < 0x800 \<Longrightarrow> ch div 64 mod 32 OR 0xC0 = ch div 64 + 0xC0"
    "ch < 0x10000 \<Longrightarrow> ch div 4096 mod 16 OR 0xE0 = ch div 4096 + 0xE0"
    "ch div 262144 mod 8 OR 0xF0 = ch div 262144 + 0xF0"
    unfolding or_leads using assms by auto
  then show ?thesis using assms
    by (simp add: convert_char_def drop_bit_eq_div and_masks or_leads)
qed

lemma trail_loop_arith:
  "trail_loop (Suc n) uc (b # bs) = trail_loop n (uc * 64 + byte b mod 64) bs"
  by (simp add: and_masks or_shift)

lemmas sequence_simps = convert_def charMap_byte decode_sequence_def isLegal_def second_byte_def
  continuation_def and_masks trail_loop_arith

lemma decode_one: "byte a < 0x80 \<Longrightarrow> convert (a # rest) = Inr (byte a)"
  using byte_bounds [of a] by (auto simp: sequence_simps simp del: byte_bounds trail_loop.simps(2))

lemma decode_two:
  assumes "0xC0 \<le> byte a" "byte a < 0xE0"
  shows "convert (a # b # rest) =
    Inr (if 0xC2 \<le> byte a \<and> second_byte (byte a) (byte b) then byte a mod 32 * 64 + byte b mod 64 else -1)"
proof -
  have "trail_loop 1 (byte a mod 32) (b # rest) = byte a mod 32 * 64 + byte b mod 64"
    using trail_loop_arith [of 0] by simp
  then show ?thesis using assms by (simp add: convert_def charMap_byte decode_sequence_def isLegal_def and_masks del: trail_loop.simps(2))
qed

lemma decode_three:
  assumes "0xE0 \<le> byte a" "byte a < 0xF0"
  shows "convert (a # b # c # rest) =
    Inr (if second_byte (byte a) (byte b) \<and> continuation (byte c)
         then (byte a mod 16 * 64 + byte b mod 64) * 64 + byte c mod 64 else -1)"
proof -
  have "trail_loop 2 (byte a mod 16) (b # c # rest) = (byte a mod 16 * 64 + byte b mod 64) * 64 + byte c mod 64"
    using trail_loop_arith [of 1 "byte a mod 16" b] trail_loop_arith [of 0 _ c] by (simp add: numeral_2_eq_2 del: trail_loop.simps(2))
  then show ?thesis using assms by (simp add: convert_def charMap_byte decode_sequence_def isLegal_def and_masks del: trail_loop.simps(2))
qed

lemma decode_four:
  assumes "0xF0 \<le> byte a" "byte a < 0xF8"
  shows "convert (a # b # c # d # rest) =
    Inr (if byte a \<le> 0xF4 \<and> second_byte (byte a) (byte b) \<and> continuation (byte c) \<and> continuation (byte d)
         then ((byte a mod 8 * 64 + byte b mod 64) * 64 + byte c mod 64) * 64 + byte d mod 64 else -1)"
proof -
  have "trail_loop 3 (byte a mod 8) (b # c # d # rest)
      = ((byte a mod 8 * 64 + byte b mod 64) * 64 + byte c mod 64) * 64 + byte d mod 64"
    using trail_loop_arith [of 2 "byte a mod 8" b] trail_loop_arith [of 1 _ c] trail_loop_arith [of 0 _ d]
    by (simp add: numeral_eq_Suc del: trail_loop.simps(2))
  then show ?thesis using assms by (simp add: convert_def charMap_byte decode_sequence_def isLegal_def and_masks del: trail_loop.simps(2))
qed

text \<open>A Unicode scalar value: a code point that is not a surrogate.\<close>

definition scalar :: "int \<Rightarrow> bool" where
  "scalar ch \<longleftrightarrow> 0 \<le> ch \<and> ch \<le> 0x10FFFF \<and> \<not> (0xD800 \<le> ch \<and> ch \<le> 0xDFFF)"

definition encoded :: "int \<Rightarrow> string" where
  "encoded ch = snd (convert_char ch 4)"

lemma div_bounds:
  assumes "0 \<le> ch" "ch \<le> (0x10FFFF :: int)"
  shows "0 \<le> ch div 262144" "ch div 262144 \<le> 4"
proof -
  have "ch div 262144 \<le> 0x10FFFF div 262144" using assms by (intro zdiv_mono1) simp_all
  then show "ch div 262144 \<le> 4" by simp
qed (use assms in \<open>simp add: pos_imp_zdiv_nonneg_iff\<close>)

lemma byte_small: "0 \<le> x \<Longrightarrow> x < 256 \<Longrightarrow> byte (to_char x) = x"
  by simp

lemma byte_trail: "byte (to_char (x mod 64 + 0x80)) = x mod 64 + 0x80"
proof (rule byte_small)
  show "0 \<le> x mod 64 + 0x80" "x mod 64 + 0x80 < 256"
    using pos_mod_bound [of 64 x] pos_mod_sign [of 64 x] by linarith+
qed

lemma encoded_cases:
  assumes "scalar ch"
  obtains (one) "ch < 0x80" "encoded ch = [to_char ch]" "fst (convert_char ch 4) = 1"
  | (two) a b where "0x80 \<le> ch" "ch < 0x800" "encoded ch = [a, b]" "fst (convert_char ch 4) = 2"
      "byte a = ch div 64 + 0xC0" "byte b = ch mod 64 + 0x80"
  | (three) a b c where "0x800 \<le> ch" "ch < 0x10000" "encoded ch = [a, b, c]" "fst (convert_char ch 4) = 3"
      "byte a = ch div 4096 + 0xE0" "byte b = ch div 64 mod 64 + 0x80" "byte c = ch mod 64 + 0x80"
  | (four) a b c d where "0x10000 \<le> ch" "ch \<le> 0x10FFFF" "encoded ch = [a, b, c, d]" "fst (convert_char ch 4) = 4"
      "byte a = ch div 262144 + 0xF0" "byte b = ch div 4096 mod 64 + 0x80" "byte c = ch div 64 mod 64 + 0x80"
      "byte d = ch mod 64 + 0x80"
proof -
  have s: "0 \<le> ch" "ch \<le> 0x10FFFF" using assms by (auto simp: scalar_def)
  note conv = convert_char_arith [OF s]
  consider "ch < 0x80" | "0x80 \<le> ch" "ch < 0x800" | "0x800 \<le> ch" "ch < 0x10000" | "0x10000 \<le> ch" by linarith
  then show thesis
  proof cases
    case 1
    then show thesis by (intro one) (simp_all add: encoded_def conv)
  next
    case 2
    then have "byte (to_char (ch div 64 + 0xC0)) = ch div 64 + 0xC0" by (intro byte_small) auto
    then show thesis
      by (intro two [of "to_char (ch div 64 + 0xC0)" "to_char (ch mod 64 + 0x80)", OF 2])
        (use 2 in \<open>simp_all add: encoded_def conv byte_trail del: byte_to_char\<close>)
  next
    case 3
    then have "byte (to_char (ch div 4096 + 0xE0)) = ch div 4096 + 0xE0" by (intro byte_small) auto
    then show thesis
      by (intro three [of "to_char (ch div 4096 + 0xE0)" "to_char (ch div 64 mod 64 + 0x80)"
            "to_char (ch mod 64 + 0x80)", OF 3])
        (use 3 in \<open>simp_all add: encoded_def conv byte_trail del: byte_to_char\<close>)
  next
    case 4
    have "byte (to_char (q + 0xF0)) = q + 0xF0" if "0 \<le> q" "q \<le> 4" for q
      using that by (intro byte_small) auto
    note b = this [OF div_bounds [OF s]]
    have e: "convert_char ch 4 = (4, [to_char (ch div 262144 + 0xF0), to_char (ch div 4096 mod 64 + 0x80),
               to_char (ch div 64 mod 64 + 0x80), to_char (ch mod 64 + 0x80)])"
      using 4 unfolding conv by simp
    show thesis
      by (rule four [of "to_char (ch div 262144 + 0xF0)" "to_char (ch div 4096 mod 64 + 0x80)"
            "to_char (ch div 64 mod 64 + 0x80)" "to_char (ch mod 64 + 0x80)", OF 4 s(2)])
        (simp_all only: encoded_def e byte_trail b fst_conv snd_conv)
  qed
qed

lemma recompose:
  "(ch :: int) div 64 * 64 + ch mod 64 = ch"
  "(ch div 4096 * 64 + ch div 64 mod 64) * 64 + ch mod 64 = ch"
  "((ch div 262144 * 64 + ch div 4096 mod 64) * 64 + ch div 64 mod 64) * 64 + ch mod 64 = ch"
proof -
  have d: "ch div 4096 = ch div 64 div 64" "ch div 262144 = ch div 64 div 64 div 64"
    by (simp_all add: zdiv_zmult2_eq [symmetric])
  have h: "x div 64 * 64 + x mod 64 = x" for x :: int by simp
  show "ch div 64 * 64 + ch mod 64 = ch"
    "(ch div 4096 * 64 + ch div 64 mod 64) * 64 + ch mod 64 = ch"
    "((ch div 262144 * 64 + ch div 4096 mod 64) * 64 + ch div 64 mod 64) * 64 + ch mod 64 = ch"
    unfolding d h by (rule refl)+
qed

lemma second_byte_three:
  fixes q r t :: int
  assumes "0x800 \<le> (q * 64 + r) * 64 + t" "\<not> (0xD800 \<le> (q * 64 + r) * 64 + t \<and> (q * 64 + r) * 64 + t \<le> 0xDFFF)"
    "(q * 64 + r) * 64 + t < 0x10000" "0 \<le> r" "r < 64" "0 \<le> t" "t < 64"
  shows "second_byte (q + 0xE0) (r + 0x80)"
proof -
  have "q = 0 \<Longrightarrow> 0x20 \<le> r" "q = 0xD \<Longrightarrow> r < 0x20" "q < 16" using assms by auto
  then show ?thesis using assms(4,5) unfolding second_byte_def by auto
qed

lemma second_byte_four:
  fixes q r t u :: int
  assumes "0x10000 \<le> ((q * 64 + r) * 64 + t) * 64 + u" "((q * 64 + r) * 64 + t) * 64 + u \<le> 0x10FFFF"
    "0 \<le> q" "0 \<le> r" "r < 64" "0 \<le> t" "t < 64" "0 \<le> u" "u < 64"
  shows "second_byte (q + 0xF0) (r + 0x80)"
proof -
  have "q = 0 \<Longrightarrow> 0x10 \<le> r" "q = 4 \<Longrightarrow> r < 0x10" using assms by auto
  then show ?thesis using assms(3-5) unfolding second_byte_def by auto
qed

lemma convert_encoded:
  assumes "scalar ch"
  shows "convert (encoded ch @ rest) = Inr ch"
  using assms
proof (cases rule: encoded_cases)
  case one
  then show ?thesis using assms by (simp add: decode_one scalar_def)
next
  case (two a b)
  have "ch div 64 < 32" "2 \<le> ch div 64" using two(1,2) by auto
  then have ab: "0xC2 \<le> byte a" "0xC0 \<le> byte a" "byte a < 0xE0" "second_byte (byte a) (byte b)"
    unfolding second_byte_def two(5,6) by auto
  have "byte a mod 32 = ch div 64" "byte b mod 64 = ch mod 64"
    unfolding two(5,6) using \<open>ch div 64 < 32\<close> \<open>2 \<le> ch div 64\<close> by (simp_all add: mod_add_eq [symmetric])
  then show ?thesis using decode_two [OF ab(2,3)] ab(1,4) two(3) recompose(1) by simp
next
  case (three a b c)
  have l: "0 \<le> ch div 4096" "ch div 4096 < 16" using three(1,2) by auto
  then have ab: "0xE0 \<le> byte a" "byte a < 0xF0" "continuation (byte c)"
    unfolding continuation_def three(5,7) by auto
  have s: "second_byte (byte a) (byte b)"
    unfolding three(5,6) by (rule second_byte_three [of _ _ "ch mod 64"])
      (use assms three(1,2) in \<open>simp_all only: recompose scalar_def pos_mod_bound pos_mod_sign zero_less_numeral simp_thms\<close>)
  have m: "byte a mod 16 = ch div 4096" "byte b mod 64 = ch div 64 mod 64" "byte c mod 64 = ch mod 64"
    unfolding three(5-7) using l by (simp_all add: mod_add_eq [symmetric])
  have "convert ([a, b, c] @ rest) = Inr ((byte a mod 16 * 64 + byte b mod 64) * 64 + byte c mod 64)"
    using decode_three [OF ab(1,2)] ab(3) s by (simp only: append.simps simp_thms if_True)
  then show ?thesis unfolding m recompose three(3) .
next
  case (four a b c d)
  have "0 \<le> ch" using assms by (simp add: scalar_def)
  note l = div_bounds [OF this four(2)]
  have cb: "continuation (x mod 64 + 0x80)" for x
    unfolding continuation_def using pos_mod_bound [of 64 x] pos_mod_sign [of 64 x] by linarith
  have ab: "0xF0 \<le> byte a" "byte a \<le> 0xF4" "byte a < 0xF8" "continuation (byte c)" "continuation (byte d)"
    unfolding four(5,7,8) using l cb by simp_all
  have s: "second_byte (byte a) (byte b)"
    unfolding four(5,6) by (rule second_byte_four [of _ _ "ch div 64 mod 64" "ch mod 64"])
      (use four(1,2) l in \<open>simp_all only: recompose pos_mod_bound pos_mod_sign zero_less_numeral simp_thms\<close>)
  have t: "(x mod 64 + 0x80) mod 64 = x mod 64" for x :: int by (simp add: mod_add_eq [symmetric])
  have q: "(q + 0xF0) mod 8 = q" if "0 \<le> q" "q \<le> 4" for q :: int using that by (simp add: mod_add_eq [symmetric])
  have m: "byte a mod 8 = ch div 262144" "byte b mod 64 = ch div 4096 mod 64" "byte c mod 64 = ch div 64 mod 64"
    "byte d mod 64 = ch mod 64"
    unfolding four(5-8) by (simp_all only: t q l)
  have "convert ([a, b, c, d] @ rest)
      = Inr (((byte a mod 8 * 64 + byte b mod 64) * 64 + byte c mod 64) * 64 + byte d mod 64)"
    using decode_four [OF ab(1,3)] ab(2,4,5) s by (simp only: append.simps simp_thms if_True)
  then show ?thesis unfolding m recompose four(3) .
qed


lemma length_encoded:
  assumes "scalar ch"
  shows "int (length (encoded ch)) = fst (convert_char ch 4) \<and> encoded ch \<noteq> []"
  using assms by (cases rule: encoded_cases) simp_all

lemma isLegal_encoded:
  assumes "scalar ch"
  shows "isLegal (encoded ch @ rest) (int (length (encoded ch))) = Inr True"
  using assms
proof (cases rule: encoded_cases)
  case one
  then show ?thesis using assms by (simp add: isLegal_def scalar_def)
next
  case (two a b)
  then have "0xC2 \<le> byte a" "byte a < 0xE0" "second_byte (byte a) (byte b)"
    unfolding second_byte_def by auto
  then show ?thesis using two(3) by (simp add: isLegal_def)
next
  case (three a b c)
  then have "0xE0 \<le> byte a" "byte a < 0xF0" by auto
  then show ?thesis
    using three(3) convert_encoded [OF assms, of rest] decode_three [of a b c rest] three(1)
    by (simp add: isLegal_def split: if_splits)
next
  case (four a b c d)
  have "0 \<le> ch" using assms by (simp add: scalar_def)
  then have "0xF0 \<le> byte a" "byte a < 0xF8" using div_bounds [OF _ four(2)] unfolding four(5) by auto
  then show ?thesis
    using four(3) convert_encoded [OF assms, of rest] decode_four [of a b c d rest] four(1)
    by (simp add: isLegal_def split: if_splits)
qed


text \<open>The other direction: what is decoded is the encoding of its character. The second byte of a sequence
  that starts with one of two lead bytes is not tested against \<open>0x80\<close>, so this is assumed.\<close>

lemma split64: "0 \<le> r \<Longrightarrow> r < 64 \<Longrightarrow> ((x :: int) * 64 + r) div 64 = x \<and> (x * 64 + r) mod 64 = r"
  by simp

lemma encoded_two:
  assumes "0xC2 \<le> byte a" "byte a < 0xE0" "0x80 \<le> byte b" "byte b \<le> 0xBF"
  shows "encoded (byte a mod 32 * 64 + byte b mod 64) = [a, b] \<and> scalar (byte a mod 32 * 64 + byte b mod 64)"
proof -
  define q r where "q = byte a mod 32" and "r = byte b mod 64"
  have ab: "byte a = q + 0xC0" "byte b = r + 0x80" "0 \<le> r" "r < 64" "2 \<le> q" "q < 32"
    using assms unfolding q_def r_def by presburger+
  then have "encoded (q * 64 + r) = [to_char (byte a), to_char (byte b)]"
    using split64 [of r q] unfolding encoded_def by (subst convert_char_arith) (auto simp del: to_char_of_byte)
  then have "encoded (q * 64 + r) = [a, b]" by (simp only: to_char_of_byte)
  then show ?thesis using ab unfolding q_def [symmetric] r_def [symmetric] by (simp add: scalar_def)
qed

lemma encoded_three:
  assumes "0xE0 \<le> byte a" "byte a < 0xF0" "second_byte (byte a) (byte b)" "0x80 \<le> byte b" "continuation (byte c)"
  shows "encoded ((byte a mod 16 * 64 + byte b mod 64) * 64 + byte c mod 64) = [a, b, c]
    \<and> scalar ((byte a mod 16 * 64 + byte b mod 64) * 64 + byte c mod 64)"
proof -
  define q r t where "q = byte a mod 16" and "r = byte b mod 64" and "t = byte c mod 64"
  have "byte b \<le> 0xBF" "0x80 \<le> byte c" "byte c \<le> 0xBF" using assms by (auto simp: second_byte_def continuation_def)
  then have ab: "byte a = q + 0xE0" "byte b = r + 0x80" "byte c = t + 0x80" "0 \<le> r" "r < 64" "0 \<le> q" "q < 16" "0 \<le> t" "t < 64"
    using assms(1,2,4) unfolding q_def r_def t_def by presburger+
  have qr: "q = 0 \<Longrightarrow> 0x20 \<le> r" "q = 0xD \<Longrightarrow> r < 0x20"
    using assms(3) unfolding ab second_byte_def by auto
  have d: "((q * 64 + r) * 64 + t) div 64 = q * 64 + r" "((q * 64 + r) * 64 + t) mod 64 = t"
    "(q * 64 + r) div 64 = q" "(q * 64 + r) mod 64 = r" using split64 ab by blast+
  have d2: "((q * 64 + r) * 64 + t) div 4096 = q"
    using zdiv_zmult2_eq [of 64 "(q * 64 + r) * 64 + t" 64] unfolding d by simp
  define ch where "ch = (q * 64 + r) * 64 + t"
  have "q \<noteq> 0 \<Longrightarrow> 0x1000 \<le> ch" using ab unfolding ch_def by auto
  then have lo: "0x800 \<le> ch" using qr(1) ab unfolding ch_def by (cases "q = 0") auto
  have hi: "ch < 0x10000" using ab unfolding ch_def by auto
  have su: "\<not> (0xD800 \<le> ch \<and> ch \<le> 0xDFFF)" using qr(2) ab unfolding ch_def
    by (cases "q < 0xD"; cases "q = 0xD") auto
  have "encoded ch = [to_char (byte a), to_char (byte b), to_char (byte c)]"
    using lo hi convert_char_arith [of ch] unfolding encoded_def ab(1-3)
    by (simp add: d [folded ch_def] d2 [folded ch_def] ab(4,5))
  then show ?thesis using lo hi su
    unfolding q_def [symmetric] r_def [symmetric] t_def [symmetric] ch_def [symmetric]
    by (simp add: scalar_def)
qed

lemma encoded_four:
  assumes "0xF0 \<le> byte a" "byte a \<le> 0xF4" "second_byte (byte a) (byte b)" "0x80 \<le> byte b"
    "continuation (byte c)" "continuation (byte d)"
  shows "encoded (((byte a mod 8 * 64 + byte b mod 64) * 64 + byte c mod 64) * 64 + byte d mod 64) = [a, b, c, d]
    \<and> scalar (((byte a mod 8 * 64 + byte b mod 64) * 64 + byte c mod 64) * 64 + byte d mod 64)"
proof -
  define q r t u where "q = byte a mod 8" and "r = byte b mod 64" and "t = byte c mod 64" and "u = byte d mod 64"
  have "byte b \<le> 0xBF" "0x80 \<le> byte c" "byte c \<le> 0xBF" "0x80 \<le> byte d" "byte d \<le> 0xBF"
    using assms by (auto simp: second_byte_def continuation_def)
  then have ab: "byte a = q + 0xF0" "byte b = r + 0x80" "byte c = t + 0x80" "byte d = u + 0x80"
    "0 \<le> r" "r < 64" "0 \<le> q" "q \<le> 4" "0 \<le> t" "t < 64" "0 \<le> u" "u < 64"
    using assms(1,2,4) unfolding q_def r_def t_def u_def by presburger+
  have qr: "q = 0 \<Longrightarrow> 0x10 \<le> r" "q = 4 \<Longrightarrow> r < 0x10"
    using assms(3) unfolding ab second_byte_def by auto
  define x where "x = (q * 64 + r) * 64 + t"
  define ch where "ch = x * 64 + u"
  have d: "ch div 64 = x" "ch mod 64 = u" "x div 64 = q * 64 + r" "x mod 64 = t"
    "(q * 64 + r) div 64 = q" "(q * 64 + r) mod 64 = r"
    unfolding ch_def x_def using split64 ab by blast+
  have d2: "ch div 4096 = q * 64 + r" using zdiv_zmult2_eq [of 64 ch 64] unfolding d by simp
  have d3: "ch div 262144 = q" using zdiv_zmult2_eq [of 64 ch 4096] d2 d(5) by simp
  have "q \<noteq> 0 \<Longrightarrow> 0x10000 \<le> ch" using ab unfolding ch_def x_def by auto
  then have lo: "0x10000 \<le> ch" using qr(1) ab unfolding ch_def x_def by (cases "q = 0") auto
  have "q < 4 \<Longrightarrow> ch \<le> 0x10FFFF" using ab unfolding ch_def x_def by auto
  then have hi: "ch \<le> 0x10FFFF" using qr(2) ab unfolding ch_def x_def by (cases "q < 4") auto
  have "encoded ch = [to_char (byte a), to_char (byte b), to_char (byte c), to_char (byte d)]"
    using lo hi convert_char_arith [of ch] unfolding encoded_def ab(1-4) by (simp add: d d2 d3 ab(5,6))
  then show ?thesis using lo hi
    unfolding q_def [symmetric] r_def [symmetric] t_def [symmetric] u_def [symmetric]
      x_def [symmetric] ch_def [symmetric]
    by (simp add: scalar_def)
qed


lemma charMap_lead: "charMap ! uchar a = n \<Longrightarrow> n \<in> {-2, -3, -4} \<Longrightarrow>
   (n = -2 \<longrightarrow> 0xC0 \<le> byte a \<and> byte a < 0xE0) \<and> (n = -3 \<longrightarrow> 0xE0 \<le> byte a \<and> byte a < 0xF0)
   \<and> (n = -4 \<longrightarrow> 0xF0 \<le> byte a \<and> byte a < 0xF8)"
  using byte_bounds(1) [of a] unfolding charMap_byte by (elim insertE emptyE) (simp_all del: byte_bounds split: if_splits)

lemma convert_decoded:
  assumes "convert bs = Inr ch" "0 \<le> ch" "0x80 \<le> byte (bs ! 0) \<Longrightarrow> 0x80 \<le> byte (bs ! 1)"
  shows "scalar ch \<and> (\<exists>rest. bs = encoded ch @ rest)"
proof -
  obtain a bs' where bs: "bs = a # bs'" using assms(1) by (cases bs) (auto simp: convert_def)
  let ?n = "charMap ! uchar a"
  have dec: "decode_sequence ?n bs = Inr ch" using assms(1) bs by (simp add: convert_def)
  show ?thesis
  proof (cases "?n \<in> {-2, -3, -4}")
    case False
    then have n: "?n = ch" "0 \<le> ?n"
      using dec assms(2) by (auto simp: decode_sequence_def split: if_splits)
    then have a: "ch = byte a" "byte a < 0x80"
      using byte_bounds(1) [of a] by (simp_all add: charMap_byte split: if_splits)
    then have "encoded ch = [a]" unfolding encoded_def by (subst convert_char_arith) auto
    then show ?thesis using a bs by (simp add: scalar_def)
  next
    case True
    then have leg: "isLegal bs (- ?n) = Inr True"
      using dec assms(2) by (auto simp: decode_sequence_def split: sum.splits if_splits)
    then have len: "nat (- ?n) \<le> length bs" by (auto simp: isLegal_def split: if_splits)
    note lead = charMap_lead [OF refl True]
    have b1: "0x80 \<le> byte (bs ! 1)" using lead True assms(3) bs by auto
    consider "?n = -2" | "?n = -3" | "?n = -4" using True by auto
    then show ?thesis
    proof cases
      case 1
      then obtain b rest where bs': "bs' = b # rest" using len bs by (cases bs') auto
      have l: "0xC0 \<le> byte a" "byte a < 0xE0" "0x80 \<le> byte b" using lead 1 b1 bs bs' by auto
      have ch: "0xC2 \<le> byte a" "second_byte (byte a) (byte b)" "byte a mod 32 * 64 + byte b mod 64 = ch"
        using assms(1,2) decode_two [OF l(1,2), of b rest] unfolding bs bs' by (auto split: if_splits)
      then have "byte b \<le> 0xBF" by (auto simp: second_byte_def)
      then show ?thesis using encoded_two [OF ch(1) l(2,3)] ch(3) bs bs' by auto
    next
      case 2
      then obtain b c rest where bs': "bs' = b # c # rest" using len bs by (cases bs'; cases "tl bs'") auto
      have l: "0xE0 \<le> byte a" "byte a < 0xF0" "0x80 \<le> byte b" using lead 2 b1 bs bs' by auto
      have ch: "second_byte (byte a) (byte b)" "continuation (byte c)"
        "(byte a mod 16 * 64 + byte b mod 64) * 64 + byte c mod 64 = ch"
        using assms(1,2) decode_three [OF l(1,2), of b c rest] unfolding bs bs' by (simp_all split: if_splits)
      then show ?thesis using encoded_three [OF l(1,2) ch(1) l(3) ch(2)] bs bs' by auto
    next
      case 3
      then obtain b c d rest where bs': "bs' = b # c # d # rest"
        using len bs by (cases bs'; cases "tl bs'"; cases "tl (tl bs')") auto
      have l: "0xF0 \<le> byte a" "byte a < 0xF8" "0x80 \<le> byte b" using lead 3 b1 bs bs' by auto
      have ch: "byte a \<le> 0xF4" "second_byte (byte a) (byte b)" "continuation (byte c)" "continuation (byte d)"
        "((byte a mod 8 * 64 + byte b mod 64) * 64 + byte c mod 64) * 64 + byte d mod 64 = ch"
        using assms(1,2) decode_four [OF l(1,2), of b c d rest] unfolding bs bs' by (simp_all split: if_splits)
      then show ?thesis using encoded_four [OF l(1) ch(1,2) l(3) ch(3,4)] bs bs' by auto
    qed
  qed
qed


section \<open>Properties\<close>

text \<open>The codec: a scalar value and its bytes, whatever follows them.\<close>

definition decode_char :: "string \<Rightarrow> int option" where
  "decode_char bs = (case convert bs of Inr ch \<Rightarrow> (if ch < 0 then None else Some ch) | Inl _ \<Rightarrow> None)"

interpretation utf8: codec encoded decode_char scalar
proof
  fix ch assume "scalar ch"
  then show "decode_char (encoded ch) = Some ch"
    using convert_encoded [of ch "[]"] by (simp add: decode_char_def scalar_def)
qed

lemma sequenceLength_encoded:
  assumes "scalar ch" "1 \<le> len"
  shows "sequenceLength (encoded ch @ rest) len = Inr (int (length (encoded ch)))"
  using assms(1)
proof (cases rule: encoded_cases)
  case (two a b)
  then have "0xC0 \<le> byte a" "byte a < 0xE0" by auto
  then show ?thesis using two(3) assms(2) by (simp add: sequenceLength_def charMap_byte)
next
  case (three a b c)
  then have "0xE0 \<le> byte a" "byte a < 0xF0" by auto
  then show ?thesis using three(3) assms(2) by (simp add: sequenceLength_def charMap_byte)
next
  case (four a b c d)
  have "0 \<le> ch" using assms by (simp add: scalar_def)
  then have "0xF0 \<le> byte a" "byte a < 0xF8" using div_bounds [OF _ four(2)] unfolding four(5) by auto
  then show ?thesis using four(3) assms(2) by (simp add: sequenceLength_def charMap_byte)
qed (use assms in \<open>simp_all add: sequenceLength_def charMap_byte scalar_def\<close>)

lemma queryConvert_encoded:
  assumes "scalar ch" "int (length (encoded ch)) \<le> len"
  shows "queryConvert (encoded ch @ rest) len = Inr ch"
proof -
  obtain a bs where e: "encoded ch = a # bs" using length_encoded [OF assms(1)] by (cases "encoded ch") auto
  let ?n = "charMap ! uchar a"
  have c: "decode_sequence ?n (encoded ch @ rest) = Inr ch"
    using convert_encoded [OF assms(1), of rest] e by (simp add: convert_def)
  have "(if ?n \<ge> 0 then 1 else - ?n) = int (length (encoded ch))"
    using sequenceLength_encoded [OF assms(1), of 1 rest] e by (simp add: sequenceLength_def Let_def)
  then have "- ?n \<le> len" using assms(2) by (auto split: if_splits)
  then show ?thesis using c e by (simp add: queryConvert_def Let_def)
qed



text \<open>the test of the second byte has no lower bound after the lead bytes \<open>0xED\<close> and \<open>0xF4\<close>: two
  sequences with an ASCII letter inside are legal and decode to characters that other bytes encode.\<close>

theorem utf8_accepts_ascii_second_byte:
  "isLegal [CHR 0xED, CHR ''A'', CHR 0x80] 3 = Inr True
   \<and> isLegal [CHR 0xF4, CHR ''A'', CHR 0x80, CHR 0x80] 4 = Inr True
   \<and> convert [CHR 0xED, CHR ''A'', CHR 0x80] = Inr 0xD040
   \<and> encoded 0xD040 \<noteq> [CHR 0xED, CHR ''A'', CHR 0x80]"
  by code_simp

end
