(* ===== verification/JSON_Parser.thy ===== *)
theory JSON_Parser
  imports FIFOBuffer UTF8Encoding NumericString
begin

text \<open>
  \<open>Poco::JSON::Parser\<close>: a push-down automaton over character classes. Its tables, its members and
  its operations are taken over one by one; the stack of modes and the text of the pending token
  are \<open>Poco::Buffer\<close> objects. The \<open>Handler\<close> that receives what the parser recognises is a parameter: a function
  that takes one event in one state of the handler and may throw. Floating point conversion
  (\<open>NumberParser::parseFloat\<close>) is a parameter as well, and so is the content of fresh memory.
\<close>

unbundle bit_operations_syntax

section \<open>Tables\<close>

text \<open>Character classes, states and actions. The actions that the code writes as numbers from
  \<open>-2\<close> to \<open>-9\<close> are \<open>M2\<close> to \<open>M9\<close>, and \<open>EX\<close> is \<open>ESC\<close>.\<close>

datatype Classes =
    C_SPACE | C_WHITE | C_LCURB | C_RCURB | C_LSQRB | C_RSQRB | C_COLON | C_COMMA
  | C_QUOTE | C_BACKS | C_SLASH | C_PLUS | C_MINUS | C_POINT | C_ZERO | C_DIGIT
  | C_LOW_A | C_LOW_B | C_LOW_C | C_LOW_D | C_LOW_E | C_LOW_F | C_LOW_L | C_LOW_N
  | C_LOW_R | C_LOW_S | C_LOW_T | C_LOW_U | C_ABCDF | C_E | C_ETC | C_STAR

datatype States =
    GO | OK | OB | KE | CO | VA | AR | ST | EC | U1 | U2 | U3
  | U4 | MI | ZE | IT | FR | E1 | E2 | E3 | T1 | T2 | T3 | F1
  | F2 | F3 | F4 | N1 | N2 | N3 | C1 | C2 | C3 | FX | D1 | D2

datatype Actions =
    M2 | M3 | M4 | M5 | M6 | M7 | M8 | M9 | CB | CE | FA
  | TR | NU | DE | DF | SB | MX | ZX | IX | ESC | UC

datatype entry = To States | Do Actions | xx

datatype JSONType =
    JSON_T_NONE | JSON_T_INTEGER | JSON_T_FLOAT | JSON_T_NULL | JSON_T_TRUE | JSON_T_FALSE
  | JSON_T_STRING | JSON_T_MAX

text \<open>The modes are kept in a buffer of characters.\<close>

definition MODE_ARRAY :: char where "MODE_ARRAY = CHR 0x01"
definition MODE_DONE :: char where "MODE_DONE = CHR 0x02"
definition MODE_KEY :: char where "MODE_KEY = CHR 0x03"
definition MODE_OBJECT :: char where "MODE_OBJECT = CHR 0x04"

definition JSON_PARSER_STACK_SIZE :: nat where "JSON_PARSER_STACK_SIZE = 128"
definition JSON_UNLIMITED_DEPTH :: int where "JSON_UNLIMITED_DEPTH = -1"

definition asciiClass :: "Classes option list" where
  "asciiClass =
     [None, None, None, None, None, None, None, None,
      None, Some C_WHITE, Some C_WHITE, None, None, Some C_WHITE, None, None,
      None, None, None, None, None, None, None, None,
      None, None, None, None, None, None, None, None,
      Some C_SPACE, Some C_ETC, Some C_QUOTE, Some C_ETC, Some C_ETC, Some C_ETC, Some C_ETC, Some C_ETC,
      Some C_ETC, Some C_ETC, Some C_STAR, Some C_PLUS, Some C_COMMA, Some C_MINUS, Some C_POINT, Some C_SLASH,
      Some C_ZERO, Some C_DIGIT, Some C_DIGIT, Some C_DIGIT, Some C_DIGIT, Some C_DIGIT, Some C_DIGIT, Some C_DIGIT,
      Some C_DIGIT, Some C_DIGIT, Some C_COLON, Some C_ETC, Some C_ETC, Some C_ETC, Some C_ETC, Some C_ETC,
      Some C_ETC, Some C_ABCDF, Some C_ABCDF, Some C_ABCDF, Some C_ABCDF, Some C_E, Some C_ABCDF, Some C_ETC,
      Some C_ETC, Some C_ETC, Some C_ETC, Some C_ETC, Some C_ETC, Some C_ETC, Some C_ETC, Some C_ETC,
      Some C_ETC, Some C_ETC, Some C_ETC, Some C_ETC, Some C_ETC, Some C_ETC, Some C_ETC, Some C_ETC,
      Some C_ETC, Some C_ETC, Some C_ETC, Some C_LSQRB, Some C_BACKS, Some C_RSQRB, Some C_ETC, Some C_ETC,
      Some C_ETC, Some C_LOW_A, Some C_LOW_B, Some C_LOW_C, Some C_LOW_D, Some C_LOW_E, Some C_LOW_F, Some C_ETC,
      Some C_ETC, Some C_ETC, Some C_ETC, Some C_ETC, Some C_LOW_L, Some C_ETC, Some C_LOW_N, Some C_ETC,
      Some C_ETC, Some C_ETC, Some C_LOW_R, Some C_LOW_S, Some C_LOW_T, Some C_LOW_U, Some C_ETC, Some C_ETC,
      Some C_ETC, Some C_ETC, Some C_ETC, Some C_LCURB, Some C_ETC, Some C_RCURB, Some C_ETC, Some C_ETC]"

text \<open>The columns of the transition table are the classes in their order.\<close>

definition all_classes :: "Classes list" where
  "all_classes =
     [C_SPACE, C_WHITE, C_LCURB, C_RCURB, C_LSQRB, C_RSQRB, C_COLON, C_COMMA, C_QUOTE, C_BACKS, C_SLASH,
      C_PLUS, C_MINUS, C_POINT, C_ZERO, C_DIGIT, C_LOW_A, C_LOW_B, C_LOW_C, C_LOW_D, C_LOW_E, C_LOW_F,
      C_LOW_L, C_LOW_N, C_LOW_R, C_LOW_S, C_LOW_T, C_LOW_U, C_ABCDF, C_E, C_ETC, C_STAR]"

fun stateTransitionTable :: "States \<Rightarrow> entry list" where
  "stateTransitionTable GO =
     [To GO, To GO, Do M6, xx, Do M5] @ replicate 5 xx @ [Do CB] @ replicate 21 xx"
| "stateTransitionTable OK =
     [To OK, To OK, xx, Do M8, xx, Do M7, xx, Do M3, xx, xx, Do CB] @ replicate 21 xx"
| "stateTransitionTable OB =
     [To OB, To OB, xx, Do M9] @ replicate 4 xx @ [Do SB, xx, Do CB] @ replicate 21 xx"
| "stateTransitionTable KE =
     [To KE, To KE] @ replicate 6 xx @ [Do SB, xx, Do CB] @ replicate 21 xx"
| "stateTransitionTable CO =
     [To CO, To CO] @ replicate 4 xx @ [Do M2, xx, xx, xx, Do CB] @ replicate 21 xx"
| "stateTransitionTable VA =
     [To VA, To VA, Do M6, xx, Do M5, xx, xx, xx, Do SB, xx, Do CB, xx, Do MX, xx, Do ZX, Do IX] @
     replicate 5 xx @ [Do FA, xx, Do NU, xx, xx, Do TR] @ replicate 5 xx"
| "stateTransitionTable AR =
     [To AR, To AR, Do M6, xx, Do M5, Do M7, xx, xx, Do SB, xx, Do CB, xx, Do MX, xx, Do ZX, Do IX] @
     replicate 5 xx @ [Do FA, xx, Do NU, xx, xx, Do TR] @ replicate 5 xx"
| "stateTransitionTable ST =
     [To ST, xx] @ replicate 6 (To ST) @ [Do M4, Do ESC] @ replicate 22 (To ST)"
| "stateTransitionTable EC =
     replicate 8 xx @ [To ST, To ST, To ST] @ replicate 6 xx @ [To ST, xx, xx, xx, To ST, xx, To ST, To ST, xx, To ST, To U1] @ replicate 4 xx"
| "stateTransitionTable U1 =
     replicate 14 xx @ replicate 8 (To U2) @ replicate 6 xx @ [To U2, To U2, xx, xx]"
| "stateTransitionTable U2 =
     replicate 14 xx @ replicate 8 (To U3) @ replicate 6 xx @ [To U3, To U3, xx, xx]"
| "stateTransitionTable U3 =
     replicate 14 xx @ replicate 8 (To U4) @ replicate 6 xx @ [To U4, To U4, xx, xx]"
| "stateTransitionTable U4 =
     replicate 14 xx @ replicate 8 (Do UC) @ replicate 6 xx @ [Do UC, Do UC, xx, xx]"
| "stateTransitionTable MI =
     replicate 14 xx @ [To ZE, To IT] @ replicate 16 xx"
| "stateTransitionTable ZE =
     [To OK, To OK, xx, Do M8, xx, Do M7, xx, Do M3, xx, xx, Do CB, xx, xx, Do DF] @ replicate 18 xx"
| "stateTransitionTable IT =
     [To OK, To OK, xx, Do M8, xx, Do M7, xx, Do M3, xx, xx, Do CB, xx, xx, Do DF, To IT, To IT] @
     replicate 4 xx @ [Do DE] @ replicate 8 xx @ [Do DE, xx, xx]"
| "stateTransitionTable FR =
     [To OK, To OK, xx, Do M8, xx, Do M7, xx, Do M3, xx, xx, Do CB, xx, xx, xx, To FR, To FR] @ replicate 4 xx @ [To E1] @ replicate 8 xx @ [To E1, xx, xx]"
| "stateTransitionTable E1 =
     replicate 11 xx @ [To E2, To E2, xx, To E3, To E3] @ replicate 16 xx"
| "stateTransitionTable E2 =
     replicate 14 xx @ [To E3, To E3] @ replicate 16 xx"
| "stateTransitionTable E3 =
     [To OK, To OK, xx, Do M8, xx, Do M7, xx, Do M3] @ replicate 6 xx @ [To E3, To E3] @ replicate 16 xx"
| "stateTransitionTable T1 =
     replicate 24 xx @ [To T2] @ replicate 7 xx"
| "stateTransitionTable T2 =
     replicate 27 xx @ [To T3] @ replicate 4 xx"
| "stateTransitionTable T3 =
     replicate 10 xx @ [Do CB] @ replicate 9 xx @ [To OK] @ replicate 11 xx"
| "stateTransitionTable F1 =
     replicate 16 xx @ [To F2] @ replicate 15 xx"
| "stateTransitionTable F2 =
     replicate 22 xx @ [To F3] @ replicate 9 xx"
| "stateTransitionTable F3 =
     replicate 25 xx @ [To F4] @ replicate 6 xx"
| "stateTransitionTable F4 =
     replicate 10 xx @ [Do CB] @ replicate 9 xx @ [To OK] @ replicate 11 xx"
| "stateTransitionTable N1 =
     replicate 27 xx @ [To N2] @ replicate 4 xx"
| "stateTransitionTable N2 =
     replicate 22 xx @ [To N3] @ replicate 9 xx"
| "stateTransitionTable N3 =
     replicate 10 xx @ [Do CB] @ replicate 11 xx @ [To OK] @ replicate 9 xx"
| "stateTransitionTable C1 =
     replicate 31 xx @ [To C2]"
| "stateTransitionTable C2 =
     replicate 31 (To C2) @ [To C3]"
| "stateTransitionTable C3 =
     replicate 10 (To C2) @ [Do CE] @ replicate 20 (To C2) @ [To C3]"
| "stateTransitionTable FX =
     [To OK, To OK, xx, Do M8, xx, Do M7, xx, Do M3] @ replicate 6 xx @ [To FR, To FR] @ replicate 4 xx @
     [To E1] @ replicate 8 xx @ [To E1, xx, xx]"
| "stateTransitionTable D1 =
     replicate 9 xx @ [To D2] @ replicate 22 xx"
| "stateTransitionTable D2 =
     replicate 27 xx @ [To U1] @ replicate 4 xx"

text \<open>\<open>_stateTransitionTable[_state][nextClass]\<close>\<close>

definition nextState :: "States \<Rightarrow> Classes \<Rightarrow> entry" where
  "nextState s c = the (map_of (zip all_classes (stateTransitionTable s)) c)"

section \<open>Handler events and parser state\<close>

text \<open>The calls of the \<open>Handler\<close> interface; \<open>value\<close> is overloaded on the type of its argument.\<close>

datatype 'f jvalue =
    VNull | VBool bool | VInt int | VUnsigned int | VInt64 int | VUInt64 int | VDouble 'f | VString string

datatype 'f json_event = StartObject | EndObject | StartArray | EndArray | Key string | Value "'f jvalue"

record ('f, 'h) env =
  junk :: "nat \<Rightarrow> char"
  parseFloat :: "string \<Rightarrow> exn + 'f"
  handle :: "'f json_event \<Rightarrow> 'h \<Rightarrow> 'h outcome"
  reset_handler :: "'h \<Rightarrow> 'h"

record 'h parser =
  p_pHandler :: "'h option"
  p_state :: States
  p_beforeCommentState :: States
  p_type :: JSONType
  p_escaped :: bool
  p_comment :: bool
  p_utf16HighSurrogate :: int
  p_depth :: int
  p_top :: int
  p_stack :: buffer
  p_parseBuffer :: buffer
  p_decimalPoint :: char
  p_allowNullByte :: bool
  p_allowComments :: bool

text \<open>A method that may return \<open>false\<close>: the parser, and what it returns. \<open>call\<close> is the sequencing after a
  method of type \<open>void\<close>, \<open>if_true\<close> the idiom \<open>if (!m()) return false;\<close>.\<close>

fun call :: "'p outcome \<Rightarrow> ('p \<Rightarrow> ('p \<times> bool) outcome) \<Rightarrow> ('p \<times> bool) outcome" where
  "call (Returns p) k = k p"
| "call (Throws e p) k = Throws e (p, False)"

fun if_true :: "('p \<times> bool) outcome \<Rightarrow> ('p \<Rightarrow> ('p \<times> bool) outcome) \<Rightarrow> ('p \<times> bool) outcome" where
  "if_true (Returns (p, b)) k = (if b then k p else Returns (p, False))"
| "if_true (Throws e s) k = Throws e s"

definition poco_assert :: "bool \<Rightarrow> 'p \<Rightarrow> ('p \<times> bool) outcome \<Rightarrow> ('p \<times> bool) outcome" where
  "poco_assert b p m = (if b then m else Throws AssertionViolation (p, False))"

text \<open>\<open>if (_pHandler) _pHandler->...\<close>\<close>

definition tell :: "('f, 'h) env \<Rightarrow> 'f json_event \<Rightarrow> 'h parser \<Rightarrow> 'h parser outcome" where
  "tell E e p =
     (case p_pHandler p of
        None \<Rightarrow> Returns p
      | Some h \<Rightarrow> map_outcome_state (\<lambda>h. p\<lparr>p_pHandler := Some h\<rparr>) (handle E e h))"

section \<open>The stack and the token\<close>

definition push :: "('f, 'h) env \<Rightarrow> char \<Rightarrow> 'h parser \<Rightarrow> ('h parser \<times> bool) outcome" where
  "push E mode p =
     (let p = p\<lparr>p_top := p_top p + 1\<rparr>;
          store_mode = (\<lambda>p. poco_assert (p_top p < int (b_used (p_stack p))) p
            (call (map_outcome_state (\<lambda>b. p\<lparr>p_stack := b\<rparr>) (store (nat (p_top p)) [mode] (p_stack p)))
               (\<lambda>p. Returns (p, True))))
      in if p_depth p < 0 then
           call (if p_top p \<ge> int (b_used (p_stack p))
                 then map_outcome_state (\<lambda>b. p\<lparr>p_stack := b\<rparr>)
                        (buffer_resize (junk E) (p_stack p) (b_used (p_stack p) * 2) True)
                 else Returns p) store_mode
         else if p_top p \<ge> p_depth p then Returns (p, False)
         else store_mode p)"

text \<open>\<open>_stack[_top]\<close>; the index is converted to \<open>std::size_t\<close>.\<close>

definition top_mode :: "'h parser \<Rightarrow> exn + char" where
  "top_mode p = (if p_top p < 0 then Inl AssertionViolation else buffer_at (p_stack p) (nat (p_top p)))"

definition pop :: "char \<Rightarrow> 'h parser \<Rightarrow> ('h parser \<times> bool) outcome" where
  "pop mode p =
     (if p_top p < 0 then Returns (p, False)
      else case top_mode p of
             Inl e \<Rightarrow> Throws e (p, False)
           | Inr m \<Rightarrow> if m \<noteq> mode then Returns (p, False) else Returns (p\<lparr>p_top := p_top p - 1\<rparr>, True))"

text \<open>The characters that a buffer holds, as \<open>std::string(b.begin(), b.size())\<close> copies them.\<close>

definition chars_of :: "buffer \<Rightarrow> string" where
  "chars_of b = take (b_used b) (cells (b_ptr b))"

definition on_buffer :: "(buffer \<Rightarrow> buffer outcome) \<Rightarrow> 'h parser \<Rightarrow> 'h parser outcome" where
  "on_buffer f p = map_outcome_state (\<lambda>b. p\<lparr>p_parseBuffer := b\<rparr>) (f (p_parseBuffer p))"

definition clearBuffer :: "('f, 'h) env \<Rightarrow> 'h parser \<Rightarrow> 'h parser outcome" where
  "clearBuffer E = on_buffer (\<lambda>b. buffer_resize (junk E) b 0 True)"

definition parseBufferPopBackChar :: "('f, 'h) env \<Rightarrow> 'h parser \<Rightarrow> 'h parser outcome" where
  "parseBufferPopBackChar E p =
     (if b_used (p_parseBuffer p) \<ge> 1
      then on_buffer (\<lambda>b. buffer_resize (junk E) b (b_used b - 1) True) p
      else Throws AssertionViolation p)"

definition parseBufferPushBackChar :: "('f, 'h) env \<Rightarrow> char \<Rightarrow> 'h parser \<Rightarrow> 'h parser outcome" where
  "parseBufferPushBackChar E c =
     on_buffer (\<lambda>b. and_then
       (if b_used b + 1 \<ge> b_capacity b then setCapacity (junk E) b (b_capacity b * 2) True else Returns b)
       (\<lambda>b. buffer_append_val (junk E) b c))"

text \<open>The constructor, and \<open>reset\<close>, which leaves \<open>_comment\<close>, \<open>_depth\<close> and the two options as they are. The mode that
  the constructor pushes always fits.\<close>

definition Parser_new :: "('f, 'h) env \<Rightarrow> 'h option \<Rightarrow> nat \<Rightarrow> 'h parser" where
  "Parser_new E pHandler bufSize =
     (let p = \<lparr>p_pHandler = pHandler, p_state = GO, p_beforeCommentState = GO, p_type = JSON_T_NONE,
               p_escaped = False, p_comment = False, p_utf16HighSurrogate = 0,
               p_depth = JSON_UNLIMITED_DEPTH, p_top = -1,
               p_stack = Buffer_new (junk E) JSON_PARSER_STACK_SIZE, p_parseBuffer = Buffer_new (junk E) bufSize,
               p_decimalPoint = CHR ''.'', p_allowNullByte = True, p_allowComments = False\<rparr>
      in fst (state_of (push E MODE_DONE (state_of (clearBuffer E p)))))"

definition reset :: "('f, 'h) env \<Rightarrow> 'h parser \<Rightarrow> 'h parser outcome" where
  "reset E p =
     (let p = p\<lparr>p_state := GO, p_beforeCommentState := GO, p_type := JSON_T_NONE, p_escaped := False,
                p_utf16HighSurrogate := 0, p_top := -1\<rparr>
      in and_then (map_outcome_state (\<lambda>b. p\<lparr>p_stack := b\<rparr>) (buffer_clear (p_stack p)))
         (\<lambda>p. and_then (clearBuffer E p)
         (\<lambda>p. and_then (map_outcome_state fst (push E MODE_DONE p))
         (\<lambda>p. Returns (p\<lparr>p_pHandler := map_option (reset_handler E) (p_pHandler p)\<rparr>)))))"

section \<open>Characters into the token\<close>

definition addEscapedCharToParseBuffer :: "('f, 'h) env \<Rightarrow> char \<Rightarrow> 'h parser \<Rightarrow> 'h parser outcome" where
  "addEscapedCharToParseBuffer E c p =
     and_then (parseBufferPopBackChar E (p\<lparr>p_escaped := False\<rparr>))
       (\<lambda>p. if c = CHR ''b'' then parseBufferPushBackChar E CHR 0x08 p
            else if c = CHR ''f'' then parseBufferPushBackChar E CHR 0x0C p
            else if c = CHR ''n'' then parseBufferPushBackChar E CHR 0x0A p
            else if c = CHR ''r'' then parseBufferPushBackChar E CHR 0x0D p
            else if c = CHR ''t'' then parseBufferPushBackChar E CHR 0x09 p
            else if c = CHR 0x22 then parseBufferPushBackChar E CHR 0x22 p
            else if c = CHR 0x5C then parseBufferPushBackChar E CHR 0x5C p
            else if c = CHR ''/'' then parseBufferPushBackChar E CHR ''/'' p
            else if c = CHR ''u'' then
              and_then (parseBufferPushBackChar E CHR 0x5C p) (parseBufferPushBackChar E CHR ''u'')
            else Returns p)"

definition addCharToParseBuffer :: "('f, 'h) env \<Rightarrow> char \<Rightarrow> Classes \<Rightarrow> 'h parser \<Rightarrow> 'h parser outcome" where
  "addCharToParseBuffer E c nextClass p =
     (if p_escaped p then addEscapedCharToParseBuffer E c p
      else if \<not> p_comment p then
        (if p_type p \<noteq> JSON_T_NONE \<or> \<not> (nextClass = C_SPACE \<or> nextClass = C_WHITE)
         then parseBufferPushBackChar E c p else Returns p)
      else Returns p)"

text \<open>The value of a hexadecimal digit, computed in \<open>unsigned\<close>.\<close>

definition hex_digit :: "char \<Rightarrow> int" where
  "hex_digit c =
     (let x = schar c mod 2 ^ 32
      in if x \<ge> schar CHR ''a'' then x - (schar CHR ''a'' - 10)
         else if x \<ge> schar CHR ''A'' then x - (schar CHR ''A'' - 10)
         else x AND NOT 0x30)"

text \<open>The loop over the last four characters of the token; \<open>None\<close> when the assertion fails.\<close>

fun hex_loop :: "int \<Rightarrow> nat \<Rightarrow> string \<Rightarrow> int option" where
  "hex_loop uc i [] = Some uc"
| "hex_loop uc i (c # p) =
     (if hex_digit c < 16 then hex_loop (uc OR push_bit i (hex_digit c)) (i - 4) p else None)"

definition IS_HIGH_SURROGATE :: "int \<Rightarrow> bool" where
  "IS_HIGH_SURROGATE uc \<longleftrightarrow> uc AND 0xFC00 = 0xD800"

definition IS_LOW_SURROGATE :: "int \<Rightarrow> bool" where
  "IS_LOW_SURROGATE uc \<longleftrightarrow> uc AND 0xFC00 = 0xDC00"

definition DECODE_SURROGATE_PAIR :: "int \<Rightarrow> int \<Rightarrow> int" where
  "DECODE_SURROGATE_PAIR hi lo = push_bit 10 (hi AND 0x3FF) + (lo AND 0x3FF) + 0x10000"

definition utf8_lead_bits :: "int list" where
  "utf8_lead_bits = [0x00, 0xC0, 0xE0, 0xF0]"

text \<open>The two statements at the end that append the bytes: a lead byte and \<open>trail_bytes\<close> more.\<close>

fun append_trail :: "('f, 'h) env \<Rightarrow> int \<Rightarrow> nat \<Rightarrow> 'h parser \<Rightarrow> 'h parser outcome" where
  "append_trail E uc 0 p = Returns p"
| "append_trail E uc (Suc n) p =
     and_then (on_buffer (\<lambda>b. buffer_append_val (junk E) b (to_char (drop_bit (6 * n) uc AND 0x3F OR 0x80))) p)
       (append_trail E uc n)"

definition append_utf8 :: "('f, 'h) env \<Rightarrow> int \<Rightarrow> nat \<Rightarrow> 'h parser \<Rightarrow> ('h parser \<times> bool) outcome" where
  "append_utf8 E uc trail_bytes p =
     call (and_then
       (on_buffer (\<lambda>b. buffer_append_val (junk E) b
          (to_char (drop_bit (trail_bytes * 6) uc OR utf8_lead_bits ! trail_bytes))) p)
       (append_trail E uc trail_bytes)) (\<lambda>p. Returns (p, True))"

definition decodeUnicodeChar :: "('f, 'h) env \<Rightarrow> 'h parser \<Rightarrow> ('h parser \<times> bool) outcome" where
  "decodeUnicodeChar E p =
     (let n = b_used (p_parseBuffer p)
      in poco_assert (n \<ge> 6) p
        (case hex_loop 0 12 (drop (n - 4) (chars_of (p_parseBuffer p))) of
           None \<Rightarrow> Throws AssertionViolation (p, False)
         | Some uc \<Rightarrow>
             if \<not> p_allowNullByte p \<and> uc = 0 then Returns (p, False)
             else call (on_buffer (\<lambda>b. buffer_resize (junk E) b (b_used b - 6) True) p)
               (\<lambda>p. if p_utf16HighSurrogate p \<noteq> 0 then
                      (if IS_LOW_SURROGATE uc then
                         append_utf8 E (DECODE_SURROGATE_PAIR (p_utf16HighSurrogate p) uc) 3
                           (p\<lparr>p_utf16HighSurrogate := 0\<rparr>)
                       else Returns (p, False))
                    else if uc < 0x80 then append_utf8 E uc 0 p
                    else if uc < 0x800 then append_utf8 E uc 1 p
                    else if IS_HIGH_SURROGATE uc then Returns (p\<lparr>p_utf16HighSurrogate := uc\<rparr>, True)
                    else if IS_LOW_SURROGATE uc then Returns (p, False)
                    else append_utf8 E uc 2 p)))"

section \<open>The end of a token\<close>

definition assertNonContainer :: "'h parser \<Rightarrow> bool" where
  "assertNonContainer p \<longleftrightarrow>
     p_type p \<in> {JSON_T_NULL, JSON_T_FALSE, JSON_T_TRUE, JSON_T_FLOAT, JSON_T_INTEGER, JSON_T_STRING}"

definition assertNotStringNullBool :: "'h parser \<Rightarrow> bool" where
  "assertNotStringNullBool p \<longleftrightarrow>
     p_type p \<noteq> JSON_T_FALSE \<and> p_type p \<noteq> JSON_T_TRUE \<and> p_type p \<noteq> JSON_T_NULL \<and> p_type p \<noteq> JSON_T_STRING"

definition in_int32 :: "int \<Rightarrow> bool" where
  "in_int32 v \<longleftrightarrow> \<not> (v > 2 ^ 31 - 1 \<or> v < - (2 ^ 31))"

text \<open>The case of an integer: read as signed, and when a \<open>SyntaxException\<close> comes out of the block, as
  unsigned.\<close>

definition parse_integer :: "('f, 'h) env \<Rightarrow> 'h parser \<Rightarrow> 'h parser outcome" where
  "parse_integer E p =
     (let s = chars_of (p_parseBuffer p);
          signed_block =
            (case parse64 s (CHR '','') of
               Inl e \<Rightarrow> Throws e p
             | Inr v \<Rightarrow> tell E (Value (if in_int32 v then VInt v else VInt64 v)) p)
      in case signed_block of
           Throws (SyntaxException msg) p \<Rightarrow>
             (case parseUnsigned64 s (CHR '','') of
                Inl e \<Rightarrow> Throws e p
              | Inr v \<Rightarrow> tell E (Value (if v > 2 ^ 32 - 1 then VUInt64 v else VUnsigned v)) p)
         | m \<Rightarrow> m)"

definition parse_float :: "('f, 'h) env \<Rightarrow> 'h parser \<Rightarrow> 'h parser outcome" where
  "parse_float E p =
     (case buffer_at (p_parseBuffer p) (sub64 (b_used (p_parseBuffer p)) 1) of
        Inl e \<Rightarrow> Throws e p
      | Inr c \<Rightarrow>
          if c = CHR ''.'' then Throws (SyntaxException ''JSON syntax error'') p
          else case parseFloat E (chars_of (p_parseBuffer p)) of
                 Inl e \<Rightarrow> Throws e p
               | Inr d \<Rightarrow> tell E (Value (VDouble d)) p)"

definition parseBuffer :: "('f, 'h) env \<Rightarrow> 'h parser \<Rightarrow> 'h parser outcome" where
  "parseBuffer E p =
     and_then
       (if p_pHandler p \<noteq> None \<and> p_type p \<noteq> JSON_T_NONE then
          (if \<not> assertNonContainer p then Throws AssertionViolation p
           else case p_type p of
                  JSON_T_TRUE \<Rightarrow> tell E (Value (VBool True)) p
                | JSON_T_FALSE \<Rightarrow> tell E (Value (VBool False)) p
                | JSON_T_NULL \<Rightarrow> tell E (Value VNull) p
                | JSON_T_FLOAT \<Rightarrow> parse_float E p
                | JSON_T_INTEGER \<Rightarrow> parse_integer E p
                | JSON_T_STRING \<Rightarrow> tell E (Value (VString (chars_of (p_parseBuffer p)))) p
                | _ \<Rightarrow> Returns p)
        else Returns p)
       (clearBuffer E)"

section \<open>One character\<close>

definition utf8CheckFirst :: "char \<Rightarrow> int" where
  "utf8CheckFirst c =
     (let u = byte c
      in if u < 0x80 then 1
         else if 0x80 \<le> u \<and> u \<le> 0xBF then 0
         else if u = 0xC0 \<or> u = 0xC1 then 0
         else if 0xC2 \<le> u \<and> u \<le> 0xDF then 2
         else if 0xE0 \<le> u \<and> u \<le> 0xEF then 3
         else if 0xF0 \<le> u \<and> u \<le> 0xF4 then 4
         else 0)"

definition go :: "States \<Rightarrow> 'h parser \<Rightarrow> ('h parser \<times> bool) outcome" where
  "go s p = Returns (p\<lparr>p_state := s\<rparr>, True)"

text \<open>The action \<open>switch\<close> of \<open>parseChar\<close>, one equation for each \<open>case\<close>.\<close>

fun perform :: "('f, 'h) env \<Rightarrow> Actions \<Rightarrow> 'h parser \<Rightarrow> ('h parser \<times> bool) outcome" where
  "perform E UC p =
     if_true (decodeUnicodeChar E p) (\<lambda>p. go (if p_utf16HighSurrogate p \<noteq> 0 then D1 else ST) p)"
| "perform E ESC p = go EC (p\<lparr>p_escaped := True\<rparr>)"
| "perform E MX p = go MI (p\<lparr>p_type := JSON_T_INTEGER\<rparr>)"
| "perform E ZX p = go ZE (p\<lparr>p_type := JSON_T_INTEGER\<rparr>)"
| "perform E IX p = go IT (p\<lparr>p_type := JSON_T_INTEGER\<rparr>)"
| "perform E DE p = poco_assert (assertNotStringNullBool p) p (go E1 (p\<lparr>p_type := JSON_T_FLOAT\<rparr>))"
| "perform E DF p = poco_assert (assertNotStringNullBool p) p (go FX (p\<lparr>p_type := JSON_T_FLOAT\<rparr>))"
| "perform E SB p =
     call (clearBuffer E p)
       (\<lambda>p. poco_assert (p_type p = JSON_T_NONE) p (go ST (p\<lparr>p_type := JSON_T_STRING\<rparr>)))"
| "perform E NU p = poco_assert (p_type p = JSON_T_NONE) p (go N1 (p\<lparr>p_type := JSON_T_NULL\<rparr>))"
| "perform E FA p = poco_assert (p_type p = JSON_T_NONE) p (go F1 (p\<lparr>p_type := JSON_T_FALSE\<rparr>))"
| "perform E TR p = poco_assert (p_type p = JSON_T_NONE) p (go T1 (p\<lparr>p_type := JSON_T_TRUE\<rparr>))"
| "perform E CE p =
     (let p = p\<lparr>p_comment := False\<rparr>
      in poco_assert (b_used (p_parseBuffer p) = 0) p
           (poco_assert (p_type p = JSON_T_NONE) p (go (p_beforeCommentState p) p)))"
| "perform E CB p =
     (if \<not> p_allowComments p then Returns (p, False)
      else call (and_then (parseBufferPopBackChar E p) (parseBuffer E))
        (\<lambda>p. poco_assert (b_used (p_parseBuffer p) = 0) p
          (poco_assert (p_type p \<noteq> JSON_T_STRING) p
            (case top_mode p of
               Inl e \<Rightarrow> Throws e (p, False)
             | Inr m \<Rightarrow>
                 let before = (if m = MODE_ARRAY \<or> m = MODE_OBJECT
                               then (if p_state p = VA \<or> p_state p = AR then p_state p else OK)
                               else p_state p)
                 in go C1 (p\<lparr>p_beforeCommentState := before, p_type := JSON_T_NONE, p_comment := True\<rparr>)))))"
| "perform E M9 p =
     call (and_then (clearBuffer E p) (tell E EndObject)) (\<lambda>p. if_true (pop MODE_KEY p) (go OK))"
| "perform E M8 p =
     call (and_then (and_then (parseBufferPopBackChar E p) (parseBuffer E)) (tell E EndObject))
       (\<lambda>p. if_true (pop MODE_OBJECT p) (\<lambda>p. go OK (p\<lparr>p_type := JSON_T_NONE\<rparr>)))"
| "perform E M7 p =
     call (and_then (and_then (parseBufferPopBackChar E p) (parseBuffer E)) (tell E EndArray))
       (\<lambda>p. if_true (pop MODE_ARRAY p) (\<lambda>p. go OK (p\<lparr>p_type := JSON_T_NONE\<rparr>)))"
| "perform E M6 p =
     call (and_then (parseBufferPopBackChar E p) (tell E StartObject))
       (\<lambda>p. if_true (push E MODE_KEY p) (\<lambda>p. poco_assert (p_type p = JSON_T_NONE) p (go OB p)))"
| "perform E M5 p =
     call (and_then (parseBufferPopBackChar E p) (tell E StartArray))
       (\<lambda>p. if_true (push E MODE_ARRAY p) (\<lambda>p. poco_assert (p_type p = JSON_T_NONE) p (go AR p)))"
| "perform E M4 p =
     call (parseBufferPopBackChar E p)
       (\<lambda>p. case top_mode p of
              Inl e \<Rightarrow> Throws e (p, False)
            | Inr m \<Rightarrow>
                if m = MODE_KEY then
                  poco_assert (p_type p = JSON_T_STRING) p
                    (call (and_then (tell E (Key (chars_of (p_parseBuffer p))) (p\<lparr>p_type := JSON_T_NONE, p_state := CO\<rparr>))
                       (clearBuffer E)) (\<lambda>p. Returns (p, True)))
                else if m = MODE_ARRAY \<or> m = MODE_OBJECT then
                  poco_assert (p_type p = JSON_T_STRING) p
                    (call (parseBuffer E p) (\<lambda>p. go OK (p\<lparr>p_type := JSON_T_NONE\<rparr>)))
                else Returns (p, False))"
| "perform E M3 p =
     call (and_then (parseBufferPopBackChar E p) (parseBuffer E))
       (\<lambda>p. case top_mode p of
              Inl e \<Rightarrow> Throws e (p, False)
            | Inr m \<Rightarrow>
                if m = MODE_OBJECT then
                  if_true (if_true (pop MODE_OBJECT p) (push E MODE_KEY))
                    (\<lambda>p. poco_assert (p_type p \<noteq> JSON_T_STRING) p (go KE (p\<lparr>p_type := JSON_T_NONE\<rparr>)))
                else if m = MODE_ARRAY then
                  poco_assert (p_type p \<noteq> JSON_T_STRING) p (go VA (p\<lparr>p_type := JSON_T_NONE\<rparr>))
                else Returns (p, False))"
| "perform E M2 p =
     call (parseBufferPopBackChar E p)
       (\<lambda>p. if_true (if_true (pop MODE_KEY p) (push E MODE_OBJECT))
              (\<lambda>p. poco_assert (p_type p = JSON_T_NONE) p (go VA p)))"

text \<open>\<open>parseChar\<close> for an ASCII character.\<close>

definition parse_ascii :: "('f, 'h) env \<Rightarrow> char \<Rightarrow> 'h parser \<Rightarrow> ('h parser \<times> bool) outcome" where
  "parse_ascii E c p =
     (case asciiClass ! uchar c of
        None \<Rightarrow> Returns (p, False)
      | Some nextClass \<Rightarrow>
          call (addCharToParseBuffer E c nextClass p)
            (\<lambda>p. case nextState (p_state p) nextClass of
                   To s \<Rightarrow> go s p
                 | Do a \<Rightarrow> perform E a p
                 | xx \<Rightarrow> Returns (p, False)))"

fun push_chars :: "('f, 'h) env \<Rightarrow> string \<Rightarrow> 'h parser \<Rightarrow> 'h parser outcome" where
  "push_chars E [] p = Returns p"
| "push_chars E (c # cs) p = and_then (parseBufferPushBackChar E c p) (push_chars E cs)"

text \<open>\<open>parseChar\<close>: the parser, the characters that the source still has, and the result. A character
  above the ASCII range is read as a whole and goes to the token in any state.\<close>

definition parseChar :: "('f, 'h) env \<Rightarrow> 'h parser \<Rightarrow> char \<Rightarrow> string \<Rightarrow> ('h parser \<times> string \<times> bool) outcome" where
  "parseChar E p c source =
     (if \<not> p_allowNullByte p \<and> uchar c = 0 then Returns (p, source, False)
      else if uchar c \<ge> 0x80 then
        (let count = utf8CheckFirst c; n = nat count - 1; bytes = c # take n source
         in if count = 0 then Throws (JSONException ''Bad character.'') (p, source, False)
            else if length source < n
            then Throws (JSONException ''Invalid UTF8 sequence found'') (p, [], False)
            else if isLegal bytes count \<noteq> Inr True
            then Throws (JSONException ''No legal UTF8 found'') (p, drop n source, False)
            else map_outcome_state (\<lambda>p. (p, drop n source, True)) (push_chars E bytes p))
      else map_outcome_state (\<lambda>(p, b). (p, source, b)) (parse_ascii E c p))"

section \<open>A whole text\<close>

lemma parseChar_source:
  "parseChar E p c source = Returns (p', source', b) \<Longrightarrow> length source' \<le> length source"
  by (auto simp: parseChar_def Let_def split: if_splits)

text \<open>The loop of \<open>parse\<close>; the two overloads throw different exceptions when a character is refused.\<close>

function parse_loop :: "('f, 'h) env \<Rightarrow> exn \<Rightarrow> 'h parser \<Rightarrow> string \<Rightarrow> 'h parser outcome" where
  "parse_loop E err p [] = Returns p"
| "parse_loop E err p (c # source) =
     (case parseChar E p c source of
        Returns (p, source, b) \<Rightarrow> if b then parse_loop E err p source else Throws err p
      | Throws e (p, source, b) \<Rightarrow> Throws e p)"
  by pat_completeness auto
termination
  by (relation "measure (\<lambda>(E, err, p, source). length source)") (auto dest: parseChar_source)

definition is_done :: "'h parser \<Rightarrow> ('h parser \<times> bool) outcome" where
  "is_done p = (if p_state p = OK then pop MODE_DONE p else Returns (p, False))"

definition parse_with :: "('f, 'h) env \<Rightarrow> exn \<Rightarrow> 'h parser \<Rightarrow> string \<Rightarrow> 'h parser outcome" where
  "parse_with E err p json =
     and_then (parse_loop E err p json)
       (\<lambda>p. case is_done p of
              Throws e (p, b) \<Rightarrow> Throws e p
            | Returns (p, b) \<Rightarrow> if b then Returns p else Throws (JSONException ''JSON syntax error'') p)"

definition parse_string :: "('f, 'h) env \<Rightarrow> 'h parser \<Rightarrow> string \<Rightarrow> 'h parser outcome" where
  "parse_string E = parse_with E (SyntaxException ''JSON syntax error'')"

definition parse_stream :: "('f, 'h) env \<Rightarrow> 'h parser \<Rightarrow> string \<Rightarrow> 'h parser outcome" where
  "parse_stream E = parse_with E (JSONException ''JSON syntax error'')"

definition setAllowComments :: "bool \<Rightarrow> 'h parser \<Rightarrow> 'h parser" where
  "setAllowComments comments p = p\<lparr>p_allowComments := comments\<rparr>"

definition setAllowNullByte :: "bool \<Rightarrow> 'h parser \<Rightarrow> 'h parser" where
  "setAllowNullByte nullByte p = p\<lparr>p_allowNullByte := nullByte\<rparr>"

definition setDepth :: "nat \<Rightarrow> 'h parser \<Rightarrow> 'h parser" where
  "setDepth depth p = p\<lparr>p_depth := signed_take_bit 31 (int depth)\<rparr>"

definition setHandler :: "'h option \<Rightarrow> 'h parser \<Rightarrow> 'h parser" where
  "setHandler pHandler p = p\<lparr>p_pHandler := pHandler\<rparr>"

end
