(* ===== verification/JSON_Automaton.thy ===== *)
theory JSON_Automaton
  imports JSON_Parser
begin

text \<open>
  The specification of \<open>Poco::JSON::Parser\<close>: the same push-down automaton over a list of modes and a
  string, without buffers, capacities and indices, and with the value of a token as one
  function. The refinement says that the parser, its buffers hidden by an abstraction function,
  takes the steps of the automaton, with the same calls of the handler and the same exceptions, for
  every text and without a bound on the depth.
\<close>

section \<open>The abstract automaton\<close>

record 'h auto =
  a_handler :: "'h option"
  a_state :: States
  a_before :: States
  a_type :: JSONType
  a_escaped :: bool
  a_comment :: bool
  a_surrogate :: int
  a_modes :: "char list"
  a_text :: string
  a_nullByte :: bool
  a_comments :: bool

definition atell :: "('f, 'h) env \<Rightarrow> 'f json_event \<Rightarrow> 'h auto \<Rightarrow> 'h auto outcome" where
  "atell E e a =
     (case a_handler a of
        None \<Rightarrow> Returns a
      | Some h \<Rightarrow> map_outcome_state (\<lambda>h. a\<lparr>a_handler := Some h\<rparr>) (handle E e h))"

definition apush :: "char \<Rightarrow> 'h auto \<Rightarrow> ('h auto \<times> bool) outcome" where
  "apush m a = Returns (a\<lparr>a_modes := m # a_modes a\<rparr>, True)"

definition apop :: "char \<Rightarrow> 'h auto \<Rightarrow> ('h auto \<times> bool) outcome" where
  "apop m a =
     (case a_modes a of
        [] \<Rightarrow> Returns (a, False)
      | x # ms \<Rightarrow> if x = m then Returns (a\<lparr>a_modes := ms\<rparr>, True) else Returns (a, False))"

definition atop :: "'h auto \<Rightarrow> exn + char" where
  "atop a = (case a_modes a of [] \<Rightarrow> Inl AssertionViolation | x # ms \<Rightarrow> Inr x)"

definition aclear :: "'h auto \<Rightarrow> 'h auto outcome" where
  "aclear a = Returns (a\<lparr>a_text := []\<rparr>)"

definition aunput :: "'h auto \<Rightarrow> 'h auto outcome" where
  "aunput a = (if a_text a = [] then Throws AssertionViolation a else Returns (a\<lparr>a_text := butlast (a_text a)\<rparr>))"

definition aput :: "string \<Rightarrow> 'h auto \<Rightarrow> 'h auto outcome" where
  "aput cs a = Returns (a\<lparr>a_text := a_text a @ cs\<rparr>)"

text \<open>The character that an escape stands for; a \<open>u\<close> stays with its backslash until the four digits have
  been read.\<close>

definition unescape :: "char \<Rightarrow> string" where
  "unescape c =
     (if c = CHR ''b'' then [CHR 0x08] else if c = CHR ''f'' then [CHR 0x0C]
      else if c = CHR ''n'' then [CHR 0x0A] else if c = CHR ''r'' then [CHR 0x0D]
      else if c = CHR ''t'' then [CHR 0x09]
      else if c \<in> {CHR 0x22, CHR 0x5C, CHR ''/''} then [c]
      else if c = CHR ''u'' then [CHR 0x5C, CHR ''u''] else [])"

definition aadd :: "char \<Rightarrow> Classes \<Rightarrow> 'h auto \<Rightarrow> 'h auto outcome" where
  "aadd c cl a =
     (if a_escaped a then and_then (aunput (a\<lparr>a_escaped := False\<rparr>)) (aput (unescape c))
      else if \<not> a_comment a \<and> (a_type a \<noteq> JSON_T_NONE \<or> \<not> (cl = C_SPACE \<or> cl = C_WHITE)) then aput [c] a
      else Returns a)"

text \<open>What a token means: the value it stands for, or the exception.\<close>

definition integer_value :: "string \<Rightarrow> exn + 'f jvalue" where
  "integer_value s =
     (case parse64 s (CHR '','') of
        Inr v \<Rightarrow> Inr (if in_int32 v then VInt v else VInt64 v)
      | Inl (SyntaxException msg) \<Rightarrow>
          map_sum id (\<lambda>v. if v > 2 ^ 32 - 1 then VUInt64 v else VUnsigned v) (parseUnsigned64 s (CHR '',''))
      | Inl e \<Rightarrow> Inl e)"

definition float_value :: "('f, 'h) env \<Rightarrow> string \<Rightarrow> exn + 'f jvalue" where
  "float_value E s =
     (if s = [] then Inl AssertionViolation
      else if last s = CHR ''.'' then Inl (SyntaxException ''JSON syntax error'')
      else map_sum id VDouble (parseFloat E s))"

fun token_value :: "('f, 'h) env \<Rightarrow> JSONType \<Rightarrow> string \<Rightarrow> exn + 'f jvalue" where
  "token_value E JSON_T_TRUE s = Inr (VBool True)"
| "token_value E JSON_T_FALSE s = Inr (VBool False)"
| "token_value E JSON_T_NULL s = Inr VNull"
| "token_value E JSON_T_FLOAT s = float_value E s"
| "token_value E JSON_T_INTEGER s = integer_value s"
| "token_value E JSON_T_STRING s = Inr (VString s)"
| "token_value E _ s = Inl AssertionViolation"

definition aflush :: "('f, 'h) env \<Rightarrow> 'h auto \<Rightarrow> 'h auto outcome" where
  "aflush E a =
     and_then
       (if a_handler a \<noteq> None \<and> a_type a \<noteq> JSON_T_NONE then
          (case token_value E (a_type a) (a_text a) of
             Inl e \<Rightarrow> Throws e a
           | Inr v \<Rightarrow> atell E (Value v) a)
        else Returns a)
       aclear"

text \<open>The bytes of the character that four digits and perhaps an earlier surrogate name, and the surrogate
  to remember; \<open>None\<close> when the digits are refused.\<close>

definition decode_unit :: "int \<Rightarrow> int \<Rightarrow> (string \<times> int) option" where
  "decode_unit sur uc =
     (if sur \<noteq> 0 then
        (if IS_LOW_SURROGATE uc then Some (encoded (DECODE_SURROGATE_PAIR sur uc), 0) else None)
      else if IS_HIGH_SURROGATE uc then Some ([], uc)
      else if IS_LOW_SURROGATE uc then None
      else Some (encoded uc, 0))"

definition aunicode :: "'h auto \<Rightarrow> ('h auto \<times> bool) outcome" where
  "aunicode a =
     (let n = length (a_text a)
      in poco_assert (n \<ge> 6) a
        (case hex_loop 0 12 (drop (n - 4) (a_text a)) of
           None \<Rightarrow> Throws AssertionViolation (a, False)
         | Some uc \<Rightarrow>
             if \<not> a_nullByte a \<and> uc = 0 then Returns (a, False)
             else case decode_unit (a_surrogate a) uc of
                    None \<Rightarrow> Returns (a, False)
                  | Some (cs, sur) \<Rightarrow>
                      Returns (a\<lparr>a_text := take (n - 6) (a_text a) @ cs, a_surrogate := sur\<rparr>, True)))"

definition ago :: "States \<Rightarrow> 'h auto \<Rightarrow> ('h auto \<times> bool) outcome" where
  "ago s a = Returns (a\<lparr>a_state := s\<rparr>, True)"

fun aperform :: "('f, 'h) env \<Rightarrow> Actions \<Rightarrow> 'h auto \<Rightarrow> ('h auto \<times> bool) outcome" where
  "aperform E UC a = if_true (aunicode a) (\<lambda>a. ago (if a_surrogate a \<noteq> 0 then D1 else ST) a)"
| "aperform E ESC a = ago EC (a\<lparr>a_escaped := True\<rparr>)"
| "aperform E MX a = ago MI (a\<lparr>a_type := JSON_T_INTEGER\<rparr>)"
| "aperform E ZX a = ago ZE (a\<lparr>a_type := JSON_T_INTEGER\<rparr>)"
| "aperform E IX a = ago IT (a\<lparr>a_type := JSON_T_INTEGER\<rparr>)"
| "aperform E DE a = poco_assert (a_type a \<notin> {JSON_T_FALSE, JSON_T_TRUE, JSON_T_NULL, JSON_T_STRING}) a
     (ago E1 (a\<lparr>a_type := JSON_T_FLOAT\<rparr>))"
| "aperform E DF a = poco_assert (a_type a \<notin> {JSON_T_FALSE, JSON_T_TRUE, JSON_T_NULL, JSON_T_STRING}) a
     (ago FX (a\<lparr>a_type := JSON_T_FLOAT\<rparr>))"
| "aperform E SB a =
     call (aclear a) (\<lambda>a. poco_assert (a_type a = JSON_T_NONE) a (ago ST (a\<lparr>a_type := JSON_T_STRING\<rparr>)))"
| "aperform E NU a = poco_assert (a_type a = JSON_T_NONE) a (ago N1 (a\<lparr>a_type := JSON_T_NULL\<rparr>))"
| "aperform E FA a = poco_assert (a_type a = JSON_T_NONE) a (ago F1 (a\<lparr>a_type := JSON_T_FALSE\<rparr>))"
| "aperform E TR a = poco_assert (a_type a = JSON_T_NONE) a (ago T1 (a\<lparr>a_type := JSON_T_TRUE\<rparr>))"
| "aperform E CE a =
     (let a = a\<lparr>a_comment := False\<rparr>
      in poco_assert (a_text a = []) a (poco_assert (a_type a = JSON_T_NONE) a (ago (a_before a) a)))"
| "aperform E CB a =
     (if \<not> a_comments a then Returns (a, False)
      else call (and_then (aunput a) (aflush E))
        (\<lambda>a. poco_assert (a_text a = []) a
          (poco_assert (a_type a \<noteq> JSON_T_STRING) a
            (case atop a of
               Inl e \<Rightarrow> Throws e (a, False)
             | Inr m \<Rightarrow>
                 let before = (if m = MODE_ARRAY \<or> m = MODE_OBJECT
                               then (if a_state a = VA \<or> a_state a = AR then a_state a else OK)
                               else a_state a)
                 in ago C1 (a\<lparr>a_before := before, a_type := JSON_T_NONE, a_comment := True\<rparr>)))))"
| "aperform E M9 a =
     call (and_then (aclear a) (atell E EndObject)) (\<lambda>a. if_true (apop MODE_KEY a) (ago OK))"
| "aperform E M8 a =
     call (and_then (and_then (aunput a) (aflush E)) (atell E EndObject))
       (\<lambda>a. if_true (apop MODE_OBJECT a) (\<lambda>a. ago OK (a\<lparr>a_type := JSON_T_NONE\<rparr>)))"
| "aperform E M7 a =
     call (and_then (and_then (aunput a) (aflush E)) (atell E EndArray))
       (\<lambda>a. if_true (apop MODE_ARRAY a) (\<lambda>a. ago OK (a\<lparr>a_type := JSON_T_NONE\<rparr>)))"
| "aperform E M6 a =
     call (and_then (aunput a) (atell E StartObject))
       (\<lambda>a. if_true (apush MODE_KEY a) (\<lambda>a. poco_assert (a_type a = JSON_T_NONE) a (ago OB a)))"
| "aperform E M5 a =
     call (and_then (aunput a) (atell E StartArray))
       (\<lambda>a. if_true (apush MODE_ARRAY a) (\<lambda>a. poco_assert (a_type a = JSON_T_NONE) a (ago AR a)))"
| "aperform E M4 a =
     call (aunput a)
       (\<lambda>a. case atop a of
              Inl e \<Rightarrow> Throws e (a, False)
            | Inr m \<Rightarrow>
                if m = MODE_KEY then
                  poco_assert (a_type a = JSON_T_STRING) a
                    (call (and_then (atell E (Key (a_text a)) (a\<lparr>a_type := JSON_T_NONE, a_state := CO\<rparr>)) aclear)
                       (\<lambda>a. Returns (a, True)))
                else if m = MODE_ARRAY \<or> m = MODE_OBJECT then
                  poco_assert (a_type a = JSON_T_STRING) a
                    (call (aflush E a) (\<lambda>a. ago OK (a\<lparr>a_type := JSON_T_NONE\<rparr>)))
                else Returns (a, False))"
| "aperform E M3 a =
     call (and_then (aunput a) (aflush E))
       (\<lambda>a. case atop a of
              Inl e \<Rightarrow> Throws e (a, False)
            | Inr m \<Rightarrow>
                if m = MODE_OBJECT then
                  if_true (if_true (apop MODE_OBJECT a) (apush MODE_KEY))
                    (\<lambda>a. poco_assert (a_type a \<noteq> JSON_T_STRING) a (ago KE (a\<lparr>a_type := JSON_T_NONE\<rparr>)))
                else if m = MODE_ARRAY then
                  poco_assert (a_type a \<noteq> JSON_T_STRING) a (ago VA (a\<lparr>a_type := JSON_T_NONE\<rparr>))
                else Returns (a, False))"
| "aperform E M2 a =
     call (aunput a)
       (\<lambda>a. if_true (if_true (apop MODE_KEY a) (apush MODE_OBJECT))
              (\<lambda>a. poco_assert (a_type a = JSON_T_NONE) a (ago VA a)))"

definition aascii :: "('f, 'h) env \<Rightarrow> char \<Rightarrow> 'h auto \<Rightarrow> ('h auto \<times> bool) outcome" where
  "aascii E c a =
     (case asciiClass ! uchar c of
        None \<Rightarrow> Returns (a, False)
      | Some cl \<Rightarrow>
          call (aadd c cl a)
            (\<lambda>a. case nextState (a_state a) cl of
                   To s \<Rightarrow> ago s a
                 | Do x \<Rightarrow> aperform E x a
                 | xx \<Rightarrow> Returns (a, False)))"

definition achar :: "('f, 'h) env \<Rightarrow> 'h auto \<Rightarrow> char \<Rightarrow> string \<Rightarrow> ('h auto \<times> string \<times> bool) outcome" where
  "achar E a c source =
     (if \<not> a_nullByte a \<and> uchar c = 0 then Returns (a, source, False)
      else if uchar c \<ge> 0x80 then
        (let count = utf8CheckFirst c; n = nat count - 1; bytes = c # take n source
         in if count = 0 then Throws (JSONException ''Bad character.'') (a, source, False)
            else if length source < n
            then Throws (JSONException ''Invalid UTF8 sequence found'') (a, [], False)
            else if isLegal bytes count \<noteq> Inr True
            then Throws (JSONException ''No legal UTF8 found'') (a, drop n source, False)
            else Returns (a\<lparr>a_text := a_text a @ bytes\<rparr>, drop n source, True))
      else map_outcome_state (\<lambda>(a, b). (a, source, b)) (aascii E c a))"

lemma achar_source:
  "achar E p c source = Returns (p', source', b) \<Longrightarrow> length source' \<le> length source"
  by (auto simp: achar_def Let_def split: if_splits)

function aloop :: "('f, 'h) env \<Rightarrow> exn \<Rightarrow> 'h auto \<Rightarrow> string \<Rightarrow> 'h auto outcome" where
  "aloop E err a [] = Returns a"
| "aloop E err a (c # source) =
     (case achar E a c source of
        Returns (a, source, b) \<Rightarrow> if b then aloop E err a source else Throws err a
      | Throws e (a, source, b) \<Rightarrow> Throws e a)"
  by pat_completeness auto
termination
  by (relation "measure (\<lambda>(E, err, a, source). length source)") (auto dest: achar_source)

definition initial :: "'h option \<Rightarrow> 'h auto" where
  "initial h =
     \<lparr>a_handler = h, a_state = GO, a_before = GO, a_type = JSON_T_NONE, a_escaped = False, a_comment = False,
      a_surrogate = 0, a_modes = [MODE_DONE], a_text = [], a_nullByte = True, a_comments = False\<rparr>"

definition accepts :: "'h auto \<Rightarrow> bool" where
  "accepts a \<longleftrightarrow> a_state a = OK \<and> (\<exists>ms. a_modes a = MODE_DONE # ms)"

lemma accepts_code [code]:
  "accepts a \<longleftrightarrow> a_state a = OK \<and> (case a_modes a of [] \<Rightarrow> False | m # ms \<Rightarrow> m = MODE_DONE)"
  by (auto simp: accepts_def split: list.splits)

section \<open>Refinement\<close>

text \<open>What a \<open>Buffer\<close> promises to the parser: it holds a text, which grows and shrinks at its end. The client's lemma: a sequence of appends.\<close>

locale growing_text =
  fixes ok :: "'b \<Rightarrow> bool" and chars :: "'b \<Rightarrow> string" and append1 :: "char \<Rightarrow> 'b \<Rightarrow> 'b outcome"
    and shrink :: "nat \<Rightarrow> 'b \<Rightarrow> 'b outcome"
  assumes append1: "ok b \<Longrightarrow> \<exists>b'. append1 c b = Returns b' \<and> ok b' \<and> chars b' = chars b @ [c]"
    and shrink: "ok b \<Longrightarrow> n \<le> length (chars b) \<Longrightarrow> \<exists>b'. shrink n b = Returns b' \<and> ok b' \<and> chars b' = take n (chars b)"
begin

lemma append_unappend:
  "ok b \<Longrightarrow>
    \<exists>b'. and_then (append1 c b) (shrink (length (chars b))) = Returns b' \<and> ok b' \<and> chars b' = chars b"
  using append1 [of b c] shrink [of _ "length (chars b)"] by (metis and_then.simps(1) append_eq_conv_conj le_add1 length_append)

end

definition owned :: "buffer \<Rightarrow> bool" where
  "owned b \<longleftrightarrow> buffer_inv b \<and> b_ownMem b"

lemma length_chars_of: "owned b \<Longrightarrow> length (chars_of b) = b_used b"
  by (simp add: owned_def buffer_inv_def chars_of_def)

lemma resize_down:
  "owned b \<Longrightarrow> n \<le> b_used b \<Longrightarrow>
    \<exists>b'. buffer_resize fresh b n pres = Returns b' \<and> owned b' \<and> chars_of b' = take n (chars_of b)"
  by (auto simp: owned_def buffer_resize_def buffer_inv_def chars_of_def min_def)

lemma resize_up:
  assumes "owned b" "b_used b \<le> n"
  shows "\<exists>b' ys. buffer_resize fresh b n True = Returns b' \<and> owned b' \<and> b_used b' = n
    \<and> chars_of b' = chars_of b @ ys \<and> length ys = n - b_used b"
proof (cases "n > b_capacity b")
  case True
  have l: "b_used b \<le> length (cells (b_ptr b))" "b_ownMem b" using assms by (auto simp: owned_def buffer_inv_def)
  then show ?thesis using True assms
    by (auto simp: buffer_resize_def chars_of_def owned_def buffer_inv_def overwrite_def alloc_def Let_def)
next
  case False
  then have l: "n \<le> length (cells (b_ptr b))" using assms by (auto simp: owned_def buffer_inv_def)
  have "take n (cells (b_ptr b)) = take (b_used b) (cells (b_ptr b)) @ take (n - b_used b) (drop (b_used b) (cells (b_ptr b)))"
    using assms(2) by (metis le_add_diff_inverse take_add)
  then show ?thesis using False assms l by (auto simp: buffer_resize_def chars_of_def owned_def buffer_inv_def)
qed

lemma append_val_chars:
  assumes "owned b"
  shows "\<exists>b'. buffer_append_val fresh b c = Returns b' \<and> owned b' \<and> chars_of b' = chars_of b @ [c]"
proof -
  obtain b1 ys where b1: "buffer_resize fresh b (b_used b + 1) True = Returns b1" "owned b1" "b_used b1 = b_used b + 1"
    "chars_of b1 = chars_of b @ ys" "length ys = 1" using resize_up [OF assms, of "b_used b + 1" fresh] by auto
  have l: "b_used b1 \<le> length (cells (b_ptr b1))" using b1(2) by (simp add: owned_def buffer_inv_def)
  have t: "take (b_used b) (cells (b_ptr b1)) = chars_of b"
  proof -
    have "take (b_used b) (chars_of b1) = chars_of b" using b1(4) length_chars_of [OF assms] by simp
    then show ?thesis using b1(3) by (simp add: chars_of_def)
  qed
  let ?b = "b1\<lparr>b_ptr := (b_ptr b1)\<lparr>cells := overwrite (cells (b_ptr b1)) (b_used b) [c]\<rparr>\<rparr>"
  have "store (b_used b1 - 1) [c] b1 = Returns ?b" using b1(3) l by (simp add: store_Returns)
  moreover have "chars_of ?b = take (b_used b) (cells (b_ptr b1)) @ [c]"
    using b1(3) l by (simp add: chars_of_def overwrite_def)
  then have "chars_of ?b = chars_of b @ [c]" unfolding t .
  moreover have "owned ?b" using b1(2,3) l by (simp add: owned_def buffer_inv_def length_overwrite)
  ultimately show ?thesis using b1(1) by (simp add: buffer_append_val_def)
qed

definition grow_append :: "(nat \<Rightarrow> char) \<Rightarrow> char \<Rightarrow> buffer \<Rightarrow> buffer outcome" where
  "grow_append fresh c b =
     and_then
       (if b_used b + 1 \<ge> b_capacity b then setCapacity fresh b (b_capacity b * 2) True else Returns b)
       (\<lambda>b. buffer_append_val fresh b c)"

lemma setCapacity_chars:
  assumes "owned b" "b_used b \<le> n"
  shows "\<exists>b'. setCapacity fresh b n True = Returns b' \<and> owned b' \<and> chars_of b' = chars_of b"
proof -
  have l: "b_used b \<le> length (cells (b_ptr b))" "b_ownMem b" "length (cells (b_ptr b)) = b_capacity b"
    using assms by (auto simp: owned_def buffer_inv_def)
  show ?thesis
  proof (cases "n = b_capacity b")
    case True
    then show ?thesis using assms l by (simp add: setCapacity_def)
  next
    case False
    then show ?thesis using assms l
      by (auto simp: setCapacity_def chars_of_def owned_def buffer_inv_def overwrite_def alloc_def Let_def)
  qed
qed

interpretation plain: growing_text owned chars_of "\<lambda>c b. buffer_append_val fresh b c" "\<lambda>n b. buffer_resize fresh b n True"
proof
  fix b c assume "owned b"
  then show "\<exists>b'. buffer_append_val fresh b c = Returns b' \<and> owned b' \<and> chars_of b' = chars_of b @ [c]"
    by (rule append_val_chars)
next
  fix b n assume "owned b" "n \<le> length (chars_of b)"
  then show "\<exists>b'. buffer_resize fresh b n True = Returns b' \<and> owned b' \<and> chars_of b' = take n (chars_of b)"
    using resize_down length_chars_of by metis
qed

interpretation token: growing_text owned chars_of "grow_append fresh" "\<lambda>n b. buffer_resize fresh b n True"
proof
  fix b c assume b: "owned b"
  have "\<exists>b'. (if b_used b + 1 \<ge> b_capacity b then setCapacity fresh b (b_capacity b * 2) True else Returns b) = Returns b'
      \<and> owned b' \<and> chars_of b' = chars_of b"
    using b setCapacity_chars [OF b, of "b_capacity b * 2" fresh] by (auto simp: owned_def buffer_inv_def)
  then obtain b1 where b1: "(if b_used b + 1 \<ge> b_capacity b then setCapacity fresh b (b_capacity b * 2) True else Returns b) = Returns b1"
    "owned b1" "chars_of b1 = chars_of b" by blast
  then show "\<exists>b'. grow_append fresh c b = Returns b' \<and> owned b' \<and> chars_of b' = chars_of b @ [c]"
    using append_val_chars [of b1 fresh c] unfolding grow_append_def b1(1) by simp
qed (rule plain.shrink)

definition modes_of :: "'h parser \<Rightarrow> char list" where
  "modes_of p = rev (take (nat (p_top p + 1)) (chars_of (p_stack p)))"

definition abs_parser :: "'h parser \<Rightarrow> 'h auto" where
  "abs_parser p =
     \<lparr>a_handler = p_pHandler p, a_state = p_state p, a_before = p_beforeCommentState p, a_type = p_type p,
      a_escaped = p_escaped p, a_comment = p_comment p, a_surrogate = p_utf16HighSurrogate p,
      a_modes = modes_of p, a_text = chars_of (p_parseBuffer p), a_nullByte = p_allowNullByte p,
      a_comments = p_allowComments p\<rparr>"

definition rep :: "'h parser \<Rightarrow> bool" where
  "rep p \<longleftrightarrow> owned (p_parseBuffer p) \<and> owned (p_stack p) \<and> p_depth p < 0 \<and> 1 \<le> b_used (p_stack p)
     \<and> -1 \<le> p_top p \<and> p_top p < int (b_used (p_stack p))"

lemma abs_selectors [simp]:
  "a_handler (abs_parser p) = p_pHandler p" "a_state (abs_parser p) = p_state p"
  "a_before (abs_parser p) = p_beforeCommentState p" "a_type (abs_parser p) = p_type p"
  "a_escaped (abs_parser p) = p_escaped p" "a_comment (abs_parser p) = p_comment p"
  "a_surrogate (abs_parser p) = p_utf16HighSurrogate p" "a_modes (abs_parser p) = modes_of p"
  "a_text (abs_parser p) = chars_of (p_parseBuffer p)" "a_nullByte (abs_parser p) = p_allowNullByte p"
  "a_comments (abs_parser p) = p_allowComments p"
  by (simp_all add: abs_parser_def)

lemma abs_updates [simp]:
  "abs_parser (p\<lparr>p_pHandler := h\<rparr>) = (abs_parser p)\<lparr>a_handler := h\<rparr>"
  "abs_parser (p\<lparr>p_state := s\<rparr>) = (abs_parser p)\<lparr>a_state := s\<rparr>"
  "abs_parser (p\<lparr>p_beforeCommentState := s\<rparr>) = (abs_parser p)\<lparr>a_before := s\<rparr>"
  "abs_parser (p\<lparr>p_type := t\<rparr>) = (abs_parser p)\<lparr>a_type := t\<rparr>"
  "abs_parser (p\<lparr>p_escaped := b\<rparr>) = (abs_parser p)\<lparr>a_escaped := b\<rparr>"
  "abs_parser (p\<lparr>p_comment := b\<rparr>) = (abs_parser p)\<lparr>a_comment := b\<rparr>"
  "abs_parser (p\<lparr>p_utf16HighSurrogate := i\<rparr>) = (abs_parser p)\<lparr>a_surrogate := i\<rparr>"
  "abs_parser (p\<lparr>p_parseBuffer := buf\<rparr>) = (abs_parser p)\<lparr>a_text := chars_of buf\<rparr>"
  by (simp_all add: abs_parser_def modes_of_def)

lemma rep_updates [simp]:
  "rep (p\<lparr>p_pHandler := h\<rparr>) = rep p" "rep (p\<lparr>p_state := s\<rparr>) = rep p"
  "rep (p\<lparr>p_beforeCommentState := s\<rparr>) = rep p" "rep (p\<lparr>p_type := t\<rparr>) = rep p"
  "rep (p\<lparr>p_escaped := b\<rparr>) = rep p" "rep (p\<lparr>p_comment := b\<rparr>) = rep p"
  "rep (p\<lparr>p_utf16HighSurrogate := i\<rparr>) = rep p"
  by (simp_all add: rep_def)

lemma rep_buffer [simp]: "rep p \<Longrightarrow> rep (p\<lparr>p_parseBuffer := buf\<rparr>) \<longleftrightarrow> owned buf"
  by (simp add: rep_def)

text \<open>Simulation of a method of type \<open>void\<close>, and of one that returns a truth value. When an exception
  leaves the parser, or \<open>false\<close> does, only the handler counts.\<close>

fun sim :: "'h parser outcome \<Rightarrow> 'h auto outcome \<Rightarrow> bool" where
  "sim (Returns p) (Returns a) \<longleftrightarrow> rep p \<and> a = abs_parser p"
| "sim (Throws e p) (Throws e' a) \<longleftrightarrow> e = e' \<and> a_handler a = p_pHandler p"
| "sim _ _ \<longleftrightarrow> False"

fun simb :: "('h parser \<times> bool) outcome \<Rightarrow> ('h auto \<times> bool) outcome \<Rightarrow> bool" where
  "simb (Returns (p, b)) (Returns (a, b')) \<longleftrightarrow>
     b = b' \<and> (if b then rep p \<and> a = abs_parser p else a_handler a = p_pHandler p)"
| "simb (Throws e (p, b)) (Throws e' (a, b')) \<longleftrightarrow> e = e' \<and> a_handler a = p_pHandler p"
| "simb _ _ \<longleftrightarrow> False"

named_theorems sim_intros \<open>simulation of sequenced operations\<close>

lemma sim_and_then [sim_intros]:
  "sim m am \<Longrightarrow> (\<And>p. rep p \<Longrightarrow> sim (f p) (g (abs_parser p))) \<Longrightarrow> sim (and_then m f) (and_then am g)"
  by (cases m; cases am) auto

lemma simb_call [sim_intros]:
  "sim m am \<Longrightarrow> (\<And>p. rep p \<Longrightarrow> simb (f p) (g (abs_parser p))) \<Longrightarrow> simb (call m f) (call am g)"
  by (cases m; cases am) auto

lemma simb_if_true [sim_intros]:
  "simb m am \<Longrightarrow> (\<And>p. rep p \<Longrightarrow> simb (f p) (g (abs_parser p))) \<Longrightarrow> simb (if_true m f) (if_true am g)"
  by (cases "(m, am)" rule: simb.cases) auto

lemma simb_assert [sim_intros]:
  "rep p \<Longrightarrow> b = b' \<Longrightarrow> (b \<Longrightarrow> simb m am) \<Longrightarrow> simb (poco_assert b p m) (poco_assert b' (abs_parser p) am)"
  by (simp add: poco_assert_def)

lemma simb_go [sim_intros]: "rep p \<Longrightarrow> s = s' \<Longrightarrow> a = abs_parser p \<Longrightarrow> simb (go s p) (ago s' a)"
  by (simp add: go_def ago_def)

lemma sim_tell [sim_intros]: "rep p \<Longrightarrow> a = abs_parser p \<Longrightarrow> sim (tell E e p) (atell E e a)"
  by (cases "p_pHandler p"; cases "handle E e (the (p_pHandler p))") (auto simp: tell_def atell_def)

lemma sim_on_buffer:
  assumes "rep p" "\<exists>b'. f (p_parseBuffer p) = Returns b' \<and> owned b' \<and> chars_of b' = t"
  shows "sim (on_buffer f p) (Returns ((abs_parser p)\<lparr>a_text := t\<rparr>))"
  using assms by (auto simp: on_buffer_def)

lemma rep_owned: "rep p \<Longrightarrow> owned (p_parseBuffer p)"
  by (simp add: rep_def)

lemma sim_clear [sim_intros]: "rep p \<Longrightarrow> a = abs_parser p \<Longrightarrow> sim (clearBuffer E p) (aclear a)"
  unfolding clearBuffer_def aclear_def
  by (auto intro!: sim_on_buffer simp: plain.shrink [of _ 0, simplified] rep_owned)

lemma sim_put: "rep p \<Longrightarrow> sim (parseBufferPushBackChar E c p) (aput [c] (abs_parser p))"
  unfolding parseBufferPushBackChar_def aput_def grow_append_def [symmetric]
  by (auto intro!: sim_on_buffer token.append1 dest: rep_owned)

lemma used_chars: "rep p \<Longrightarrow> b_used (p_parseBuffer p) = length (chars_of (p_parseBuffer p))"
  by (simp add: length_chars_of rep_owned)

lemma sim_unput [sim_intros]: "rep p \<Longrightarrow> a = abs_parser p \<Longrightarrow> sim (parseBufferPopBackChar E p) (aunput a)"
proof (cases "chars_of (p_parseBuffer p) = []")
  case False
  assume r: "rep p" and a: "a = abs_parser p"
  have "sim (on_buffer (\<lambda>b. buffer_resize (junk E) b (b_used b - 1) True) p)
      (Returns ((abs_parser p)\<lparr>a_text := butlast (chars_of (p_parseBuffer p))\<rparr>))"
    unfolding butlast_conv_take using r False
    by (intro sim_on_buffer) (auto simp: used_chars [OF r] intro!: plain.shrink rep_owned)
  then show ?thesis using r a False
    by (simp add: parseBufferPopBackChar_def aunput_def used_chars Suc_le_eq)
qed (simp add: parseBufferPopBackChar_def aunput_def used_chars)

lemma store_chars:
  assumes "owned b" "i < b_used b"
  shows "\<exists>b'. store i [m] b = Returns b' \<and> owned b' \<and> b_used b' = b_used b \<and> chars_of b' = (chars_of b)[i := m]"
proof -
  have l: "i < length (cells (b_ptr b))" using assms by (auto simp: owned_def buffer_inv_def)
  then have "overwrite (cells (b_ptr b)) i [m] = (cells (b_ptr b))[i := m]"
    by (simp add: overwrite_def upd_conv_take_nth_drop)
  then show ?thesis using assms l
    by (simp add: store_Returns owned_def buffer_inv_def chars_of_def take_update_swap)
qed

lemma take_snoc_update: "i < length xs \<Longrightarrow> take (Suc i) (xs[i := m]) = take i xs @ [m]"
  by (simp add: take_Suc_conv_app_nth)

lemma simb_push [sim_intros]:
  assumes r: "rep p" and a: "a = abs_parser p"
  shows "simb (push E mode p) (apush mode a)"
proof -
  let ?t = "nat (p_top p + 1)"
  have st: "owned (p_stack p)" "1 \<le> b_used (p_stack p)" "-1 \<le> p_top p" "p_top p < int (b_used (p_stack p))" "p_depth p < 0"
    using r by (auto simp: rep_def)
  have "\<exists>b1 ys. (if p_top p + 1 \<ge> int (b_used (p_stack p))
        then buffer_resize (junk E) (p_stack p) (b_used (p_stack p) * 2) True else Returns (p_stack p)) = Returns b1
      \<and> owned b1 \<and> b_used (p_stack p) \<le> b_used b1 \<and> ?t < b_used b1 \<and> chars_of b1 = chars_of (p_stack p) @ ys"
    using st resize_up [OF st(1), of "b_used (p_stack p) * 2" "junk E"] by (cases "p_top p + 1 \<ge> int (b_used (p_stack p))") auto
  then obtain b1 ys where b1: "(if p_top p + 1 \<ge> int (b_used (p_stack p))
        then buffer_resize (junk E) (p_stack p) (b_used (p_stack p) * 2) True else Returns (p_stack p)) = Returns b1"
    "owned b1" "b_used (p_stack p) \<le> b_used b1" "?t < b_used b1" "chars_of b1 = chars_of (p_stack p) @ ys" by blast
  obtain b2 where b2: "store ?t [mode] b1 = Returns b2" "owned b2" "b_used b2 = b_used b1" "chars_of b2 = (chars_of b1)[?t := mode]"
    using store_chars [OF b1(2,4)] by blast
  let ?q = "p\<lparr>p_top := p_top p + 1, p_stack := b1\<rparr>"
  have "?t < length (chars_of b1)" using b1(2,4) by (simp add: length_chars_of)
  moreover have "?t \<le> length (chars_of (p_stack p))" using st by (simp add: length_chars_of)
  moreover have "nat (p_top p + 1 + 1) = Suc ?t" using st(3) by simp
  ultimately have m: "modes_of (p\<lparr>p_top := p_top p + 1, p_stack := b2\<rparr>) = mode # modes_of p"
    using b2(4) b1(5) st(3) take_snoc_update [of ?t "chars_of b1" mode] by (simp add: modes_of_def)
  have "push E mode p = Returns (p\<lparr>p_top := p_top p + 1, p_stack := b2\<rparr>, True)"
  proof (cases "p_top p + 1 \<ge> int (b_used (p_stack p))")
    case True
    then show ?thesis using b1(1,4) b2(1) st by (simp add: push_def Let_def poco_assert_def)
  next
    case False
    then show ?thesis using b1(1,4) b2(1) st by (simp add: push_def Let_def poco_assert_def)
  qed
  moreover have "rep (p\<lparr>p_top := p_top p + 1, p_stack := b2\<rparr>)" using r b1 b2 st by (simp add: rep_def)
  moreover have "abs_parser (p\<lparr>p_top := p_top p + 1, p_stack := b2\<rparr>) = (abs_parser p)\<lparr>a_modes := mode # modes_of p\<rparr>"
    using m by (simp add: abs_parser_def)
  ultimately show ?thesis by (simp add: apush_def a)
qed

lemma top_modes:
  assumes "rep p"
  shows "top_mode p = atop (abs_parser p)"
    and "p_top p < 0 \<longleftrightarrow> modes_of p = []"
    and "modes_of p = x # ms \<Longrightarrow> modes_of (p\<lparr>p_top := p_top p - 1\<rparr>) = ms"
proof -
  have st: "owned (p_stack p)" "-1 \<le> p_top p" "p_top p < int (b_used (p_stack p))" "length (chars_of (p_stack p)) = b_used (p_stack p)"
    "1 \<le> b_used (p_stack p)"
    using assms by (auto simp: rep_def length_chars_of)
  have e: "p_top p < 0 \<Longrightarrow> modes_of p = []" using st by (simp add: modes_of_def)
  have n: "modes_of p = chars_of (p_stack p) ! nat (p_top p) # rev (take (nat (p_top p)) (chars_of (p_stack p)))"
    if "0 \<le> p_top p"
  proof -
    have "nat (p_top p + 1) = Suc (nat (p_top p))" "nat (p_top p) < length (chars_of (p_stack p))" using that st by auto
    then show ?thesis by (simp add: modes_of_def take_Suc_conv_app_nth)
  qed
  show "p_top p < 0 \<longleftrightarrow> modes_of p = []" using e n by (cases "p_top p < 0") auto
  have b: "nat (p_top p) < b_used (p_stack p)" if "0 \<le> p_top p" using that st by auto
  show "top_mode p = atop (abs_parser p)"
    using e n b by (cases "p_top p < 0") (auto simp: top_mode_def atop_def buffer_at_def chars_of_def)
  show "modes_of p = x # ms \<Longrightarrow> modes_of (p\<lparr>p_top := p_top p - 1\<rparr>) = ms"
    using e n by (cases "p_top p < 0") (auto simp: modes_of_def)
qed

lemma simb_pop [sim_intros]:
  assumes r: "rep p" and a: "a = abs_parser p"
  shows "simb (pop mode p) (apop mode a)"
proof (cases "modes_of p")
  case Nil
  then show ?thesis using top_modes(2) [OF r] by (simp add: pop_def apop_def a)
next
  case (Cons x ms)
  have "top_mode p = Inr x" using top_modes(1) [OF r] Cons by (simp add: atop_def)
  moreover have "\<not> p_top p < 0" using top_modes(2) [OF r] Cons by simp
  moreover have "rep (p\<lparr>p_top := p_top p - 1\<rparr>)" using r \<open>\<not> p_top p < 0\<close> by (auto simp: rep_def)
  moreover have "abs_parser (p\<lparr>p_top := p_top p - 1\<rparr>) = (abs_parser p)\<lparr>a_modes := ms\<rparr>"
    using top_modes(3) [OF r Cons] by (simp add: abs_parser_def)
  ultimately show ?thesis using Cons by (simp add: pop_def apop_def a)
qed

lemma sim_add [sim_intros]:
  assumes "rep p" "a = abs_parser p"
  shows "sim (addCharToParseBuffer E c cl p) (aadd c cl a)"
proof -
  have two: "sim (and_then (parseBufferPushBackChar E x q) (parseBufferPushBackChar E y)) (aput [x, y] (abs_parser q))"
    if "rep q" for x y and q :: "'a parser"
    using sim_and_then [OF sim_put [OF that, of E x], of "parseBufferPushBackChar E y" "aput [y]"]
    by (simp add: sim_put) (simp add: aput_def)
  have none: "sim (Returns q) (aput [] (abs_parser q))" if "rep q" for q :: "'a parser"
    using that by (simp add: aput_def)
  have "sim (addEscapedCharToParseBuffer E c p) (and_then (aunput ((abs_parser p)\<lparr>a_escaped := False\<rparr>)) (aput (unescape c)))"
    unfolding addEscapedCharToParseBuffer_def unescape_def
    by (rule sim_and_then) (use assms in \<open>auto intro!: sim_unput sim_put two none\<close>)
  then show ?thesis using assms sim_put [OF assms(1), of E c] by (auto simp: addCharToParseBuffer_def aadd_def)
qed


text \<open>The \<open>catch\<close> clause around an integer also takes a \<open>SyntaxException\<close> of the handler; the handlers here
  throw none.\<close>

definition quiet_handler :: "('f, 'h) env \<Rightarrow> bool" where
  "quiet_handler E \<longleftrightarrow> (\<forall>e h msg h'. handle E e h \<noteq> Throws (SyntaxException msg) h')"

lemma tell_quiet: "quiet_handler E \<Longrightarrow> tell E e p \<noteq> Throws (SyntaxException msg) p'"
  by (cases "p_pHandler p"; cases "handle E e (the (p_pHandler p))") (auto simp: tell_def quiet_handler_def)

lemma tell_catch:
  assumes "quiet_handler E"
  shows "(case tell E e p of Throws (SyntaxException msg) p \<Rightarrow> F msg p | m \<Rightarrow> m) = tell E e p"
  using tell_quiet [OF assms, of e p] by (auto split: outcome.split exn.split)

lemma parse_integer_value:
  assumes "quiet_handler E"
  shows "parse_integer E p =
    (case integer_value (chars_of (p_parseBuffer p)) of Inl e \<Rightarrow> Throws e p | Inr v \<Rightarrow> tell E (Value v) p)"
proof (cases "parse64 (chars_of (p_parseBuffer p)) (CHR '','')")
  case (Inl e)
  then show ?thesis by (cases e) (simp_all add: parse_integer_def integer_value_def split: sum.split)
next
  case (Inr v)
  then show ?thesis using tell_catch [OF assms] by (simp add: parse_integer_def integer_value_def)
qed

lemma parse_float_value:
  assumes "rep p"
  shows "parse_float E p =
    (case float_value E (chars_of (p_parseBuffer p)) of Inl e \<Rightarrow> Throws e p | Inr v \<Rightarrow> tell E (Value v) p)"
proof -
  let ?b = "p_parseBuffer p"
  have l: "length (chars_of ?b) = b_used ?b" using used_chars [OF assms] by simp
  show ?thesis
  proof (cases "chars_of ?b = []")
    case True
    then have "b_used ?b = 0" using l by simp
    then show ?thesis using True by (simp add: parse_float_def float_value_def buffer_at_def)
  next
    case False
    then have "0 < length (chars_of ?b)" by simp
    then have "0 < b_used ?b" unfolding l .
    then have "buffer_at ?b (sub64 (b_used ?b) 1) = Inr (last (chars_of ?b))"
      using False l by (simp add: buffer_at_def sub64_def last_conv_nth chars_of_def)
    then show ?thesis using False by (simp add: parse_float_def float_value_def split: sum.split)
  qed
qed

lemma sim_value:
  assumes "rep p" "a = abs_parser p"
  shows "sim (case r of Inl e \<Rightarrow> Throws e p | Inr v \<Rightarrow> tell E (Value v) p)
    (case r of Inl e \<Rightarrow> Throws e a | Inr v \<Rightarrow> atell E (Value v) a)"
  using sim_tell [OF assms] assms by (auto split: sum.split)

lemma sim_flush [sim_intros]:
  assumes "rep p" "a = abs_parser p" "quiet_handler E"
  shows "sim (parseBuffer E p) (aflush E a)"
proof -
  have "sim (if p_pHandler p \<noteq> None \<and> p_type p \<noteq> JSON_T_NONE then
          (if \<not> assertNonContainer p then Throws AssertionViolation p
           else case p_type p of
                  JSON_T_TRUE \<Rightarrow> tell E (Value (VBool True)) p
                | JSON_T_FALSE \<Rightarrow> tell E (Value (VBool False)) p
                | JSON_T_NULL \<Rightarrow> tell E (Value VNull) p
                | JSON_T_FLOAT \<Rightarrow> parse_float E p
                | JSON_T_INTEGER \<Rightarrow> parse_integer E p
                | JSON_T_STRING \<Rightarrow> tell E (Value (VString (chars_of (p_parseBuffer p)))) p
                | _ \<Rightarrow> Returns p)
        else Returns p)
     (if a_handler a \<noteq> None \<and> a_type a \<noteq> JSON_T_NONE then
          (case token_value E (a_type a) (a_text a) of
             Inl e \<Rightarrow> Throws e a
           | Inr v \<Rightarrow> atell E (Value v) a)
        else Returns a)"
    using assms(1,2) sim_value [OF assms(1,2), where r = "integer_value (chars_of (p_parseBuffer p))" and E = E]
      sim_value [OF assms(1,2), where r = "float_value E (chars_of (p_parseBuffer p))" and E = E]
      sim_tell [OF assms(1,2), of E]
    by (cases "p_type p")
      (simp_all add: assertNonContainer_def parse_integer_value [OF assms(3)] parse_float_value [OF assms(1)])
  then show ?thesis unfolding parseBuffer_def aflush_def
    by (rule sim_and_then) (auto intro!: sim_clear)
qed


lemma hex_digit_nonneg: "0 \<le> hex_digit c"
  by (auto simp: hex_digit_def Let_def schar_def uchar_def)

lemma hex_loop_range:
  "hex_loop uc i s = Some uc' \<Longrightarrow> 0 \<le> uc \<Longrightarrow> uc < 2 ^ 16 \<Longrightarrow> i \<le> 12 \<Longrightarrow> 0 \<le> uc' \<and> uc' < 2 ^ 16"
proof (induction s arbitrary: uc i)
  case (Cons c s)
  have d: "hex_digit c < 16" and r: "hex_loop (uc OR push_bit i (hex_digit c)) (i - 4) s = Some uc'"
    using Cons.prems(1) by (auto split: if_splits)
  have "hex_digit c * 2 ^ i < 16 * 2 ^ i" using d by simp
  also have "\<dots> \<le> 16 * 2 ^ 12" using Cons.prems(4) by (intro mult_left_mono power_increasing) auto
  finally have "push_bit i (hex_digit c) < 2 ^ 16" by (simp add: push_bit_eq_mult)
  then have "uc OR push_bit i (hex_digit c) < 2 ^ 16" using Cons.prems(2,3) by (intro OR_upper) auto
  moreover have "0 \<le> uc OR push_bit i (hex_digit c)" using Cons.prems(2) hex_digit_nonneg [of c] by simp
  ultimately show ?case using Cons.IH [OF r] Cons.prems(4) by simp
qed simp

lemma sim_append1:
  "rep p \<Longrightarrow> sim (on_buffer (\<lambda>b. buffer_append_val fresh b c) p) (aput [c] (abs_parser p))"
  unfolding aput_def by (auto intro!: sim_on_buffer plain.append1 dest: rep_owned)

lemma sim_append_then:
  assumes "rep p" "\<And>p. rep p \<Longrightarrow> sim (f p) (aput t (abs_parser p))"
  shows "sim (and_then (on_buffer (\<lambda>b. buffer_append_val fresh b c) p) f) (aput (c # t) (abs_parser p))"
proof -
  have "sim (and_then (on_buffer (\<lambda>b. buffer_append_val fresh b c) p) f) (and_then (aput [c] (abs_parser p)) (aput t))"
    by (rule sim_and_then) (use assms sim_append1 in auto)
  then show ?thesis by (simp add: aput_def)
qed

text \<open>The bytes that the parser computes for a character are those of \<open>UTF8Encoding::convert\<close>.\<close>

lemma append_trail_sim:
  "rep p \<Longrightarrow> sim (append_trail E uc n p)
     (aput (map (\<lambda>i. to_char (drop_bit (6 * i) uc AND 0x3F OR 0x80)) (rev [0..<n])) (abs_parser p))"
proof (induction n arbitrary: p)
  case 0
  then show ?case by (simp add: aput_def)
next
  case (Suc n)
  show ?case using sim_append_then [OF Suc.prems Suc.IH] by simp
qed

lemma lead_or:
  assumes "0 \<le> (uc :: int)"
  shows "uc < 0x800 \<Longrightarrow> uc div 64 OR 0xC0 = uc div 64 + 0xC0"
    and "uc < 0x10000 \<Longrightarrow> uc div 4096 OR 0xE0 = uc div 4096 + 0xE0"
    and "uc \<le> 0x10FFFF \<Longrightarrow> uc div 262144 OR 0xF0 = uc div 262144 + 0xF0"
proof -
  show "uc < 0x800 \<Longrightarrow> uc div 64 OR 0xC0 = uc div 64 + 0xC0" using or_leads(2) [of "uc div 64"] assms by simp
  show "uc < 0x10000 \<Longrightarrow> uc div 4096 OR 0xE0 = uc div 4096 + 0xE0" using or_leads(3) [of "uc div 4096"] assms by simp
  show "uc \<le> 0x10FFFF \<Longrightarrow> uc div 262144 OR 0xF0 = uc div 262144 + 0xF0"
    using or_leads(4) [of "uc div 262144"] div_bounds [OF assms] by simp
qed

lemma computed_bytes:
  assumes "0 \<le> uc"
    "(k = 0 \<and> uc < 0x80) \<or> (k = 1 \<and> 0x80 \<le> uc \<and> uc < 0x800) \<or> (k = 2 \<and> 0x800 \<le> uc \<and> uc < 0x10000)
     \<or> (k = 3 \<and> 0x10000 \<le> uc \<and> uc \<le> 0x10FFFF)"
  shows "to_char (drop_bit (k * 6) uc OR utf8_lead_bits ! k)
      # map (\<lambda>i. to_char (drop_bit (6 * i) uc AND 0x3F OR 0x80)) (rev [0..<k]) = encoded uc"
proof -
  have u: "uc \<le> 0x10FFFF" using assms(2) by auto
  have r: "rev [0..<1] = [0::nat]" "rev [0..<2] = [1, 0::nat]" "rev [0..<3] = [2, 1, 0::nat]" by code_simp+
  from assms(2) consider "k = 0" "uc < 0x80" | "k = 1" "\<not> uc < 0x80" "uc < 0x800"
    | "k = 2" "\<not> uc < 0x80" "\<not> uc < 0x800" "uc < 0x10000"
    | "k = 3" "\<not> uc < 0x80" "\<not> uc < 0x800" "\<not> uc < 0x10000" by auto
  then show ?thesis
    using lead_or [OF assms(1)] u unfolding encoded_def convert_char_arith [OF assms(1) u]
    by cases (simp_all add: r utf8_lead_bits_def drop_bit_eq_div and_masks or_leads)
qed

lemma append_utf8_sim:
  assumes "rep p" "0 \<le> uc"
    "(k = 0 \<and> uc < 0x80) \<or> (k = 1 \<and> 0x80 \<le> uc \<and> uc < 0x800) \<or> (k = 2 \<and> 0x800 \<le> uc \<and> uc < 0x10000)
     \<or> (k = 3 \<and> 0x10000 \<le> uc \<and> uc \<le> 0x10FFFF)"
  shows "simb (append_utf8 E uc k p) (Returns ((abs_parser p)\<lparr>a_text := chars_of (p_parseBuffer p) @ encoded uc\<rparr>, True))"
proof -
  have "sim (and_then (on_buffer (\<lambda>b. buffer_append_val (junk E) b (to_char (drop_bit (k * 6) uc OR utf8_lead_bits ! k))) p)
       (append_trail E uc k)) (aput (encoded uc) (abs_parser p))"
    unfolding computed_bytes [OF assms(2,3), symmetric] by (rule sim_append_then [OF assms(1) append_trail_sim])
  then have "simb (append_utf8 E uc k p) (call (aput (encoded uc) (abs_parser p)) (\<lambda>a. Returns (a, True)))"
    unfolding append_utf8_def by (rule simb_call) simp
  then show ?thesis by (simp add: aput_def)
qed

lemma and_FC00: "(uc :: int) AND 0xFC00 = uc div 1024 mod 64 * 1024"
proof -
  have f: "(0xFC00 :: int) = push_bit 10 (mask 6)" by (simp add: push_bit_eq_mult mask_eq_exp_minus_1)
  have "uc AND 0xFC00 = push_bit 10 (take_bit 6 (drop_bit 10 uc))"
    unfolding f by (rule bit_eqI) (auto simp: bit_simps)
  then show ?thesis by (simp add: push_bit_eq_mult take_bit_eq_mod drop_bit_eq_div)
qed

lemma surrogate_ranges:
  assumes "0 \<le> uc" "uc < 2 ^ 16"
  shows "IS_HIGH_SURROGATE uc \<longleftrightarrow> 0xD800 \<le> uc \<and> uc \<le> 0xDBFF"
    and "IS_LOW_SURROGATE uc \<longleftrightarrow> 0xDC00 \<le> uc \<and> uc \<le> 0xDFFF"
proof -
  have "uc div 1024 mod 64 = uc div 1024" using assms by (intro mod_pos_pos_trivial) auto
  then show "IS_HIGH_SURROGATE uc \<longleftrightarrow> 0xD800 \<le> uc \<and> uc \<le> 0xDBFF"
    "IS_LOW_SURROGATE uc \<longleftrightarrow> 0xDC00 \<le> uc \<and> uc \<le> 0xDFFF"
    unfolding IS_HIGH_SURROGATE_def IS_LOW_SURROGATE_def and_FC00 by auto
qed

lemma pair_range: "0x10000 \<le> DECODE_SURROGATE_PAIR hi lo \<and> DECODE_SURROGATE_PAIR hi lo \<le> 0x10FFFF"
proof -
  have m: "(x :: int) AND 0x3FF = x mod 1024" for x
    using take_bit_eq_mask [of 10 x] by (simp add: take_bit_eq_mod mask_eq_exp_minus_1)
  have "0 \<le> hi mod 1024" "hi mod 1024 < 1024" "0 \<le> lo mod 1024" "lo mod 1024 < 1024" by auto
  then show ?thesis unfolding DECODE_SURROGATE_PAIR_def m push_bit_eq_mult by auto
qed

lemma simb_False: "simb m (Returns (a, False)) \<Longrightarrow> a_handler a' = a_handler a \<Longrightarrow> simb m (Returns (a', False))"
  by (cases "(m, Returns (a, False))" rule: simb.cases) auto

lemma simb_handler: "simb (Returns (p, b)) (Returns (a, b')) \<Longrightarrow> p_pHandler p = a_handler a"
  by (cases b) auto

lemma simb_Returns_right:
  "simb m (Returns (a, b)) \<Longrightarrow> \<exists>p. m = Returns (p, b) \<and> p_pHandler p = a_handler a \<and> (b \<longrightarrow> rep p \<and> a = abs_parser p)"
  by (cases "(m, Returns (a, b))" rule: simb.cases) (auto split: if_splits)

lemma sim_Returns_right: "sim m (Returns a) \<Longrightarrow> \<exists>p. m = Returns p \<and> rep p \<and> a = abs_parser p"
  by (cases m) auto

lemma simb_unicode [sim_intros]:
  assumes r: "rep p" and a: "a = abs_parser p"
  shows "simb (decodeUnicodeChar E p) (aunicode a)"
proof -
  let ?t = "chars_of (p_parseBuffer p)" and ?n = "b_used (p_parseBuffer p)"
  have n: "?n = length ?t" by (rule used_chars [OF r])
  show ?thesis
  proof (cases "hex_loop 0 12 (drop (?n - 4) ?t)")
    case None
    then show ?thesis using r by (simp add: decodeUnicodeChar_def aunicode_def a n Let_def poco_assert_def)
  next
    case (Some uc)
    have uc: "0 \<le> uc" "uc < 2 ^ 16" using hex_loop_range [OF Some] by auto
    show ?thesis
    proof (cases "?n \<ge> 6 \<and> \<not> (\<not> p_allowNullByte p \<and> uc = 0)")
      case False
      then show ?thesis using r Some by (auto simp: decodeUnicodeChar_def aunicode_def a n Let_def poco_assert_def)
    next
      case True
      let ?k = "\<lambda>p. if p_utf16HighSurrogate p \<noteq> 0 then
                      (if IS_LOW_SURROGATE uc then
                         append_utf8 E (DECODE_SURROGATE_PAIR (p_utf16HighSurrogate p) uc) 3
                           (p\<lparr>p_utf16HighSurrogate := 0\<rparr>)
                       else Returns (p, False))
                    else if uc < 0x80 then append_utf8 E uc 0 p
                    else if uc < 0x800 then append_utf8 E uc 1 p
                    else if IS_HIGH_SURROGATE uc then Returns (p\<lparr>p_utf16HighSurrogate := uc\<rparr>, True)
                    else if IS_LOW_SURROGATE uc then Returns (p, False)
                    else append_utf8 E uc 2 p"
      let ?ak = "\<lambda>a. case decode_unit (a_surrogate a) uc of
                    None \<Rightarrow> Returns (a, False)
                  | Some (cs, sur) \<Rightarrow> Returns (a\<lparr>a_text := a_text a @ cs, a_surrogate := sur\<rparr>, True)"
      have k: "simb (?k q) (?ak (abs_parser q))" if q: "rep q" for q :: "'a parser"
      proof -
        have pr: "simb (append_utf8 E (DECODE_SURROGATE_PAIR (p_utf16HighSurrogate q) uc) 3 (q\<lparr>p_utf16HighSurrogate := 0\<rparr>))
            (Returns ((abs_parser q)\<lparr>a_surrogate := 0, a_text := chars_of (p_parseBuffer q) @ encoded (DECODE_SURROGATE_PAIR (p_utf16HighSurrogate q) uc)\<rparr>, True))"
          using append_utf8_sim [of "q\<lparr>p_utf16HighSurrogate := 0\<rparr>" "DECODE_SURROGATE_PAIR (p_utf16HighSurrogate q) uc" 3 E]
            pair_range [of "p_utf16HighSurrogate q" uc] q by simp
        have ap: "simb (append_utf8 E uc j q) (Returns ((abs_parser q)\<lparr>a_text := chars_of (p_parseBuffer q) @ encoded uc\<rparr>, True))"
          if "(j = 0 \<and> uc < 0x80) \<or> (j = 1 \<and> 0x80 \<le> uc \<and> uc < 0x800) \<or> (j = 2 \<and> 0x800 \<le> uc)" for j
          using append_utf8_sim [of q uc j E] q uc that by auto
        show ?thesis
        proof (cases "p_utf16HighSurrogate q = 0")
          case False
          have ab: "(abs_parser q)\<lparr>a_surrogate := 0, a_text := t\<rparr> = (abs_parser q)\<lparr>a_text := t, a_surrogate := 0\<rparr>" for t
            by (simp add: abs_parser_def)
          show ?thesis using pr q False by (auto simp: decode_unit_def ab)
        next
          case sur: True
          have ab: "(abs_parser q)\<lparr>a_text := t, a_surrogate := 0\<rparr> = (abs_parser q)\<lparr>a_text := t\<rparr>" for t
            using sur by (simp add: abs_parser_def)
          show ?thesis using sur ap q uc
            by (auto simp: decode_unit_def ab surrogate_ranges [OF uc])
        qed
      qed
      have "simb (call (on_buffer (\<lambda>b. buffer_resize (junk E) b (b_used b - 6) True) p) ?k)
          (call (Returns ((abs_parser p)\<lparr>a_text := take (?n - 6) ?t\<rparr>)) ?ak)"
      proof (rule simb_call)
        show "sim (on_buffer (\<lambda>b. buffer_resize (junk E) b (b_used b - 6) True) p)
          (Returns ((abs_parser p)\<lparr>a_text := take (?n - 6) ?t\<rparr>))"
          by (rule sim_on_buffer [OF r]) (use r n in \<open>auto intro!: plain.shrink rep_owned\<close>)
      qed (rule k)
      moreover have "decodeUnicodeChar E p = call (on_buffer (\<lambda>b. buffer_resize (junk E) b (b_used b - 6) True) p) ?k"
        using True Some by (auto simp: decodeUnicodeChar_def Let_def poco_assert_def)
      moreover have "aunicode a = (case decode_unit (p_utf16HighSurrogate p) uc of None \<Rightarrow> Returns (abs_parser p, False)
          | Some (cs, sur) \<Rightarrow> Returns ((abs_parser p)\<lparr>a_text := take (?n - 6) ?t @ cs, a_surrogate := sur\<rparr>, True))"
        using True Some by (cases "decode_unit (p_utf16HighSurrogate p) uc") (auto simp: aunicode_def a n Let_def poco_assert_def)
      ultimately show ?thesis by (auto split: option.splits elim: simb_False)
    qed
  qed
qed


lemma simb_case_top [sim_intros]:
  assumes "rep p" "a = abs_parser p" "\<And>m. simb (F m) (G m)"
  shows "simb (case top_mode p of Inl e \<Rightarrow> Throws e (p, False) | Inr m \<Rightarrow> F m)
    (case atop a of Inl e \<Rightarrow> Throws e (a, False) | Inr m \<Rightarrow> G m)"
  using assms top_modes(1) [OF assms(1)] by (auto split: sum.split)

lemma simb_Returns [sim_intros]: "rep p \<Longrightarrow> a = abs_parser p \<Longrightarrow> b = b' \<Longrightarrow> simb (Returns (p, b)) (Returns (a, b'))"
  by simp

lemma simb_if [sim_intros]:
  "b = b' \<Longrightarrow> (b \<Longrightarrow> simb m am) \<Longrightarrow> (\<not> b \<Longrightarrow> simb n an) \<Longrightarrow> simb (if b then m else n) (if b' then am else an)"
  by simp

lemma used_zero: "rep p \<Longrightarrow> b_used (p_parseBuffer p) = 0 \<longleftrightarrow> chars_of (p_parseBuffer p) = []"
  using used_chars [of p] by simp

lemma perform_sim:
  assumes "quiet_handler E" "rep p"
  shows "simb (perform E x p) (aperform E x (abs_parser p))"
proof (cases x)
  case CE
  then show ?thesis using assms by (simp add: Let_def used_zero poco_assert_def go_def ago_def)
next
  case CB
  show ?thesis using assms unfolding CB perform.simps aperform.simps Let_def
    by (auto simp: used_zero intro!: sim_intros)
qed (use assms in \<open>auto simp: assertNotStringNullBool_def intro!: sim_intros\<close>)

lemma ascii_sim:
  assumes "quiet_handler E" "rep p"
  shows "simb (parse_ascii E c p) (aascii E c (abs_parser p))"
proof (cases "asciiClass ! uchar c")
  case (Some cl)
  have "simb (case nextState (p_state q) cl of To s \<Rightarrow> go s q | Do x \<Rightarrow> perform E x q | xx \<Rightarrow> Returns (q, False))
    (case nextState (a_state (abs_parser q)) cl of To s \<Rightarrow> ago s (abs_parser q) | Do x \<Rightarrow> aperform E x (abs_parser q)
      | xx \<Rightarrow> Returns (abs_parser q, False))" if "rep q" for q
    using that perform_sim [OF assms(1) that] by (auto simp: go_def ago_def split: entry.split)
  then show ?thesis using Some assms unfolding parse_ascii_def aascii_def
    by (auto intro!: simb_call sim_add)
qed (use assms in \<open>simp add: parse_ascii_def aascii_def\<close>)

lemma push_chars_sim: "rep p \<Longrightarrow> sim (push_chars E cs p) (aput cs (abs_parser p))"
proof (induction cs arbitrary: p)
  case (Cons c cs)
  have "sim (and_then (parseBufferPushBackChar E c p) (push_chars E cs)) (and_then (aput [c] (abs_parser p)) (aput cs))"
    by (rule sim_and_then) (use Cons sim_put in auto)
  then show ?case by (simp add: aput_def)
qed (simp add: aput_def)

fun simc :: "('h parser \<times> string \<times> bool) outcome \<Rightarrow> ('h auto \<times> string \<times> bool) outcome \<Rightarrow> bool" where
  "simc (Returns (p, s, b)) (Returns (a, s', b')) \<longleftrightarrow> s = s' \<and> simb (Returns (p, b)) (Returns (a, b'))"
| "simc (Throws e (p, s, b)) (Throws e' (a, s', b')) \<longleftrightarrow> e = e' \<and> a_handler a = p_pHandler p"
| "simc _ _ \<longleftrightarrow> False"

lemma simc_map:
  "simb m am \<Longrightarrow> simc (map_outcome_state (\<lambda>(p, b). (p, s, b)) m) (map_outcome_state (\<lambda>(a, b). (a, s, b)) am)"
  by (cases "(m, am)" rule: simb.cases) auto

lemma char_sim:
  assumes "quiet_handler E" "rep p"
  shows "simc (parseChar E p c source) (achar E (abs_parser p) c source)"
proof -
  have "simc (map_outcome_state (\<lambda>p. (p, s, True)) (push_chars E cs p))
      (Returns ((abs_parser p)\<lparr>a_text := chars_of (p_parseBuffer p) @ cs\<rparr>, s, True))" for s cs
    using push_chars_sim [OF assms(2), of E cs] by (cases "push_chars E cs p") (auto simp: aput_def)
  then show ?thesis using simc_map [OF ascii_sim [OF assms, of c], of source] assms(2)
    by (simp add: parseChar_def achar_def Let_def del: push_chars.simps)
qed

lemma loop_sim: "quiet_handler E \<Longrightarrow> rep p \<Longrightarrow> sim (parse_loop E err p s) (aloop E err (abs_parser p) s)"
proof (induction E err p s rule: parse_loop.induct)
  case (2 E err p c source)
  from char_sim [OF 2(2,3), of c source] show ?case
    using 2(1) [OF _ refl refl _ 2(2)]
    by (cases "(parseChar E p c source, achar E (abs_parser p) c source)" rule: simc.cases) (auto split: if_splits)
qed simp

lemma initial_rep: "rep (Parser_new E h n) \<and> abs_parser (Parser_new E h n) = initial h"
proof -
  define p where "p = \<lparr>p_pHandler = h, p_state = GO, p_beforeCommentState = GO, p_type = JSON_T_NONE,
               p_escaped = False, p_comment = False, p_utf16HighSurrogate = 0,
               p_depth = JSON_UNLIMITED_DEPTH, p_top = -1,
               p_stack = Buffer_new (junk E) JSON_PARSER_STACK_SIZE, p_parseBuffer = Buffer_new (junk E) n,
               p_decimalPoint = CHR ''.'', p_allowNullByte = True, p_allowComments = False\<rparr>"
  have o: "owned (Buffer_new (junk E) m)" for m
    by (simp add: owned_def buffer_inv_def Buffer_new_def alloc_def)
  have r: "rep p" using o by (simp add: p_def rep_def JSON_UNLIMITED_DEPTH_def Buffer_new_def JSON_PARSER_STACK_SIZE_def)
  obtain q where q: "clearBuffer E p = Returns q" "rep q" "abs_parser q = (abs_parser p)\<lparr>a_text := []\<rparr>"
    using sim_clear [OF r refl, of E] sim_Returns_right unfolding aclear_def by metis
  have "a_modes (abs_parser q) = []" unfolding q(3) by (simp add: p_def modes_of_def)
  then have "simb (push E MODE_DONE q) (Returns ((abs_parser q)\<lparr>a_modes := [MODE_DONE]\<rparr>, True))"
    using simb_push [OF q(2) refl, of E MODE_DONE] by (simp add: apush_def)
  from simb_Returns_right [OF this] obtain q' where q': "push E MODE_DONE q = Returns (q', True)" "rep q'"
    "abs_parser q' = (abs_parser q)\<lparr>a_modes := [MODE_DONE]\<rparr>" by auto
  have "Parser_new E h n = q'" using q(1) q'(1) by (simp add: Parser_new_def p_def)
  then show ?thesis using q' q(3) by (simp add: initial_def p_def abs_parser_def)
qed

text \<open>The refinement, for a whole text: the parser ends as the automaton does, with the same handler.\<close>

definition arun :: "('f, 'h) env \<Rightarrow> exn \<Rightarrow> 'h auto \<Rightarrow> string \<Rightarrow> 'h auto outcome" where
  "arun E err a s =
     and_then (aloop E err a s)
       (\<lambda>a. if accepts a then Returns a else Throws (JSONException ''JSON syntax error'') a)"

lemma parse_refines:
  assumes "quiet_handler E"
  shows "map_outcome_state p_pHandler (parse_with E err (Parser_new E h n) s)
    = map_outcome_state a_handler (arun E err (initial h) s)"
proof -
  let ?p = "Parser_new E h n"
  have "sim (parse_loop E err ?p s) (aloop E err (initial h) s)"
    using loop_sim [OF assms] initial_rep [of E h n] by metis
  then show ?thesis
  proof (cases "(parse_loop E err ?p s, aloop E err (initial h) s)" rule: sim.cases)
    case (1 q a)
    then have q: "rep q" "a = abs_parser q" "parse_loop E err ?p s = Returns q" "aloop E err (initial h) s = Returns a"
      using \<open>sim _ _\<close> by auto
    have "simb (is_done q) (Returns (if accepts a then a\<lparr>a_modes := tl (a_modes a)\<rparr> else a, accepts a))"
      using simb_pop [OF q(1,2), of MODE_DONE] q(1,2)
      by (auto simp: is_done_def accepts_def apop_def split: list.splits)
    from simb_Returns_right [OF this] obtain q' where d: "is_done q = Returns (q', accepts a)"
      "p_pHandler q' = a_handler (if accepts a then a\<lparr>a_modes := tl (a_modes a)\<rparr> else a)" by blast
    have "p_pHandler q' = a_handler a" unfolding d(2) by simp
    then show ?thesis using q(3,4) d(1) by (simp add: parse_with_def arun_def)
  next
    case (2 e q e' a)
    then show ?thesis using \<open>sim _ _\<close> by (auto simp: parse_with_def arun_def)
  qed auto
qed

end
