(* ===== verification/JSON_Grammar.thy ===== *)
theory JSON_Grammar
  imports JSON_Automaton
begin

text \<open>
  The language of the JSON parser. The first part runs the automaton over the pieces of a text: white space,
  strings, numbers. The grammar of RFC 4627 is given as inductive relations between a text and
  the tree it denotes, and the completeness theorem says that the parser reads every text of the
  grammar and calls the handler with the events of its tree.
\<close>

section \<open>Runs of the automaton\<close>

text \<open>A state of the automaton between two characters of a text, with no escape and no comment open.\<close>

definition at :: "States \<Rightarrow> JSONType \<Rightarrow> string \<Rightarrow> char list \<Rightarrow> 'h \<Rightarrow> 'h auto" where
  "at st ty tx ms h =
     \<lparr>a_handler = Some h, a_state = st, a_before = GO, a_type = ty, a_escaped = False, a_comment = False,
      a_surrogate = 0, a_modes = ms, a_text = tx, a_nullByte = True, a_comments = False\<rparr>"

lemma at_simps [simp]:
  "a_handler (at st ty tx ms h) = Some h" "a_state (at st ty tx ms h) = st" "a_type (at st ty tx ms h) = ty"
  "a_escaped (at st ty tx ms h) = False" "a_comment (at st ty tx ms h) = False"
  "a_surrogate (at st ty tx ms h) = 0" "a_modes (at st ty tx ms h) = ms" "a_text (at st ty tx ms h) = tx"
  "a_nullByte (at st ty tx ms h)" "\<not> a_comments (at st ty tx ms h)"
  "(at st ty tx ms h)\<lparr>a_state := st'\<rparr> = at st' ty tx ms h"
  "(at st ty tx ms h)\<lparr>a_type := ty'\<rparr> = at st ty' tx ms h"
  "(at st ty tx ms h)\<lparr>a_text := tx1\<rparr> = at st ty tx1 ms h"
  "(at st ty tx ms h)\<lparr>a_modes := ms'\<rparr> = at st ty tx ms' h"
  "(at st ty tx ms h)\<lparr>a_handler := Some h'\<rparr> = at st ty tx ms h'"
  "(at st ty tx ms h)\<lparr>a_escaped := False\<rparr> = at st ty tx ms h"
  "(at st ty tx ms h)\<lparr>a_surrogate := 0\<rparr> = at st ty tx ms h"
  by (simp_all add: at_def)

lemma initial_at: "initial (Some h) = at GO JSON_T_NONE [] [MODE_DONE] h"
  by (simp add: initial_def at_def)

text \<open>The rest of a run after one character.\<close>

definition resume :: "('f, 'h) env \<Rightarrow> exn \<Rightarrow> string \<Rightarrow> ('h auto \<times> bool) outcome \<Rightarrow> 'h auto outcome" where
  "resume E err rest m =
     (case m of
        Returns (a, b) \<Rightarrow> if b then aloop E err a rest else Throws err a
      | Throws e (a, b) \<Rightarrow> Throws e a)"

lemma resume_simps [simp]:
  "resume E err rest (Returns (a, True)) = aloop E err a rest"
  "resume E err rest (Returns (a, False)) = Throws err a"
  "resume E err rest (Throws e (a, b)) = Throws e a"
  by (simp_all add: resume_def)

declare aloop.simps(2) [simp del]

text \<open>One ASCII character, seen by its class.\<close>

definition class_of :: "char \<Rightarrow> Classes option" where
  "class_of c = (if uchar c < 128 then asciiClass ! uchar c else None)"

lemma aloop_class:
  assumes "class_of c = Some cl" "a_nullByte a"
  shows "aloop E err a (c # rest) =
    resume E err rest (call (aadd c cl a)
      (\<lambda>a. case nextState (a_state a) cl of To s \<Rightarrow> ago s a | Do x \<Rightarrow> aperform E x a | xx \<Rightarrow> Returns (a, False)))"
proof -
  have c: "uchar c < 128" "asciiClass ! uchar c = Some cl" using assms by (auto simp: class_of_def split: if_splits)
  then have "achar E a c rest = map_outcome_state (\<lambda>(a, b). (a, rest, b)) (aascii E c a)"
    using assms by (simp add: achar_def)
  then show ?thesis using c
    by (cases "aascii E c a") (auto simp: aloop.simps(2) aascii_def resume_def)
qed

definition token_text :: "JSONType \<Rightarrow> Classes \<Rightarrow> string \<Rightarrow> char \<Rightarrow> string" where
  "token_text ty cl tx c = (if ty = JSON_T_NONE \<and> (cl = C_SPACE \<or> cl = C_WHITE) then tx else tx @ [c])"

lemma aloop_to:
  assumes "class_of c = Some cl" "nextState st cl = To st'"
  shows "aloop E err (at st ty tx ms h) (c # rest) = aloop E err (at st' ty (token_text ty cl tx c) ms h) rest"
  using assms(2) by (auto simp: aloop_class [OF assms(1)] aadd_def aput_def ago_def token_text_def)

lemma aloop_do:
  assumes "class_of c = Some cl" "nextState st cl = Do x"
  shows "aloop E err (at st ty tx ms h) (c # rest)
    = resume E err rest (aperform E x (at st ty (token_text ty cl tx c) ms h))"
  using assms(2) by (auto simp: aloop_class [OF assms(1)] aadd_def aput_def token_text_def)

section \<open>Classes of the characters that the grammar names\<close>

lemma class_of_punct [simp]:
  "class_of CHR ''['' = Some C_LSQRB" "class_of CHR '']'' = Some C_RSQRB" "class_of CHR ''{'' = Some C_LCURB"
  "class_of CHR ''}'' = Some C_RCURB" "class_of CHR '':'' = Some C_COLON" "class_of CHR '','' = Some C_COMMA"
  "class_of CHR 0x22 = Some C_QUOTE" "class_of CHR 0x5C = Some C_BACKS" "class_of CHR ''/'' = Some C_SLASH"
  "class_of CHR ''-'' = Some C_MINUS" "class_of CHR ''+'' = Some C_PLUS" "class_of CHR ''.'' = Some C_POINT"
  "class_of CHR '' '' = Some C_SPACE"
  "class_of CHR 0x09 = Some C_WHITE" "class_of CHR 0x0A = Some C_WHITE" "class_of CHR 0x0D = Some C_WHITE"
  by (simp_all add: class_of_def asciiClass_def uchar_def)

lemma class_of_letters [simp]:
  "class_of CHR ''a'' = Some C_LOW_A" "class_of CHR ''b'' = Some C_LOW_B" "class_of CHR ''e'' = Some C_LOW_E"
  "class_of CHR ''f'' = Some C_LOW_F" "class_of CHR ''l'' = Some C_LOW_L" "class_of CHR ''n'' = Some C_LOW_N"
  "class_of CHR ''r'' = Some C_LOW_R" "class_of CHR ''s'' = Some C_LOW_S" "class_of CHR ''t'' = Some C_LOW_T"
  "class_of CHR ''u'' = Some C_LOW_U" "class_of CHR ''E'' = Some C_E"
  by (simp_all add: class_of_def asciiClass_def uchar_def)

definition ws_char :: "char \<Rightarrow> bool" where
  "ws_char c \<longleftrightarrow> c \<in> {CHR '' '', CHR 0x09, CHR 0x0A, CHR 0x0D}"

lemma class_of_ws: "ws_char c \<Longrightarrow> class_of c = Some C_SPACE \<or> class_of c = Some C_WHITE"
  by (auto simp: ws_char_def)

lemma class_of_digit:
  "dec_digit c \<Longrightarrow> class_of c = Some (if c = CHR ''0'' then C_ZERO else C_DIGIT)"
  unfolding dec_digit_cases by (elim insertE emptyE) (simp_all add: class_of_def asciiClass_def uchar_def)

lemmas table = nextState_def all_classes_def

lemma nextState_ws:
  "st \<in> {GO, OK, OB, KE, CO, VA, AR} \<Longrightarrow> cl = C_SPACE \<or> cl = C_WHITE \<Longrightarrow> nextState st cl = To st"
  "st \<in> {ZE, IT, FR, E3, FX} \<Longrightarrow> cl = C_SPACE \<or> cl = C_WHITE \<Longrightarrow> nextState st cl = To OK"
  by (auto simp: table)

lemma plain_class:
  assumes "0x20 \<le> uchar c" "uchar c < 0x80" "c \<noteq> CHR 0x22" "c \<noteq> CHR 0x5C"
  shows "\<exists>cl. class_of c = Some cl \<and> nextState ST cl = To ST"
proof -
  have "list_all (\<lambda>n. n = 34 \<or> n = 92 \<or> (case asciiClass ! n of Some cl \<Rightarrow> nextState ST cl = To ST | None \<Rightarrow> False)) [32..<128]"
    by code_simp
  moreover have "uchar c \<in> set [32..<128]" using assms(1,2) by (simp only: set_upt atLeastLessThan_iff)
  ultimately have "uchar c = 34 \<or> uchar c = 92 \<or> (case asciiClass ! uchar c of Some cl \<Rightarrow> nextState ST cl = To ST | None \<Rightarrow> False)"
    unfolding list_all_iff by blast
  moreover have "uchar CHR 0x22 = 34" "uchar CHR 0x5C = 92" by (simp_all add: uchar_def)
  then have "uchar c \<noteq> 34" "uchar c \<noteq> 92" using assms(3,4) uchar_inject by metis+
  ultimately have cl: "case asciiClass ! uchar c of Some cl \<Rightarrow> nextState ST cl = To ST | None \<Rightarrow> False" by blast
  show ?thesis
  proof (cases "asciiClass ! uchar c")
    case None
    then show ?thesis using cl by simp
  next
    case (Some k)
    then show ?thesis using cl assms(2) by (simp add: class_of_def)
  qed
qed

section \<open>Actions\<close>

lemma apop_at [simp]:
  "apop m (at st ty tx (x # ms) h) = (if x = m then Returns (at st ty tx ms h, True) else Returns (at st ty tx (x # ms) h, False))"
  by (simp add: apop_def)

lemma apush_at [simp]: "apush m (at st ty tx ms h) = Returns (at st ty tx (m # ms) h, True)"
  by (simp add: apush_def)

lemma atop_at [simp]: "atop (at st ty tx (x # ms) h) = Inr x"
  by (simp add: atop_def)

lemma ago_at [simp]: "ago s (at st ty tx ms h) = Returns (at s ty tx ms h, True)"
  by (simp add: ago_def)

lemma aclear_at [simp]: "aclear (at st ty tx ms h) = Returns (at st ty [] ms h)"
  by (simp add: aclear_def)

lemma aunput_at [simp]: "aunput (at st ty (tx @ [c]) ms h) = Returns (at st ty tx ms h)"
  by (simp add: aunput_def)

lemma atell_at:
  "atell E e (at st ty tx ms h) = map_outcome_state (at st ty tx ms) (handle E e h)"
  by (simp add: atell_def)

lemma assert_True [simp]: "poco_assert True p m = m" and assert_False [simp]: "poco_assert False p m = Throws AssertionViolation (p, False)"
  by (simp_all add: poco_assert_def)

lemma modes_distinct [simp]:
  "MODE_ARRAY \<noteq> MODE_KEY" "MODE_KEY \<noteq> MODE_ARRAY" "MODE_ARRAY \<noteq> MODE_OBJECT" "MODE_OBJECT \<noteq> MODE_ARRAY"
  "MODE_KEY \<noteq> MODE_OBJECT" "MODE_OBJECT \<noteq> MODE_KEY" "MODE_DONE \<noteq> MODE_KEY" "MODE_KEY \<noteq> MODE_DONE"
  "MODE_DONE \<noteq> MODE_ARRAY" "MODE_ARRAY \<noteq> MODE_DONE" "MODE_DONE \<noteq> MODE_OBJECT" "MODE_OBJECT \<noteq> MODE_DONE"
  by (simp_all add: MODE_ARRAY_def MODE_KEY_def MODE_OBJECT_def MODE_DONE_def)

text \<open>White space between tokens is skipped; behind a number or a literal it stays in the token.\<close>

lemma skip_ws:
  assumes "list_all ws_char w" "st \<in> {GO, OK, OB, KE, CO, VA, AR}"
  shows "aloop E err (at st JSON_T_NONE [] ms h) (w @ rest) = aloop E err (at st JSON_T_NONE [] ms h) rest"
  using assms(1)
proof (induction w)
  case (Cons c w)
  then obtain cl where cl: "class_of c = Some cl" "cl = C_SPACE \<or> cl = C_WHITE"
    using class_of_ws [of c] by auto
  show ?case
    using aloop_to [OF cl(1) nextState_ws(1) [OF assms(2) cl(2)], of E err JSON_T_NONE "[]" ms h "w @ rest"] Cons cl(2)
    by (simp add: token_text_def)
qed simp

lemma keep_ws:
  assumes "list_all ws_char w" "st \<in> {OK, ZE, IT, FR, E3, FX}" "ty \<noteq> JSON_T_NONE"
  shows "\<exists>st'. st' \<in> {OK, st} \<and> aloop E err (at st ty tx ms h) (w @ rest) = aloop E err (at st' ty (tx @ w) ms h) rest"
  using assms(1,2)
proof (induction w arbitrary: tx st)
  case (Cons c w)
  then obtain cl where cl: "class_of c = Some cl" "cl = C_SPACE \<or> cl = C_WHITE"
    using class_of_ws [of c] by auto
  have "nextState st cl = To OK" using nextState_ws [of st cl] cl(2) Cons.prems(2) by auto
  then have "aloop E err (at st ty tx ms h) ((c # w) @ rest) = aloop E err (at OK ty (tx @ [c]) ms h) (w @ rest)"
    using aloop_to [OF cl(1), of st OK E err ty tx ms h "w @ rest"] assms(3) by (simp add: token_text_def)
  then show ?case using Cons.IH [of OK "tx @ [c]"] Cons.prems(1) by auto
qed auto

section \<open>Strings\<close>

definition hex_char :: "char \<Rightarrow> bool" where
  "hex_char c \<longleftrightarrow> dec_digit c \<or> c \<in> set ''abcdefABCDEF''"

text \<open>The value of four hexadecimal digits.\<close>

definition hex_value4 :: "string \<Rightarrow> int" where
  "hex_value4 s = foldl (\<lambda>n c. n * 16 + hex_digit c) 0 s"

definition hex4 :: "string \<Rightarrow> int \<Rightarrow> bool" where
  "hex4 s n \<longleftrightarrow> length s = 4 \<and> list_all hex_char s \<and> hex_value4 s = n"

lemma hex_char_digit:
  assumes "hex_char c"
  shows "0 \<le> hex_digit c \<and> hex_digit c < 16"
    and "\<exists>cl. class_of c = Some cl \<and> nextState U1 cl = To U2 \<and> nextState U2 cl = To U3 \<and> nextState U3 cl = To U4
      \<and> nextState U4 cl = Do UC \<and> cl \<noteq> C_SPACE \<and> cl \<noteq> C_WHITE"
proof -
  have c: "c \<in> {CHR ''0'', CHR ''1'', CHR ''2'', CHR ''3'', CHR ''4'', CHR ''5'', CHR ''6'', CHR ''7'', CHR ''8'', CHR ''9'',
     CHR ''a'', CHR ''b'', CHR ''c'', CHR ''d'', CHR ''e'', CHR ''f'', CHR ''A'', CHR ''B'', CHR ''C'', CHR ''D'', CHR ''E'', CHR ''F''}"
    using assms unfolding hex_char_def dec_digit_cases by auto
  have d: "list_all (\<lambda>c. 0 \<le> hex_digit c \<and> hex_digit c < 16) ''0123456789abcdefABCDEF''" by code_simp
  have k: "list_all (\<lambda>c. case class_of c of None \<Rightarrow> False | Some cl \<Rightarrow> nextState U1 cl = To U2 \<and> nextState U2 cl = To U3
     \<and> nextState U3 cl = To U4 \<and> nextState U4 cl = Do UC \<and> cl \<noteq> C_SPACE \<and> cl \<noteq> C_WHITE) ''0123456789abcdefABCDEF''" by code_simp
  have c': "c \<in> set ''0123456789abcdefABCDEF''" using c by simp
  show "0 \<le> hex_digit c \<and> hex_digit c < 16" using d c' unfolding list_all_iff by blast
  have "case class_of c of None \<Rightarrow> False | Some cl \<Rightarrow> nextState U1 cl = To U2 \<and> nextState U2 cl = To U3
     \<and> nextState U3 cl = To U4 \<and> nextState U4 cl = Do UC \<and> cl \<noteq> C_SPACE \<and> cl \<noteq> C_WHITE"
    using k c' unfolding list_all_iff by blast
  then show "\<exists>cl. class_of c = Some cl \<and> nextState U1 cl = To U2 \<and> nextState U2 cl = To U3 \<and> nextState U3 cl = To U4
      \<and> nextState U4 cl = Do UC \<and> cl \<noteq> C_SPACE \<and> cl \<noteq> C_WHITE" by (cases "class_of c") auto
qed

lemma or_nibbles:
  assumes "0 \<le> (d :: int)" "d < 16"
  shows "push_bit 4 n OR d = n * 16 + d"
proof -
  have "push_bit 4 n OR take_bit 4 d = concat_bit 4 d n" by (simp add: concat_bit_def or.commute)
  also have "\<dots> = take_bit 4 d + push_bit 4 n" by (simp add: concat_bit_eq)
  finally show ?thesis using assms by (simp add: take_bit_eq_mod push_bit_eq_mult)
qed

lemma hex_loop_value:
  assumes "hex4 s n"
  shows "hex_loop 0 12 s = Some n \<and> 0 \<le> n \<and> n < 2 ^ 16"
proof -
  obtain a b c d where s: "s = [a, b, c, d]"
    using assms by (auto simp: hex4_def length_Suc_conv numeral_eq_Suc)
  have v: "0 \<le> hex_digit x \<and> hex_digit x < 16" if "x \<in> {a, b, c, d}" for x
    using assms that hex_char_digit(1) [of x] by (auto simp: hex4_def s)
  let ?u = "push_bit 12 (hex_digit a) OR push_bit 8 (hex_digit b) OR push_bit 4 (hex_digit c) OR hex_digit d"
  have "hex_loop 0 12 s = Some ?u" using v by (simp add: s or.assoc)
  moreover have "?u = ((hex_digit a * 16 + hex_digit b) * 16 + hex_digit c) * 16 + hex_digit d"
  proof -
    have "?u = push_bit 4 (push_bit 4 (push_bit 4 (hex_digit a) OR hex_digit b) OR hex_digit c) OR hex_digit d"
      by (simp add: push_bit_or or.assoc)
    then show ?thesis using v by (simp add: or_nibbles)
  qed
  moreover have "n = ((hex_digit a * 16 + hex_digit b) * 16 + hex_digit c) * 16 + hex_digit d"
    using assms by (simp add: hex4_def hex_value4_def s)
  ultimately have h: "hex_loop 0 12 s = Some n" by simp
  then show ?thesis using hex_loop_range [OF h] by simp
qed

text \<open>The body of a string, between its quotation marks, and the text it stands for (RFC 4627, section 2.5): unescaped characters, UTF-8
  sequences, escapes, and code points in four hexadecimal digits, those above \<open>0xFFFF\<close> as a pair of surrogates.\<close>

inductive str_body :: "string \<Rightarrow> string \<Rightarrow> bool" where
  str_Nil: "str_body [] []"
| str_plain: "0x20 \<le> uchar c \<Longrightarrow> uchar c < 0x80 \<Longrightarrow> c \<noteq> CHR 0x22 \<Longrightarrow> c \<noteq> CHR 0x5C \<Longrightarrow> str_body s v
    \<Longrightarrow> str_body (c # s) (c # v)"
| str_utf8: "scalar ch \<Longrightarrow> 0x80 \<le> ch \<Longrightarrow> str_body s v \<Longrightarrow> str_body (encoded ch @ s) (encoded ch @ v)"
| str_escape: "c \<in> {CHR 0x22, CHR 0x5C, CHR ''/'', CHR ''b'', CHR ''f'', CHR ''n'', CHR ''r'', CHR ''t''} \<Longrightarrow> str_body s v
    \<Longrightarrow> str_body (CHR 0x5C # c # s) (unescape c @ v)"
| str_unicode: "hex4 d n \<Longrightarrow> \<not> (0xD800 \<le> n \<and> n \<le> 0xDFFF) \<Longrightarrow> str_body s v
    \<Longrightarrow> str_body (CHR 0x5C # CHR ''u'' # d @ s) (encoded n @ v)"
| str_pair: "hex4 d hi \<Longrightarrow> 0xD800 \<le> hi \<Longrightarrow> hi \<le> 0xDBFF \<Longrightarrow> hex4 d' lo \<Longrightarrow> 0xDC00 \<le> lo \<Longrightarrow> lo \<le> 0xDFFF \<Longrightarrow> str_body s v
    \<Longrightarrow> str_body (CHR 0x5C # CHR ''u'' # d @ CHR 0x5C # CHR ''u'' # d' @ s)
          (encoded ((hi - 0xD800) * 0x400 + (lo - 0xDC00) + 0x10000) @ v)"

lemma aloop_next:
  assumes "class_of c = Some cl" "nextState (a_state a) cl = To st'" "a_nullByte a" "\<not> a_escaped a" "\<not> a_comment a"
    "cl \<noteq> C_SPACE" "cl \<noteq> C_WHITE"
  shows "aloop E err a (c # rest) = aloop E err (a\<lparr>a_text := a_text a @ [c], a_state := st'\<rparr>) rest"
  using assms(2-) by (simp add: aloop_class [OF assms(1,3)] aadd_def aput_def ago_def)

lemma hex_run:
  assumes "hex4 s n" "a_state a = U1" "a_nullByte a" "\<not> a_escaped a" "\<not> a_comment a"
  shows "aloop E err a (s @ rest) = resume E err rest (aperform E UC (a\<lparr>a_state := U4, a_text := a_text a @ s\<rparr>))"
proof -
  obtain x y z w where s: "s = [x, y, z, w]" using assms(1) by (auto simp: hex4_def length_Suc_conv numeral_eq_Suc)
  have h: "hex_char x" "hex_char y" "hex_char z" "hex_char w" using assms(1) by (auto simp: hex4_def s)
  obtain kx where kx: "class_of x = Some kx" "nextState U1 kx = To U2" "kx \<noteq> C_SPACE" "kx \<noteq> C_WHITE"
    using hex_char_digit(2) [OF h(1)] by auto
  obtain ky where ky: "class_of y = Some ky" "nextState U2 ky = To U3" "ky \<noteq> C_SPACE" "ky \<noteq> C_WHITE"
    using hex_char_digit(2) [OF h(2)] by auto
  obtain kz where kz: "class_of z = Some kz" "nextState U3 kz = To U4" "kz \<noteq> C_SPACE" "kz \<noteq> C_WHITE"
    using hex_char_digit(2) [OF h(3)] by auto
  obtain kw where kw: "class_of w = Some kw" "nextState U4 kw = Do UC" "kw \<noteq> C_SPACE" "kw \<noteq> C_WHITE"
    using hex_char_digit(2) [OF h(4)] by auto
  show ?thesis unfolding s using kx ky kz kw assms(2-)
    by (simp add: aloop_next [OF kx(1)] aloop_next [OF ky(1)] aloop_next [OF kz(1)] aloop_class [OF kw(1)] aadd_def aput_def)
qed

lemma unicode_text:
  assumes "hex4 s n" "a_text a = tx @ [CHR 0x5C, CHR ''u''] @ s" "a_nullByte a"
  shows "aunicode a = (case decode_unit (a_surrogate a) n of None \<Rightarrow> Returns (a, False)
    | Some (cs, sur) \<Rightarrow> Returns (a\<lparr>a_text := tx @ cs, a_surrogate := sur\<rparr>, True))"
proof -
  have l: "length s = 4" using assms(1) by (simp add: hex4_def)
  have t: "length (a_text a) = length tx + 6" "drop (length (a_text a) - 4) (a_text a) = s" "take (length (a_text a) - 6) (a_text a) = tx"
    using assms(2) l by simp_all
  show ?thesis using assms(3) hex_loop_value [OF assms(1)] unfolding aunicode_def Let_def t(2,3) by (simp add: t(1))
qed

text \<open>An escape: the backslash goes to the token and comes out again when its letter is read.\<close>

lemma escape_run:
  assumes "class_of c = Some cl" "nextState EC cl = To st"
  shows "aloop E err (at ST JSON_T_STRING tx ms h) (CHR 0x5C # c # rest)
    = aloop E err (at st JSON_T_STRING (tx @ unescape c) ms h) rest"
proof -
  let ?a = "(at EC JSON_T_STRING (tx @ [CHR 0x5C]) ms h)\<lparr>a_escaped := True\<rparr>"
  have "nextState ST C_BACKS = Do ESC" by code_simp
  then have "aloop E err (at ST JSON_T_STRING tx ms h) (CHR 0x5C # c # rest) = aloop E err ?a (c # rest)"
    using aloop_do [of "CHR 0x5C" C_BACKS ST ESC E err JSON_T_STRING tx ms h "c # rest"]
    by (simp add: token_text_def ago_def at_def)
  also have "\<dots> = aloop E err (at st JSON_T_STRING (tx @ unescape c) ms h) rest"
    using assms(2) by (simp add: aloop_class [OF assms(1)] aadd_def aunput_def aput_def ago_def at_def)
  finally show ?thesis .
qed


lemma decode_unit_pair:
  assumes "0xD800 \<le> hi" "hi \<le> 0xDBFF" "0xDC00 \<le> lo" "lo \<le> 0xDFFF"
  shows "decode_unit 0 hi = Some ([], hi)"
    and "decode_unit hi lo = Some (encoded ((hi - 0xD800) * 0x400 + (lo - 0xDC00) + 0x10000), 0)"
proof -
  show "decode_unit 0 hi = Some ([], hi)" using assms surrogate_ranges [of hi] by (simp add: decode_unit_def)
  have m: "(x :: int) AND 0x3FF = x mod 1024" for x
    using take_bit_eq_mask [of 10 x] by (simp add: take_bit_eq_mod mask_eq_exp_minus_1)
  have "hi mod 1024 = hi - 0xD800" "lo mod 1024 = lo - 0xDC00"
    using assms mod_pos_pos_trivial [of "hi - 0xD800" 1024] mod_pos_pos_trivial [of "lo - 0xDC00" 1024]
    by (simp_all add: mod_diff_eq [symmetric])
  then have "DECODE_SURROGATE_PAIR hi lo = (hi - 0xD800) * 0x400 + (lo - 0xDC00) + 0x10000"
    by (simp add: DECODE_SURROGATE_PAIR_def m push_bit_eq_mult)
  then show "decode_unit hi lo = Some (encoded ((hi - 0xD800) * 0x400 + (lo - 0xDC00) + 0x10000), 0)"
    using assms surrogate_ranges [of lo] by (simp add: decode_unit_def)
qed

lemma decode_unit_plain:
  "0 \<le> n \<Longrightarrow> n < 2 ^ 16 \<Longrightarrow> \<not> (0xD800 \<le> n \<and> n \<le> 0xDFFF) \<Longrightarrow> decode_unit 0 n = Some (encoded n, 0)"
  using surrogate_ranges [of n] by (auto simp: decode_unit_def)

lemma unicode_run:
  assumes "hex4 d n" "\<not> (0xD800 \<le> n \<and> n \<le> 0xDFFF)"
  shows "aloop E err (at ST JSON_T_STRING tx ms h) (CHR 0x5C # CHR ''u'' # d @ rest)
    = aloop E err (at ST JSON_T_STRING (tx @ encoded n) ms h) rest"
proof -
  let ?u = "[CHR 0x5C, CHR ''u'']"
  have "nextState EC C_LOW_U = To U1" by code_simp
  then have "aloop E err (at ST JSON_T_STRING tx ms h) (CHR 0x5C # CHR ''u'' # d @ rest)
      = aloop E err (at U1 JSON_T_STRING (tx @ ?u) ms h) (d @ rest)"
    using escape_run [of "CHR ''u''" C_LOW_U U1] by (simp add: unescape_def)
  also have "\<dots> = resume E err rest (aperform E UC (at U4 JSON_T_STRING (tx @ ?u @ d) ms h))"
    by (subst hex_run [OF assms(1)]) simp_all
  also have "\<dots> = aloop E err (at ST JSON_T_STRING (tx @ encoded n) ms h) rest"
    using unicode_text [OF assms(1), of "at U4 JSON_T_STRING (tx @ ?u @ d) ms h" tx] hex_loop_value [OF assms(1)]
      decode_unit_plain [OF _ _ assms(2)] by simp
  finally show ?thesis .
qed

lemma pair_run:
  assumes "hex4 d hi" "0xD800 \<le> hi" "hi \<le> 0xDBFF" "hex4 d' lo" "0xDC00 \<le> lo" "lo \<le> 0xDFFF"
  shows "aloop E err (at ST JSON_T_STRING tx ms h) (CHR 0x5C # CHR ''u'' # d @ CHR 0x5C # CHR ''u'' # d' @ rest)
    = aloop E err (at ST JSON_T_STRING (tx @ encoded ((hi - 0xD800) * 0x400 + (lo - 0xDC00) + 0x10000)) ms h) rest"
proof -
  let ?u = "[CHR 0x5C, CHR ''u'']" and ?r = "d' @ rest"
  let ?a = "(at D1 JSON_T_STRING tx ms h)\<lparr>a_surrogate := hi\<rparr>"
  have n: "nextState EC C_LOW_U = To U1" "nextState D1 C_BACKS = To D2" "nextState D2 C_LOW_U = To U1" by code_simp+
  have "aloop E err (at ST JSON_T_STRING tx ms h) (CHR 0x5C # CHR ''u'' # d @ CHR 0x5C # CHR ''u'' # ?r)
      = aloop E err (at U1 JSON_T_STRING (tx @ ?u) ms h) (d @ CHR 0x5C # CHR ''u'' # ?r)"
    using escape_run [of "CHR ''u''" C_LOW_U U1] n by (simp add: unescape_def)
  also have "\<dots> = resume E err (CHR 0x5C # CHR ''u'' # ?r) (aperform E UC (at U4 JSON_T_STRING (tx @ ?u @ d) ms h))"
    by (subst hex_run [OF assms(1)]) simp_all
  also have "\<dots> = aloop E err ?a (CHR 0x5C # CHR ''u'' # ?r)"
    using unicode_text [OF assms(1), of "at U4 JSON_T_STRING (tx @ ?u @ d) ms h" tx] decode_unit_pair(1) [of hi lo] assms
    by (simp add: ago_def at_def)
  also have "\<dots> = aloop E err (?a\<lparr>a_state := U1, a_text := tx @ ?u\<rparr>) ?r"
    using n by (simp add: aloop_next [of "CHR 0x5C" C_BACKS _ D2] aloop_next [of "CHR ''u''" C_LOW_U _ U1] at_def)
  also have "\<dots> = resume E err rest (aperform E UC (?a\<lparr>a_state := U4, a_text := tx @ ?u @ d'\<rparr>))"
    by (subst hex_run [OF assms(4)]) (simp_all add: at_def)
  also have "\<dots> = aloop E err (at ST JSON_T_STRING (tx @ encoded ((hi - 0xD800) * 0x400 + (lo - 0xDC00) + 0x10000)) ms h) rest"
    using unicode_text [OF assms(4), of "?a\<lparr>a_state := U4, a_text := tx @ ?u @ d'\<rparr>" tx] decode_unit_pair(2) [of hi lo] assms
    by (simp add: ago_def at_def)
  finally show ?thesis .
qed

lemma first_byte:
  assumes "scalar ch" "0x80 \<le> ch"
  shows "\<exists>c cs. encoded ch = c # cs \<and> utf8CheckFirst c = int (Suc (length cs)) \<and> 0x80 \<le> uchar c"
  using assms(1)
proof (cases rule: encoded_cases)
  case one
  then show ?thesis using assms(2) by simp
next
  case (two a b)
  then have "0xC2 \<le> byte a" "byte a < 0xE0" by auto
  then have "utf8CheckFirst a = 2" "0x80 \<le> uchar a" by (simp_all add: utf8CheckFirst_def Let_def byte_def)
  then show ?thesis using two(3) by simp
next
  case (three a b c)
  then have "0xE0 \<le> byte a" "byte a < 0xF0" by auto
  then have "utf8CheckFirst a = 3" "0x80 \<le> uchar a" by (simp_all add: utf8CheckFirst_def Let_def byte_def)
  then show ?thesis using three(3) by simp
next
  case (four a b c d)
  have "0 \<le> ch" using assms by simp
  then have "0xF0 \<le> byte a" "byte a \<le> 0xF4" using div_bounds [OF _ four(2)] unfolding four(5) by auto
  then have "utf8CheckFirst a = 4" "0x80 \<le> uchar a" by (simp_all add: utf8CheckFirst_def Let_def byte_def)
  then show ?thesis using four(3) by simp
qed

lemma utf8_run:
  assumes "scalar ch" "0x80 \<le> ch"
  shows "aloop E err (at st ty tx ms h) (encoded ch @ rest) = aloop E err (at st ty (tx @ encoded ch) ms h) rest"
proof -
  obtain c cs where c: "encoded ch = c # cs" "utf8CheckFirst c = int (Suc (length cs))" "0x80 \<le> uchar c"
    using first_byte [OF assms] by blast
  have "isLegal (c # take (length cs) (cs @ rest)) (int (Suc (length cs))) = Inr True"
    using isLegal_encoded [OF assms(1), of "[]"] c(1) by simp
  then have "achar E (at st ty tx ms h) c (cs @ rest) = Returns (at st ty (tx @ c # cs) ms h, rest, True)"
    using c(2,3) by (simp add: achar_def Let_def nat_add_distrib)
  then show ?thesis unfolding c(1) by (simp add: aloop.simps(2))
qed

lemma string_run:
  "str_body s v \<Longrightarrow> aloop E err (at ST JSON_T_STRING tx ms h) (s @ rest) = aloop E err (at ST JSON_T_STRING (tx @ v) ms h) rest"
proof (induction arbitrary: tx rule: str_body.induct)
  case (str_plain c s v)
  obtain cl where "class_of c = Some cl" "nextState ST cl = To ST" using plain_class [OF str_plain(1-4)] by blast
  then show ?case using aloop_to [of c cl ST ST E err JSON_T_STRING tx ms h "s @ rest"] str_plain(6) [of "tx @ [c]"]
    by (simp add: token_text_def)
next
  case (str_utf8 ch s v)
  show ?case using utf8_run [OF str_utf8(1,2), of E err ST JSON_T_STRING tx ms h "s @ rest"] str_utf8(4) [of "tx @ encoded ch"] by simp
next
  case (str_escape c s v)
  have "list_all (\<lambda>c. case class_of c of None \<Rightarrow> False | Some cl \<Rightarrow> nextState EC cl = To ST)
     [CHR 0x22, CHR 0x5C, CHR ''/'', CHR ''b'', CHR ''f'', CHR ''n'', CHR ''r'', CHR ''t'']" by code_simp
  then have "case class_of c of None \<Rightarrow> False | Some cl \<Rightarrow> nextState EC cl = To ST"
    using str_escape(1) by (auto simp: list_all_iff)
  then obtain cl where cl: "class_of c = Some cl" "nextState EC cl = To ST" by (cases "class_of c") auto
  show ?case using escape_run [OF cl, of E err tx ms h "s @ rest"] str_escape(3) [of "tx @ unescape c"] by simp
next
  case (str_unicode d n s v)
  show ?case using unicode_run [OF str_unicode(1,2), of E err tx ms h "s @ rest"] str_unicode(4) [of "tx @ encoded n"] by simp
next
  case (str_pair d hi d' lo s v)
  show ?case using pair_run [OF str_pair(1-6), of E err tx ms h "s @ rest"] str_pair(8) by simp
qed simp

section \<open>Numbers\<close>

text \<open>An integer: an optional sign and decimal digits without a leading zero (RFC 4627, section 2.4).\<close>

definition digits_text :: "string \<Rightarrow> bool" where
  "digits_text ds \<longleftrightarrow> ds \<noteq> [] \<and> list_all dec_digit ds \<and> (hd ds = CHR ''0'' \<longrightarrow> ds = ''0'')"

definition int_text :: "string \<Rightarrow> bool" where
  "int_text s \<longleftrightarrow> digits_text s \<or> (\<exists>ds. s = CHR ''-'' # ds \<and> digits_text ds)"

definition digit_class :: "Classes \<Rightarrow> bool" where
  "digit_class cl \<longleftrightarrow> cl = C_ZERO \<or> cl = C_DIGIT"

lemma digit_transitions:
  "digit_class cl \<Longrightarrow> nextState IT cl = To IT" "digit_class cl \<Longrightarrow> nextState FR cl = To FR"
  "digit_class cl \<Longrightarrow> nextState FX cl = To FR" "digit_class cl \<Longrightarrow> nextState E1 cl = To E3"
  "digit_class cl \<Longrightarrow> nextState E2 cl = To E3" "digit_class cl \<Longrightarrow> nextState E3 cl = To E3"
proof -
  have "list_all (\<lambda>cl. nextState IT cl = To IT \<and> nextState FR cl = To FR \<and> nextState FX cl = To FR \<and> nextState E1 cl = To E3
     \<and> nextState E2 cl = To E3 \<and> nextState E3 cl = To E3) [C_ZERO, C_DIGIT]" by code_simp
  then show "digit_class cl \<Longrightarrow> nextState IT cl = To IT" "digit_class cl \<Longrightarrow> nextState FR cl = To FR"
    "digit_class cl \<Longrightarrow> nextState FX cl = To FR" "digit_class cl \<Longrightarrow> nextState E1 cl = To E3"
    "digit_class cl \<Longrightarrow> nextState E2 cl = To E3" "digit_class cl \<Longrightarrow> nextState E3 cl = To E3"
    by (auto simp: digit_class_def)
qed

lemma digits_run:
  assumes "list_all dec_digit ds" "st \<in> {IT, FR, E3}"
  shows "ty \<noteq> JSON_T_NONE \<Longrightarrow> aloop E err (at st ty tx ms h) (ds @ rest) = aloop E err (at st ty (tx @ ds) ms h) rest"
  using assms(1)
proof (induction ds arbitrary: tx)
  case (Cons c ds)
  obtain cl where cl: "class_of c = Some cl" "digit_class cl"
    using class_of_digit [of c] Cons.prems by (auto simp: digit_class_def)
  have "nextState st cl = To st" using digit_transitions cl(2) assms(2) by auto
  then show ?case using aloop_to [OF cl(1), of st st E err ty tx ms h "ds @ rest"] Cons by (simp add: token_text_def)
qed simp

lemma digit_class_of:
  assumes "dec_digit c"
  obtains cl where "class_of c = Some cl" "digit_class cl" "c = CHR ''0'' \<longleftrightarrow> cl = C_ZERO"
  using class_of_digit [OF assms] by (cases "c = CHR ''0''") (auto simp: digit_class_def)

lemma start_transitions:
  "st \<in> {VA, AR} \<Longrightarrow> nextState st C_ZERO = Do ZX \<and> nextState st C_DIGIT = Do IX \<and> nextState st C_MINUS = Do MX
     \<and> nextState st C_LOW_T = Do TR \<and> nextState st C_LOW_F = Do FA \<and> nextState st C_LOW_N = Do NU
     \<and> nextState st C_QUOTE = Do SB \<and> nextState st C_LSQRB = Do M5 \<and> nextState st C_LCURB = Do M6"
proof -
  have "list_all (\<lambda>st. nextState st C_ZERO = Do ZX \<and> nextState st C_DIGIT = Do IX \<and> nextState st C_MINUS = Do MX
     \<and> nextState st C_LOW_T = Do TR \<and> nextState st C_LOW_F = Do FA \<and> nextState st C_LOW_N = Do NU
     \<and> nextState st C_QUOTE = Do SB \<and> nextState st C_LSQRB = Do M5 \<and> nextState st C_LCURB = Do M6) [VA, AR]" by code_simp
  then show "st \<in> {VA, AR} \<Longrightarrow> nextState st C_ZERO = Do ZX \<and> nextState st C_DIGIT = Do IX \<and> nextState st C_MINUS = Do MX
     \<and> nextState st C_LOW_T = Do TR \<and> nextState st C_LOW_F = Do FA \<and> nextState st C_LOW_N = Do NU
     \<and> nextState st C_QUOTE = Do SB \<and> nextState st C_LSQRB = Do M5 \<and> nextState st C_LCURB = Do M6" by auto
qed

lemma int_run:
  assumes "int_text s" "st \<in> {VA, AR}"
  shows "aloop E err (at st JSON_T_NONE [] ms h) (s @ rest)
    = aloop E err (at (if last s = CHR ''0'' \<and> (s = ''0'' \<or> s = ''-0'') then ZE else IT) JSON_T_INTEGER s ms h) rest"
proof (cases "digits_text s")
  case True
  then obtain c ds where s: "s = c # ds" "dec_digit c" "list_all dec_digit ds" "c = CHR ''0'' \<longrightarrow> ds = []"
    by (cases s) (auto simp: digits_text_def)
  obtain cl where cl: "class_of c = Some cl" "digit_class cl" "c = CHR ''0'' \<longleftrightarrow> cl = C_ZERO"
    using digit_class_of [OF s(2)] .
  show ?thesis
  proof (cases "c = CHR ''0''")
    case True
    then show ?thesis using s cl start_transitions [OF assms(2)] aloop_do [OF cl(1), of st ZX E err JSON_T_NONE "[]" ms h rest]
      by (simp add: token_text_def)
  next
    case False
    then have k: "cl = C_DIGIT" using cl by (auto simp: digit_class_def)
    then have "aloop E err (at st JSON_T_NONE [] ms h) (s @ rest) = aloop E err (at IT JSON_T_INTEGER [c] ms h) (ds @ rest)"
      using s(1) start_transitions [OF assms(2)] aloop_do [OF cl(1), of st IX E err JSON_T_NONE "[]" ms h "ds @ rest"]
      by (simp add: token_text_def)
    then show ?thesis using digits_run [OF s(3), of IT JSON_T_INTEGER E err "[c]" ms h rest] False s(1,2)
      by (auto simp: dec_digit_def uchar_def)
  qed
next
  case False
  then obtain c ds where s: "s = CHR ''-'' # c # ds" "dec_digit c" "list_all dec_digit ds" "c = CHR ''0'' \<longrightarrow> ds = []"
  proof -
    obtain ds where "s = CHR ''-'' # ds" "digits_text ds" using assms(1) False unfolding int_text_def by blast
    then show thesis using that [of "hd ds" "tl ds"] by (cases ds) (auto simp: digits_text_def)
  qed
  obtain cl where cl: "class_of c = Some cl" "digit_class cl" "c = CHR ''0'' \<longleftrightarrow> cl = C_ZERO"
    using digit_class_of [OF s(2)] .
  have m: "nextState MI C_ZERO = To ZE" "nextState MI C_DIGIT = To IT" by code_simp+
  have "aloop E err (at st JSON_T_NONE [] ms h) (s @ rest) = aloop E err (at MI JSON_T_INTEGER ''-'' ms h) (c # ds @ rest)"
    using s(1) start_transitions [OF assms(2)] aloop_do [of "CHR ''-''" C_MINUS st MX E err JSON_T_NONE "[]" ms h "c # ds @ rest"]
    by (simp add: token_text_def)
  also have "\<dots> = aloop E err (at (if c = CHR ''0'' then ZE else IT) JSON_T_INTEGER [CHR ''-'', c] ms h) (ds @ rest)"
    using aloop_to [OF cl(1), of MI _ E err JSON_T_INTEGER "''-''" ms h "ds @ rest"] m cl(2,3) by (auto simp: token_text_def digit_class_def)
  also have "\<dots> = aloop E err (at (if c = CHR ''0'' then ZE else IT) JSON_T_INTEGER s ms h) rest"
    using digits_run [OF s(3), of IT JSON_T_INTEGER E err "[CHR ''-'', c]" ms h rest] s(1,4) by auto
  also have "(if c = CHR ''0'' then ZE else IT) = (if last s = CHR ''0'' \<and> (s = ''0'' \<or> s = ''-0'') then ZE else IT)"
    using s(1,4) by (cases "c = CHR ''0''") simp_all
  finally show ?thesis .
qed

text \<open>A number with a fraction or an exponent. The automaton knows no exponent behind a lone zero.\<close>

definition frac_text :: "string \<Rightarrow> bool" where
  "frac_text f \<longleftrightarrow> (\<exists>ds. f = CHR ''.'' # ds \<and> ds \<noteq> [] \<and> list_all dec_digit ds)"

definition exp_text :: "string \<Rightarrow> bool" where
  "exp_text x \<longleftrightarrow> (\<exists>e sg ds. x = e # sg @ ds \<and> e \<in> {CHR ''e'', CHR ''E''} \<and> sg \<in> {[], ''+'', ''-''}
     \<and> ds \<noteq> [] \<and> list_all dec_digit ds)"

definition float_text :: "string \<Rightarrow> bool" where
  "float_text s \<longleftrightarrow> (\<exists>i f x. s = i @ f @ x \<and> int_text i \<and> (f = [] \<or> frac_text f) \<and> (x = [] \<or> exp_text x)
     \<and> (f \<noteq> [] \<or> (x \<noteq> [] \<and> i \<noteq> ''0'' \<and> i \<noteq> ''-0'')))"

lemma number_transitions:
  "nextState ZE C_POINT = Do DF" "nextState IT C_POINT = Do DF" "nextState IT C_LOW_E = Do DE" "nextState IT C_E = Do DE"
  "nextState FR C_LOW_E = To E1" "nextState FR C_E = To E1" "nextState E1 C_PLUS = To E2" "nextState E1 C_MINUS = To E2"
  by code_simp+

lemma frac_run:
  assumes "frac_text f" "st \<in> {ZE, IT}"
  shows "aloop E err (at st JSON_T_INTEGER tx ms h) (f @ rest) = aloop E err (at FR JSON_T_FLOAT (tx @ f) ms h) rest"
proof -
  obtain c ds where f: "f = CHR ''.'' # c # ds" "dec_digit c" "list_all dec_digit ds"
    using assms(1) by (auto simp: frac_text_def neq_Nil_conv)
  obtain cl where cl: "class_of c = Some cl" "digit_class cl" using digit_class_of [OF f(2)] .
  have "aloop E err (at st JSON_T_INTEGER tx ms h) (f @ rest) = aloop E err (at FX JSON_T_FLOAT (tx @ ''.'') ms h) (c # ds @ rest)"
    using f(1) number_transitions assms(2) aloop_do [of "CHR ''.''" C_POINT st DF E err JSON_T_INTEGER tx ms h "c # ds @ rest"]
    by (auto simp: token_text_def)
  then show ?thesis
    using aloop_to [OF cl(1) digit_transitions(3) [OF cl(2)], of E err JSON_T_FLOAT "tx @ ''.''" ms h "ds @ rest"]
      digits_run [OF f(3), of FR JSON_T_FLOAT E err "tx @ [CHR ''.'', c]" ms h rest] f(1)
    by (simp add: token_text_def)
qed

lemma exp_run:
  assumes "exp_text x" "(st = IT \<and> ty = JSON_T_INTEGER) \<or> (st = FR \<and> ty = JSON_T_FLOAT)"
  shows "aloop E err (at st ty tx ms h) (x @ rest) = aloop E err (at E3 JSON_T_FLOAT (tx @ x) ms h) rest"
proof -
  obtain e sg c ds where x: "x = e # sg @ c # ds" "e \<in> {CHR ''e'', CHR ''E''}" "sg \<in> {[], ''+'', ''-''}" "dec_digit c" "list_all dec_digit ds"
  proof -
    obtain e sg ds where "x = e # sg @ ds" "e \<in> {CHR ''e'', CHR ''E''}" "sg \<in> {[], ''+'', ''-''}" "ds \<noteq> []" "list_all dec_digit ds"
      using assms(1) unfolding exp_text_def by blast
    then show thesis using that [of e sg "hd ds" "tl ds"] by (cases ds) auto
  qed
  obtain cl where cl: "class_of c = Some cl" "digit_class cl" using digit_class_of [OF x(4)] .
  obtain k where k: "class_of e = Some k" "nextState IT k = Do DE" "nextState FR k = To E1" "k \<noteq> C_SPACE" "k \<noteq> C_WHITE"
    using x(2) number_transitions by auto
  have s1: "aloop E err (at st ty tx ms h) (x @ rest) = aloop E err (at E1 JSON_T_FLOAT (tx @ [e]) ms h) (sg @ c # ds @ rest)"
    using assms(2)
  proof
    assume "st = IT \<and> ty = JSON_T_INTEGER"
    then show ?thesis using aloop_do [OF k(1,2), of E err JSON_T_INTEGER tx ms h "sg @ c # ds @ rest"] x(1) by (simp add: token_text_def)
  next
    assume "st = FR \<and> ty = JSON_T_FLOAT"
    then show ?thesis using aloop_to [OF k(1,3), of E err JSON_T_FLOAT tx ms h "sg @ c # ds @ rest"] x(1) by (simp add: token_text_def)
  qed
  have s2: "aloop E err (at E1 JSON_T_FLOAT (tx @ [e]) ms h) (sg @ c # ds @ rest) = aloop E err (at E3 JSON_T_FLOAT (tx @ e # sg @ [c]) ms h) (ds @ rest)"
  proof (cases "sg = []")
    case True
    then show ?thesis using aloop_to [OF cl(1) digit_transitions(4) [OF cl(2)], of E err JSON_T_FLOAT "tx @ [e]" ms h "ds @ rest"]
      by (simp add: token_text_def)
  next
    case False
    then obtain g kg where g: "sg = [g]" "class_of g = Some kg" "nextState E1 kg = To E2" using x(3) number_transitions(7,8) by (elim insertE emptyE) simp_all
    show ?thesis using aloop_to [OF g(2,3), of E err JSON_T_FLOAT "tx @ [e]" ms h "c # ds @ rest"]
        aloop_to [OF cl(1) digit_transitions(5) [OF cl(2)], of E err JSON_T_FLOAT "tx @ [e, g]" ms h "ds @ rest"] g(1)
      by (simp add: token_text_def)
  qed
  show ?thesis unfolding s1 s2 using digits_run [OF x(5), of E3 JSON_T_FLOAT E err "tx @ e # sg @ [c]" ms h rest] x(1) by simp
qed

lemma float_run:
  assumes "float_text s" "st \<in> {VA, AR}"
  shows "\<exists>st'\<in>{FR, E3}. aloop E err (at st JSON_T_NONE [] ms h) (s @ rest) = aloop E err (at st' JSON_T_FLOAT s ms h) rest"
proof -
  obtain i f x where s: "s = i @ f @ x" "int_text i" "f = [] \<or> frac_text f" "x = [] \<or> exp_text x"
    "f \<noteq> [] \<or> (x \<noteq> [] \<and> i \<noteq> ''0'' \<and> i \<noteq> ''-0'')"
    using assms(1) by (auto simp: float_text_def)
  let ?z = "if last i = CHR ''0'' \<and> (i = ''0'' \<or> i = ''-0'') then ZE else IT"
  have i: "aloop E err (at st JSON_T_NONE [] ms h) (s @ rest) = aloop E err (at ?z JSON_T_INTEGER i ms h) (f @ x @ rest)"
    using int_run [OF s(2) assms(2), of E err ms h "f @ x @ rest"] s(1) by simp
  show ?thesis
  proof (cases "f = []")
    case True
    then have "?z = IT" "exp_text x" using s by auto
    then show ?thesis using i exp_run [of x IT JSON_T_INTEGER E err i ms h rest] True s(1) by auto
  next
    case False
    then have "frac_text f" using s by simp
    have "?z \<in> {ZE, IT}" by simp
    have fr: "aloop E err (at ?z JSON_T_INTEGER i ms h) (f @ x @ rest) = aloop E err (at FR JSON_T_FLOAT (i @ f) ms h) (x @ rest)"
      by (rule frac_run [OF \<open>frac_text f\<close> \<open>?z \<in> {ZE, IT}\<close>])
    show ?thesis
    proof (cases "x = []")
      case True
      then show ?thesis using i fr s(1) by auto
    next
      case False
      then show ?thesis using i fr exp_run [of x FR JSON_T_FLOAT E err "i @ f" ms h rest] s(1,4) by auto
    qed
  qed
qed

text \<open>White space behind an integer does not change it.\<close>

lemma loop_ws:
  assumes "list_all dec_digit s" "list_all ws_char w"
  shows "strToInt_loop I 10 (CHR '','') st r (s @ w) = strToInt_loop I 10 (CHR '','') st r s"
  using assms(1)
proof (induction s arbitrary: st r)
  case Nil
  show ?case
  proof (cases w)
    case (Cons c w')
    then have "strToInt_step I 10 (CHR '','') st r c = Done"
      using assms(2) by (auto simp: ws_char_def strToInt_step_def)
    then show ?thesis using Cons by simp
  qed simp
next
  case (Cons c s)
  then show ?case by (simp split: scan_step.split)
qed

lemma ws_plain: "ws_char c \<Longrightarrow> c \<noteq> CHR 0x00"
  by (auto simp: ws_char_def)

lemma c_str_digits_ws: "list_all dec_digit s \<Longrightarrow> list_all ws_char w \<Longrightarrow> c_str (s @ w) = s @ w"
  unfolding c_str_def by (rule takeWhile_all) (auto simp: list_all_iff dest: dec_digit_plain ws_plain)

lemma strToInt_ws:
  assumes "int_text s" "list_all ws_char w"
  shows "strToInt I (s @ w) 10 (CHR '','') = strToInt I s 10 (CHR '','')"
proof (cases "digits_text s")
  case True
  then obtain c ds where s: "s = c # ds" "dec_digit c" "list_all dec_digit ds" by (cases s) (auto simp: digits_text_def)
  then have d: "list_all dec_digit s" "s \<noteq> []" by simp_all
  have "dropWhile isspace (c_str (s @ w)) = c # ds @ w"
    unfolding c_str_digits_ws [OF d(1) assms(2)] using s dec_digit_plain [OF s(2)] by simp
  moreover have "strToInt_loop I 10 (CHR '','') False 0 (c # ds @ w) = strToInt_loop I 10 (CHR '','') False 0 s"
    using loop_ws [OF d(1) assms(2)] s(1) by simp
  ultimately show ?thesis
    using strToInt_unsigned_text [OF d] dec_digit_plain [OF s(2)] by (simp add: strToInt_def Let_def)
next
  case False
  then obtain ds where s: "s = CHR ''-'' # ds" "list_all dec_digit ds"
    using assms(1) by (auto simp: int_text_def digits_text_def)
  have "c_str (CHR ''-'' # ds @ w) = CHR ''-'' # ds @ w"
    using c_str_digits_ws [OF s(2) assms(2)] by (simp add: c_str_def)
  then have "dropWhile isspace (c_str (s @ w)) = CHR ''-'' # ds @ w" by (simp add: s isspace_def)
  then show ?thesis
    using strToInt_negative_text [OF s(2)] loop_ws [OF s(2) assms(2)] s(1) by (simp add: strToInt_def Let_def)
qed

lemma integer_value_ws:
  assumes "int_text s" "list_all ws_char w"
  shows "integer_value (s @ w) = integer_value s"
proof -
  have "parse64 (s @ w) (CHR '','') = parse64 s (CHR '','')" "parseUnsigned64 (s @ w) (CHR '','') = parseUnsigned64 s (CHR '','')"
    using strToInt_ws [OF assms] by (simp_all add: parse64_def tryParse64_def parseUnsigned64_def tryParseUnsigned64_def)
  then show ?thesis unfolding integer_value_def by (simp only:)
qed

section \<open>The grammar\<close>

datatype 'f jtree = Leaf "'f jvalue" | Arr "'f jtree list" | Obj "(string \<times> 'f jtree) list"

text \<open>What the handler is told of a tree.\<close>

fun events :: "'f jtree \<Rightarrow> 'f json_event list" where
  "events (Leaf v) = [Value v]"
| "events (Arr ts) = StartArray # concat (map events ts) @ [EndArray]"
| "events (Obj ms) = StartObject # concat (map (\<lambda>(k, t). Key k # events t) ms) @ [EndObject]"

fun feed :: "('f, 'h) env \<Rightarrow> 'f json_event list \<Rightarrow> 'h \<Rightarrow> 'h outcome" where
  "feed E [] h = Returns h"
| "feed E (e # es) h = and_then (handle E e h) (feed E es)"

lemma feed_append: "feed E (es @ es') h = and_then (feed E es h) (feed E es')"
proof (induction es arbitrary: h)
  case (Cons e es)
  then show ?case by (cases "handle E e h") simp_all
qed simp

text \<open>A token that is not a container, with the white space behind it. What a floating point number means
  is what the conversion makes of its text.\<close>

inductive json_token :: "('f, 'h) env \<Rightarrow> 'f jvalue \<Rightarrow> string \<Rightarrow> bool" for E where
  tok_true: "list_all ws_char w \<Longrightarrow> json_token E (VBool True) (''true'' @ w)"
| tok_false: "list_all ws_char w \<Longrightarrow> json_token E (VBool False) (''false'' @ w)"
| tok_null: "list_all ws_char w \<Longrightarrow> json_token E VNull (''null'' @ w)"
| tok_int: "list_all ws_char w \<Longrightarrow> int_text s \<Longrightarrow> integer_value s = Inr v \<Longrightarrow> json_token E v (s @ w)"
| tok_float: "list_all ws_char w \<Longrightarrow> float_text s \<Longrightarrow> float_value E (s @ w) = Inr v \<Longrightarrow> json_token E v (s @ w)"
| tok_string: "list_all ws_char w \<Longrightarrow> str_body s t \<Longrightarrow> json_token E (VString t) (CHR 0x22 # s @ CHR 0x22 # w)"

inductive jval :: "('f, 'h) env \<Rightarrow> 'f jtree \<Rightarrow> string \<Rightarrow> bool"
  and jelems :: "('f, 'h) env \<Rightarrow> 'f jtree list \<Rightarrow> string \<Rightarrow> bool"
  and jmembers :: "('f, 'h) env \<Rightarrow> (string \<times> 'f jtree) list \<Rightarrow> string \<Rightarrow> bool" for E where
  j_leaf: "list_all ws_char w \<Longrightarrow> json_token E v s \<Longrightarrow> jval E (Leaf v) (w @ s)"
| j_arr_empty: "list_all ws_char w \<Longrightarrow> list_all ws_char w1 \<Longrightarrow> list_all ws_char w2
    \<Longrightarrow> jval E (Arr []) (w @ CHR ''['' # w1 @ CHR '']'' # w2)"
| j_arr: "list_all ws_char w \<Longrightarrow> list_all ws_char w2 \<Longrightarrow> jelems E ts s
    \<Longrightarrow> jval E (Arr ts) (w @ CHR ''['' # s @ CHR '']'' # w2)"
| j_obj_empty: "list_all ws_char w \<Longrightarrow> list_all ws_char w1 \<Longrightarrow> list_all ws_char w2
    \<Longrightarrow> jval E (Obj []) (w @ CHR ''{'' # w1 @ CHR ''}'' # w2)"
| j_obj: "list_all ws_char w \<Longrightarrow> list_all ws_char w2 \<Longrightarrow> jmembers E ms s
    \<Longrightarrow> jval E (Obj ms) (w @ CHR ''{'' # s @ CHR ''}'' # w2)"
| j_elem: "jval E t s \<Longrightarrow> jelems E [t] s"
| j_elems: "jval E t s \<Longrightarrow> jelems E ts s' \<Longrightarrow> jelems E (t # ts) (s @ CHR '','' # s')"
| j_member: "list_all ws_char w \<Longrightarrow> list_all ws_char w1 \<Longrightarrow> str_body b k \<Longrightarrow> jval E t s
    \<Longrightarrow> jmembers E [(k, t)] (w @ CHR 0x22 # b @ CHR 0x22 # w1 @ CHR '':'' # s)"
| j_members: "list_all ws_char w \<Longrightarrow> list_all ws_char w1 \<Longrightarrow> str_body b k \<Longrightarrow> jval E t s \<Longrightarrow> jmembers E ms s'
    \<Longrightarrow> jmembers E ((k, t) # ms) (w @ CHR 0x22 # b @ CHR 0x22 # w1 @ CHR '':'' # s @ CHR '','' # s')"

section \<open>Completeness\<close>

text \<open>After a value the handler has it, or its token is still pending.\<close>

definition after :: "('f, 'h) env \<Rightarrow> 'h auto \<Rightarrow> char list \<Rightarrow> 'h \<Rightarrow> bool" where
  "after E a ms h' \<longleftrightarrow> a = at OK JSON_T_NONE [] ms h' \<or>
     (\<exists>st ty tx h v. a = at st ty tx ms h \<and> st \<in> {OK, ZE, IT, FR, E3} \<and> ty \<notin> {JSON_T_NONE, JSON_T_STRING}
        \<and> token_value E ty tx = Inr v \<and> handle E (Value v) h = Returns h')"

lemma after_flush:
  assumes "after E a ms h'"
  shows "\<exists>st ty tx h. a = at st ty tx ms h \<and> st \<in> {OK, ZE, IT, FR, E3} \<and> ty \<noteq> JSON_T_STRING
    \<and> (\<forall>c. and_then (aunput (at st ty (tx @ [c]) ms h)) (aflush E) = Returns (at st ty [] ms h'))"
  using assms unfolding after_def
proof
  assume "a = at OK JSON_T_NONE [] ms h'"
  then show ?thesis
    by (intro exI [of _ OK] exI [of _ JSON_T_NONE] exI [of _ "[]"] exI [of _ h'])
      (simp add: aflush_def aunput_at [of _ _ "[]", simplified])
next
  assume "\<exists>st ty tx h v. a = at st ty tx ms h \<and> st \<in> {OK, ZE, IT, FR, E3} \<and> ty \<notin> {JSON_T_NONE, JSON_T_STRING}
        \<and> token_value E ty tx = Inr v \<and> handle E (Value v) h = Returns h'"
  then obtain st ty tx h v where a: "a = at st ty tx ms h" "st \<in> {OK, ZE, IT, FR, E3}" "ty \<notin> {JSON_T_NONE, JSON_T_STRING}"
    "token_value E ty tx = Inr v" "handle E (Value v) h = Returns h'" by blast
  then show ?thesis by (intro exI [of _ st] exI [of _ ty] exI [of _ tx] exI [of _ h]) (simp add: aflush_def atell_at)
qed

lemma close_transitions:
  "st \<in> {OK, ZE, IT, FR, E3} \<Longrightarrow> nextState st C_COMMA = Do M3 \<and> nextState st C_RSQRB = Do M7 \<and> nextState st C_RCURB = Do M8"
proof -
  have "list_all (\<lambda>st. nextState st C_COMMA = Do M3 \<and> nextState st C_RSQRB = Do M7 \<and> nextState st C_RCURB = Do M8) [OK, ZE, IT, FR, E3]"
    by code_simp
  then show "st \<in> {OK, ZE, IT, FR, E3} \<Longrightarrow> nextState st C_COMMA = Do M3 \<and> nextState st C_RSQRB = Do M7 \<and> nextState st C_RCURB = Do M8"
    by auto
qed

lemma after_comma:
  assumes "after E a (m # ms) h"
  shows "m = MODE_ARRAY \<Longrightarrow> aloop E err a (CHR '','' # rest) = aloop E err (at VA JSON_T_NONE [] (m # ms) h) rest"
    and "m = MODE_OBJECT \<Longrightarrow> aloop E err a (CHR '','' # rest) = aloop E err (at KE JSON_T_NONE [] (MODE_KEY # ms) h) rest"
proof -
  obtain st ty tx h0 where a: "a = at st ty tx (m # ms) h0" "st \<in> {OK, ZE, IT, FR, E3}" "ty \<noteq> JSON_T_STRING"
    "\<And>c. and_then (aunput (at st ty (tx @ [c]) (m # ms) h0)) (aflush E) = Returns (at st ty [] (m # ms) h)"
    using after_flush [OF assms] by blast
  have "aloop E err a (CHR '','' # rest) = resume E err rest (aperform E M3 (at st ty (tx @ '','') (m # ms) h0))"
    unfolding a(1) using aloop_do [of "CHR '',''" C_COMMA st M3] close_transitions [OF a(2)] by (simp add: token_text_def)
  then show "m = MODE_ARRAY \<Longrightarrow> aloop E err a (CHR '','' # rest) = aloop E err (at VA JSON_T_NONE [] (m # ms) h) rest"
    "m = MODE_OBJECT \<Longrightarrow> aloop E err a (CHR '','' # rest) = aloop E err (at KE JSON_T_NONE [] (MODE_KEY # ms) h) rest"
    using a(3) unfolding aperform.simps a(4) by simp_all
qed

lemma after_close:
  assumes "after E a (m # ms) h"
  shows "m = MODE_ARRAY \<Longrightarrow> handle E EndArray h = Returns h' \<Longrightarrow>
      aloop E err a (CHR '']'' # rest) = aloop E err (at OK JSON_T_NONE [] ms h') rest"
    and "m = MODE_OBJECT \<Longrightarrow> handle E EndObject h = Returns h' \<Longrightarrow>
      aloop E err a (CHR ''}'' # rest) = aloop E err (at OK JSON_T_NONE [] ms h') rest"
proof -
  obtain st ty tx h0 where a: "a = at st ty tx (m # ms) h0" "st \<in> {OK, ZE, IT, FR, E3}" "ty \<noteq> JSON_T_STRING"
    "\<And>c. and_then (aunput (at st ty (tx @ [c]) (m # ms) h0)) (aflush E) = Returns (at st ty [] (m # ms) h)"
    using after_flush [OF assms] by blast
  have "aloop E err a (CHR '']'' # rest) = resume E err rest (aperform E M7 (at st ty (tx @ '']'') (m # ms) h0))"
    "aloop E err a (CHR ''}'' # rest) = resume E err rest (aperform E M8 (at st ty (tx @ ''}'') (m # ms) h0))"
    unfolding a(1) using aloop_do [of "CHR '']''" C_RSQRB st M7] aloop_do [of "CHR ''}''" C_RCURB st M8] close_transitions [OF a(2)]
    by (simp_all add: token_text_def)
  then show "m = MODE_ARRAY \<Longrightarrow> handle E EndArray h = Returns h' \<Longrightarrow>
      aloop E err a (CHR '']'' # rest) = aloop E err (at OK JSON_T_NONE [] ms h') rest"
    "m = MODE_OBJECT \<Longrightarrow> handle E EndObject h = Returns h' \<Longrightarrow>
      aloop E err a (CHR ''}'' # rest) = aloop E err (at OK JSON_T_NONE [] ms h') rest"
    unfolding aperform.simps a(4) by (simp_all add: atell_at)
qed


lemma literal_run:
  assumes "st \<in> {VA, AR}"
  shows "aloop E err (at st JSON_T_NONE [] ms h) (''true'' @ rest) = aloop E err (at OK JSON_T_TRUE ''true'' ms h) rest"
    and "aloop E err (at st JSON_T_NONE [] ms h) (''false'' @ rest) = aloop E err (at OK JSON_T_FALSE ''false'' ms h) rest"
    and "aloop E err (at st JSON_T_NONE [] ms h) (''null'' @ rest) = aloop E err (at OK JSON_T_NULL ''null'' ms h) rest"
proof -
  have n: "nextState T1 C_LOW_R = To T2" "nextState T2 C_LOW_U = To T3" "nextState T3 C_LOW_E = To OK"
    "nextState F1 C_LOW_A = To F2" "nextState F2 C_LOW_L = To F3" "nextState F3 C_LOW_S = To F4" "nextState F4 C_LOW_E = To OK"
    "nextState N1 C_LOW_U = To N2" "nextState N2 C_LOW_L = To N3" "nextState N3 C_LOW_L = To OK" by code_simp+
  note st = start_transitions [OF assms]
  show "aloop E err (at st JSON_T_NONE [] ms h) (''true'' @ rest) = aloop E err (at OK JSON_T_TRUE ''true'' ms h) rest"
    using st n by (simp add: aloop_do [of "CHR ''t''" C_LOW_T _ TR] aloop_to [of "CHR ''r''" C_LOW_R] aloop_to [of "CHR ''u''" C_LOW_U]
        aloop_to [of "CHR ''e''" C_LOW_E] token_text_def)
  show "aloop E err (at st JSON_T_NONE [] ms h) (''false'' @ rest) = aloop E err (at OK JSON_T_FALSE ''false'' ms h) rest"
    using st n by (simp add: aloop_do [of "CHR ''f''" C_LOW_F _ FA] aloop_to [of "CHR ''a''" C_LOW_A] aloop_to [of "CHR ''l''" C_LOW_L]
        aloop_to [of "CHR ''s''" C_LOW_S] aloop_to [of "CHR ''e''" C_LOW_E] token_text_def)
  show "aloop E err (at st JSON_T_NONE [] ms h) (''null'' @ rest) = aloop E err (at OK JSON_T_NULL ''null'' ms h) rest"
    using st n by (simp add: aloop_do [of "CHR ''n''" C_LOW_N _ NU] aloop_to [of "CHR ''u''" C_LOW_U] aloop_to [of "CHR ''l''" C_LOW_L] token_text_def)
qed

lemma pending_run:
  assumes "aloop E err a0 (s @ w @ rest) = aloop E err (at st ty s ms h) (w @ rest)" "list_all ws_char w"
    "st \<in> {OK, ZE, IT, FR, E3}" "ty \<notin> {JSON_T_NONE, JSON_T_STRING}" "token_value E ty (s @ w) = Inr v" "handle E (Value v) h = Returns h'"
  shows "\<exists>a. after E a ms h' \<and> aloop E err a0 ((s @ w) @ rest) = aloop E err a rest"
proof -
  obtain st' where st': "st' \<in> {OK, st}" "aloop E err (at st ty s ms h) (w @ rest) = aloop E err (at st' ty (s @ w) ms h) rest"
    using keep_ws [OF assms(2), of st ty E err s ms h rest] assms(3,4) by blast
  have "after E (at st' ty (s @ w) ms h) ms h'" unfolding after_def using assms(3-6) st'(1) by blast
  then show ?thesis using assms(1) st'(2) by auto
qed

lemma quoted_run:
  assumes "str_body s t" "st \<in> {VA, AR, OB, KE}"
  shows "aloop E err (at st JSON_T_NONE [] (m # ms) h) (CHR 0x22 # s @ CHR 0x22 # rest)
    = resume E err rest (aperform E M4 (at ST JSON_T_STRING (t @ [CHR 0x22]) (m # ms) h))"
proof -
  have n: "list_all (\<lambda>st. nextState st C_QUOTE = Do SB) [VA, AR, OB, KE]" "nextState ST C_QUOTE = Do M4" by code_simp+
  then have "nextState st C_QUOTE = Do SB" using assms(2) by auto
  then have "aloop E err (at st JSON_T_NONE [] (m # ms) h) (CHR 0x22 # s @ CHR 0x22 # rest)
      = aloop E err (at ST JSON_T_STRING [] (m # ms) h) (s @ CHR 0x22 # rest)"
    by (simp add: aloop_do [of "CHR 0x22" C_QUOTE _ SB] token_text_def)
  then show ?thesis using n(2) string_run [OF assms(1), of E err "[]" "m # ms" h "CHR 0x22 # rest"]
    by (simp add: aloop_do [of "CHR 0x22" C_QUOTE _ M4] token_text_def)
qed

lemma token_run:
  assumes "json_token E v s" "st \<in> {VA, AR}" "m \<in> {MODE_ARRAY, MODE_OBJECT}" "handle E (Value v) h = Returns h'"
  shows "\<exists>a. after E a (m # ms) h' \<and> aloop E err (at st JSON_T_NONE [] (m # ms) h) (s @ rest) = aloop E err a rest"
  using assms(1)
proof cases
  case (tok_true w)
  show ?thesis unfolding tok_true(2)
    by (rule pending_run [OF literal_run(1) [OF assms(2)] tok_true(3)]) (use assms(4) tok_true(1) in simp_all)
next
  case (tok_false w)
  show ?thesis unfolding tok_false(2)
    by (rule pending_run [OF literal_run(2) [OF assms(2)] tok_false(3)]) (use assms(4) tok_false(1) in simp_all)
next
  case (tok_null w)
  show ?thesis unfolding tok_null(2)
    by (rule pending_run [OF literal_run(3) [OF assms(2)] tok_null(3)]) (use assms(4) tok_null(1) in simp_all)
next
  case (tok_int w b)
  have v: "integer_value (b @ w) = Inr v" using tok_int by (simp add: integer_value_ws)
  show ?thesis unfolding tok_int(1)
    by (rule pending_run [OF int_run [OF tok_int(3) assms(2)] tok_int(2)]) (use assms(4) v in simp_all)
next
  case (tok_float w b)
  obtain st' where st': "st' \<in> {FR, E3}"
    "aloop E err (at st JSON_T_NONE [] (m # ms) h) (b @ w @ rest) = aloop E err (at st' JSON_T_FLOAT b (m # ms) h) (w @ rest)"
    using float_run [OF tok_float(3) assms(2), of E err "m # ms" h "w @ rest"] by (elim bexE)
  show ?thesis unfolding tok_float(1)
    by (rule pending_run [OF st'(2) tok_float(2)]) (use tok_float(4) assms(4) st'(1) in auto)
next
  case (tok_string w b t)
  have "st \<in> {VA, AR, OB, KE}" using assms(2) by auto
  from quoted_run [OF tok_string(4) this, of E err m ms h "w @ rest"]
  have "aloop E err (at st JSON_T_NONE [] (m # ms) h) (s @ rest)
      = resume E err (w @ rest) (aperform E M4 (at ST JSON_T_STRING (t @ [CHR 0x22]) (m # ms) h))" using tok_string(2) by simp
  also have "\<dots> = aloop E err (at OK JSON_T_NONE [] (m # ms) h') (w @ rest)"
    using assms(3,4) tok_string(1) by (auto simp: aflush_def atell_at)
  also have "\<dots> = aloop E err (at OK JSON_T_NONE [] (m # ms) h') rest" by (rule skip_ws [OF tok_string(3)]) simp
  finally show ?thesis unfolding after_def by blast
qed

lemma aunput_one: "aunput (at st ty [c] ms h) = Returns (at st ty [] ms h)"
  using aunput_at [of st ty "[]" c ms h] by simp

lemma open_run:
  assumes "st \<in> {GO, VA, AR}"
  shows "handle E StartArray h = Returns h' \<Longrightarrow>
      aloop E err (at st JSON_T_NONE [] ms h) (CHR ''['' # rest) = aloop E err (at AR JSON_T_NONE [] (MODE_ARRAY # ms) h') rest"
    and "handle E StartObject h = Returns h' \<Longrightarrow>
      aloop E err (at st JSON_T_NONE [] ms h) (CHR ''{'' # rest) = aloop E err (at OB JSON_T_NONE [] (MODE_KEY # ms) h') rest"
proof -
  have "list_all (\<lambda>st. nextState st C_LSQRB = Do M5 \<and> nextState st C_LCURB = Do M6) [GO, VA, AR]" by code_simp
  then have "nextState st C_LSQRB = Do M5" "nextState st C_LCURB = Do M6" using assms by auto
  then show "handle E StartArray h = Returns h' \<Longrightarrow>
      aloop E err (at st JSON_T_NONE [] ms h) (CHR ''['' # rest) = aloop E err (at AR JSON_T_NONE [] (MODE_ARRAY # ms) h') rest"
    "handle E StartObject h = Returns h' \<Longrightarrow>
      aloop E err (at st JSON_T_NONE [] ms h) (CHR ''{'' # rest) = aloop E err (at OB JSON_T_NONE [] (MODE_KEY # ms) h') rest"
    by (simp_all add: aloop_do [of "CHR ''[''" C_LSQRB _ M5] aloop_do [of "CHR ''{''" C_LCURB _ M6] token_text_def atell_at aunput_one)
qed

lemma close_empty:
  "handle E EndArray h = Returns h' \<Longrightarrow>
     aloop E err (at AR JSON_T_NONE [] (MODE_ARRAY # ms) h) (CHR '']'' # rest) = aloop E err (at OK JSON_T_NONE [] ms h') rest"
  "handle E EndObject h = Returns h' \<Longrightarrow>
     aloop E err (at OB JSON_T_NONE [] (MODE_KEY # ms) h) (CHR ''}'' # rest) = aloop E err (at OK JSON_T_NONE [] ms h') rest"
proof -
  have n: "nextState AR C_RSQRB = Do M7" "nextState OB C_RCURB = Do M9" by code_simp+
  show "handle E EndArray h = Returns h' \<Longrightarrow>
     aloop E err (at AR JSON_T_NONE [] (MODE_ARRAY # ms) h) (CHR '']'' # rest) = aloop E err (at OK JSON_T_NONE [] ms h') rest"
    using n by (simp add: aloop_do [of "CHR '']''" C_RSQRB _ M7] token_text_def aunput_one aflush_def atell_at)
  show "handle E EndObject h = Returns h' \<Longrightarrow>
     aloop E err (at OB JSON_T_NONE [] (MODE_KEY # ms) h) (CHR ''}'' # rest) = aloop E err (at OK JSON_T_NONE [] ms h') rest"
    using n by (simp add: aloop_do [of "CHR ''}''" C_RCURB _ M9] token_text_def aunput_one atell_at)
qed

text \<open>The name of a member and its colon.\<close>

lemma key_run:
  assumes "str_body b k" "list_all ws_char w" "list_all ws_char w1" "st \<in> {OB, KE}" "handle E (Key k) h = Returns h'"
  shows "aloop E err (at st JSON_T_NONE [] (MODE_KEY # ms) h) (w @ CHR 0x22 # b @ CHR 0x22 # w1 @ CHR '':'' # rest)
    = aloop E err (at VA JSON_T_NONE [] (MODE_OBJECT # ms) h') rest"
proof -
  have n: "nextState CO C_COLON = Do M2" by code_simp
  have st: "st \<in> {GO, OK, OB, KE, CO, VA, AR}" "st \<in> {VA, AR, OB, KE}" using assms(4) by auto
  have "aloop E err (at st JSON_T_NONE [] (MODE_KEY # ms) h) (w @ CHR 0x22 # b @ CHR 0x22 # w1 @ CHR '':'' # rest)
      = aloop E err (at st JSON_T_NONE [] (MODE_KEY # ms) h) (CHR 0x22 # b @ CHR 0x22 # w1 @ CHR '':'' # rest)"
    by (rule skip_ws [OF assms(2) st(1)])
  also have "\<dots> = resume E err (w1 @ CHR '':'' # rest) (aperform E M4 (at ST JSON_T_STRING (k @ [CHR 0x22]) (MODE_KEY # ms) h))"
    by (rule quoted_run [OF assms(1) st(2)])
  also have "\<dots> = aloop E err (at CO JSON_T_NONE [] (MODE_KEY # ms) h') (w1 @ CHR '':'' # rest)"
    using assms(5) by (simp add: atell_at)
  also have "\<dots> = aloop E err (at CO JSON_T_NONE [] (MODE_KEY # ms) h') (CHR '':'' # rest)"
    by (rule skip_ws [OF assms(3)]) simp
  also have "\<dots> = aloop E err (at VA JSON_T_NONE [] (MODE_OBJECT # ms) h') rest"
    using n by (simp add: aloop_do [of "CHR '':''" C_COLON _ M2] token_text_def aunput_one)
  finally show ?thesis .
qed

text \<open>A container in any of the states a value may start in.\<close>

definition container :: "'f jtree \<Rightarrow> bool" where
  "container t \<longleftrightarrow> (case t of Leaf _ \<Rightarrow> False | _ \<Rightarrow> True)"

abbreviation value_run :: "('f, 'h) env \<Rightarrow> exn \<Rightarrow> 'h auto \<Rightarrow> string \<Rightarrow> char list \<Rightarrow> 'h \<Rightarrow> bool" where
  "value_run E err a0 s ms h' \<equiv> \<forall>rest. \<exists>a. after E a ms h' \<and> aloop E err a0 (s @ rest) = aloop E err a rest"

lemma feed_bracket:
  assumes "feed E (e # es @ [e']) h = Returns h'"
  obtains h1 h2 where "handle E e h = Returns h1" "feed E es h1 = Returns h2" "handle E e' h2 = Returns h'"
proof -
  obtain h1 where h1: "handle E e h = Returns h1" "feed E (es @ [e']) h1 = Returns h'" using assms by (cases "handle E e h") auto
  obtain h2 where h2: "feed E es h1 = Returns h2" using h1(2) by (cases "feed E es h1") (auto simp: feed_append)
  have "handle E e' h2 = Returns h'" using h1(2) h2 by (cases "handle E e' h2") (auto simp: feed_append)
  then show ?thesis using that h1(1) h2 by blast
qed

lemma array_run:
  assumes "list_all ws_char w" "list_all ws_char w2" "st \<in> {GO, VA, AR}" "handle E StartArray h = Returns h1"
    and "list_all ws_char s \<and> h2 = h1 \<or> value_run E err (at AR JSON_T_NONE [] (MODE_ARRAY # ms) h1) s (MODE_ARRAY # ms) h2"
    and "handle E EndArray h2 = Returns h'"
  shows "aloop E err (at st JSON_T_NONE [] ms h) ((w @ CHR ''['' # s @ CHR '']'' # w2) @ rest) = aloop E err (at OK JSON_T_NONE [] ms h') rest"
proof -
  have st: "st \<in> {GO, OK, OB, KE, CO, VA, AR}" using assms(3) by auto
  have "aloop E err (at st JSON_T_NONE [] ms h) ((w @ CHR ''['' # s @ CHR '']'' # w2) @ rest)
      = aloop E err (at AR JSON_T_NONE [] (MODE_ARRAY # ms) h1) (s @ CHR '']'' # w2 @ rest)"
    by (simp add: skip_ws [OF assms(1) st] open_run(1) [OF assms(3,4)])
  also have "\<dots> = aloop E err (at OK JSON_T_NONE [] ms h') (w2 @ rest)" using assms(5)
  proof
    assume s: "list_all ws_char s \<and> h2 = h1"
    then have "aloop E err (at AR JSON_T_NONE [] (MODE_ARRAY # ms) h1) (s @ CHR '']'' # w2 @ rest)
        = aloop E err (at AR JSON_T_NONE [] (MODE_ARRAY # ms) h1) (CHR '']'' # w2 @ rest)" by (intro skip_ws) simp_all
    then show ?thesis using close_empty(1) [OF assms(6)] s by simp
  next
    assume "value_run E err (at AR JSON_T_NONE [] (MODE_ARRAY # ms) h1) s (MODE_ARRAY # ms) h2"
    then obtain a where a: "after E a (MODE_ARRAY # ms) h2" "aloop E err (at AR JSON_T_NONE [] (MODE_ARRAY # ms) h1) (s @ CHR '']'' # w2 @ rest)
      = aloop E err a (CHR '']'' # w2 @ rest)" by blast
    then show ?thesis using after_close(1) [OF a(1) refl assms(6)] by simp
  qed
  also have "\<dots> = aloop E err (at OK JSON_T_NONE [] ms h') rest" by (rule skip_ws [OF assms(2)]) simp
  finally show ?thesis .
qed

lemma object_run:
  assumes "list_all ws_char w" "list_all ws_char w2" "st \<in> {GO, VA, AR}" "handle E StartObject h = Returns h1"
    and "list_all ws_char s \<and> h2 = h1 \<or> value_run E err (at OB JSON_T_NONE [] (MODE_KEY # ms) h1) s (MODE_OBJECT # ms) h2"
    and "handle E EndObject h2 = Returns h'"
  shows "aloop E err (at st JSON_T_NONE [] ms h) ((w @ CHR ''{'' # s @ CHR ''}'' # w2) @ rest) = aloop E err (at OK JSON_T_NONE [] ms h') rest"
proof -
  have st: "st \<in> {GO, OK, OB, KE, CO, VA, AR}" using assms(3) by auto
  have "aloop E err (at st JSON_T_NONE [] ms h) ((w @ CHR ''{'' # s @ CHR ''}'' # w2) @ rest)
      = aloop E err (at OB JSON_T_NONE [] (MODE_KEY # ms) h1) (s @ CHR ''}'' # w2 @ rest)"
    by (simp add: skip_ws [OF assms(1) st] open_run(2) [OF assms(3,4)])
  also have "\<dots> = aloop E err (at OK JSON_T_NONE [] ms h') (w2 @ rest)" using assms(5)
  proof
    assume s: "list_all ws_char s \<and> h2 = h1"
    then have "aloop E err (at OB JSON_T_NONE [] (MODE_KEY # ms) h1) (s @ CHR ''}'' # w2 @ rest)
        = aloop E err (at OB JSON_T_NONE [] (MODE_KEY # ms) h1) (CHR ''}'' # w2 @ rest)" by (intro skip_ws) simp_all
    then show ?thesis using close_empty(2) [OF assms(6)] s by simp
  next
    assume "value_run E err (at OB JSON_T_NONE [] (MODE_KEY # ms) h1) s (MODE_OBJECT # ms) h2"
    then obtain a where a: "after E a (MODE_OBJECT # ms) h2" "aloop E err (at OB JSON_T_NONE [] (MODE_KEY # ms) h1) (s @ CHR ''}'' # w2 @ rest)
      = aloop E err a (CHR ''}'' # w2 @ rest)" by blast
    then show ?thesis using after_close(2) [OF a(1) refl assms(6)] by simp
  qed
  also have "\<dots> = aloop E err (at OK JSON_T_NONE [] ms h') rest" by (rule skip_ws [OF assms(2)]) simp
  finally show ?thesis .
qed

lemma settled_run:
  "(\<And>rest. aloop E err a0 (s @ rest) = aloop E err (at OK JSON_T_NONE [] ms h') rest) \<Longrightarrow> value_run E err a0 s ms h'"
  unfolding after_def by blast

text \<open>Sequencing: a value, a comma and what follows.\<close>

lemma comma_run:
  assumes "value_run E err a0 s (m # ms) h1" "m = MODE_ARRAY \<or> m = MODE_OBJECT"
    and "value_run E err (at (if m = MODE_ARRAY then VA else KE) JSON_T_NONE [] ((if m = MODE_ARRAY then m else MODE_KEY) # ms) h1) s' (m # ms) h'"
  shows "value_run E err a0 (s @ CHR '','' # s') (m # ms) h'"
proof
  fix rest
  obtain a where a: "after E a (m # ms) h1" "aloop E err a0 (s @ CHR '','' # s' @ rest) = aloop E err a (CHR '','' # s' @ rest)"
    using assms(1) by blast
  have "aloop E err a (CHR '','' # s' @ rest)
      = aloop E err (at (if m = MODE_ARRAY then VA else KE) JSON_T_NONE [] ((if m = MODE_ARRAY then m else MODE_KEY) # ms) h1) (s' @ rest)"
    using after_comma [OF a(1)] assms(2) by auto
  moreover obtain a' where "after E a' (m # ms) h'" "aloop E err (at (if m = MODE_ARRAY then VA else KE) JSON_T_NONE []
      ((if m = MODE_ARRAY then m else MODE_KEY) # ms) h1) (s' @ rest) = aloop E err a' rest"
    using assms(3) by blast
  ultimately show "\<exists>a'. after E a' (m # ms) h' \<and> aloop E err a0 ((s @ CHR '','' # s') @ rest) = aloop E err a' rest"
    using a(2) by auto
qed

lemma member_run:
  assumes "str_body b k" "list_all ws_char w" "list_all ws_char w1" "st \<in> {OB, KE}" "handle E (Key k) h = Returns h1"
    and "value_run E err (at VA JSON_T_NONE [] (MODE_OBJECT # ms) h1) s (MODE_OBJECT # ms) h'"
  shows "value_run E err (at st JSON_T_NONE [] (MODE_KEY # ms) h) (w @ CHR 0x22 # b @ CHR 0x22 # w1 @ CHR '':'' # s) (MODE_OBJECT # ms) h'"
  using key_run [OF assms(1-5), of err ms] assms(6) by simp

lemma grammar_run:
  "jval E t s \<Longrightarrow> st \<in> {VA, AR} \<and> m \<in> {MODE_ARRAY, MODE_OBJECT} \<or> st \<in> {GO, VA, AR} \<and> container t \<Longrightarrow>
      feed E (events t) h = Returns h' \<Longrightarrow> value_run E err (at st JSON_T_NONE [] (m # ms) h) s (m # ms) h'"
  "jelems E ts s \<Longrightarrow> st \<in> {VA, AR} \<Longrightarrow> feed E (concat (map events ts)) h = Returns h' \<Longrightarrow>
      value_run E err (at st JSON_T_NONE [] (MODE_ARRAY # ms) h) s (MODE_ARRAY # ms) h'"
  "jmembers E ks s \<Longrightarrow> st \<in> {OB, KE} \<Longrightarrow> feed E (concat (map (\<lambda>(k, t). Key k # events t) ks)) h = Returns h' \<Longrightarrow>
      value_run E err (at st JSON_T_NONE [] (MODE_KEY # ms) h) s (MODE_OBJECT # ms) h'"
proof (induction arbitrary: st m ms h h' and st ms h h' and st ms h h' rule: jval_jelems_jmembers.inducts)
  case (j_leaf w v s)
  from j_leaf(3) have st: "st \<in> {VA, AR}" "m \<in> {MODE_ARRAY, MODE_OBJECT}" "st \<in> {GO, OK, OB, KE, CO, VA, AR}" by (auto simp: container_def)
  have "handle E (Value v) h = Returns h'" using j_leaf(4) by (cases "handle E (Value v) h") simp_all
  from token_run [OF j_leaf(2) st(1,2) this]
  have "\<exists>a. after E a (m # ms) h' \<and> aloop E err (at st JSON_T_NONE [] (m # ms) h) (s @ rest) = aloop E err a rest" for rest .
  then show ?case by (simp add: skip_ws [OF j_leaf(1) st(3)])
next
  case (j_arr_empty w w1 w2)
  obtain h1 h2 where "handle E StartArray h = Returns h1" "feed E [] h1 = Returns h2" "handle E EndArray h2 = Returns h'"
    using feed_bracket [of E StartArray "[]" EndArray h h'] j_arr_empty(5) by auto
  then show ?case using j_arr_empty by (intro settled_run array_run) auto
next
  case (j_arr w w2 ts s)
  obtain h1 h2 where h: "handle E StartArray h = Returns h1" "feed E (concat (map events ts)) h1 = Returns h2" "handle E EndArray h2 = Returns h'"
    using feed_bracket [of E StartArray "concat (map events ts)" EndArray h h'] j_arr(6) by auto
  have "st \<in> {GO, VA, AR}" using j_arr(5) by auto
  then show ?case by (rule settled_run [OF array_run [OF j_arr(1,2) _ h(1) _ h(3)]]) (intro disjI2 j_arr(4) h(2); simp)
next
  case (j_obj_empty w w1 w2)
  obtain h1 h2 where "handle E StartObject h = Returns h1" "feed E [] h1 = Returns h2" "handle E EndObject h2 = Returns h'"
    using feed_bracket [of E StartObject "[]" EndObject h h'] j_obj_empty(5) by auto
  then show ?case using j_obj_empty by (intro settled_run object_run) auto
next
  case (j_obj w w2 ks s)
  let ?es = "concat (map (\<lambda>(k, t). Key k # events t) ks)"
  obtain h1 h2 where h: "handle E StartObject h = Returns h1" "feed E ?es h1 = Returns h2" "handle E EndObject h2 = Returns h'"
    using feed_bracket [of E StartObject ?es EndObject h h'] j_obj(6) by auto
  have "st \<in> {GO, VA, AR}" using j_obj(5) by auto
  then show ?case by (rule settled_run [OF object_run [OF j_obj(1,2) _ h(1) _ h(3)]]) (intro disjI2 j_obj(4) h(2); simp)
next
  case (j_elem t s)
  then show ?case by simp
next
  case (j_elems t s ts s')
  obtain h1 where h1: "feed E (events t) h = Returns h1" "feed E (concat (map events ts)) h1 = Returns h'"
    using j_elems(6) by (cases "feed E (events t) h") (auto simp: feed_append)
  show ?case
    by (rule comma_run [OF j_elems(2) [OF _ h1(1)]]) (use j_elems(4) [OF _ h1(2), of VA ms] j_elems(5) in auto)
next
  case (j_member w w1 b k t s)
  obtain h1 where h1: "handle E (Key k) h = Returns h1" "feed E (events t) h1 = Returns h'"
    using j_member(7) by (cases "handle E (Key k) h") auto
  show ?case using j_member(6) by (intro member_run [OF j_member(3,1,2) _ h1(1)] j_member(5) h1(2)) auto
next
  case (j_members w w1 b k t s ks s')
  obtain h1 h2 where h1: "handle E (Key k) h = Returns h1" "feed E (events t) h1 = Returns h2"
      "feed E (concat (map (\<lambda>(k, t). Key k # events t) ks)) h2 = Returns h'"
    using j_members(9) by (cases "handle E (Key k) h"; cases "feed E (events t) (state_of (handle E (Key k) h))") (auto simp: feed_append)
  have "value_run E err (at st JSON_T_NONE [] (MODE_KEY # ms) h) (w @ CHR 0x22 # b @ CHR 0x22 # w1 @ CHR '':'' # s) (MODE_OBJECT # ms) h2"
    using j_members(8) by (intro member_run [OF j_members(3,1,2) _ h1(1)] j_members(5) h1(2)) auto
  from comma_run [OF this, where s' = s' and h' = h'] show ?case using j_members(7) [OF _ h1(3), of KE ms] by (simp add: MODE_ARRAY_def MODE_OBJECT_def)
qed


lemma container_run:
  assumes "jval E t s" "container t" "st \<in> {GO, VA, AR}" "feed E (events t) h = Returns h'"
  shows "aloop E err (at st JSON_T_NONE [] (m # ms) h) (s @ rest) = aloop E err (at OK JSON_T_NONE [] (m # ms) h') rest"
  using assms(1)
proof cases
  case (j_leaf w v s)
  then show ?thesis using assms(2) by (simp add: container_def)
next
  case (j_arr_empty w w1 w2)
  obtain h1 h2 where "handle E StartArray h = Returns h1" "feed E [] h1 = Returns h2" "handle E EndArray h2 = Returns h'"
    using feed_bracket [of E StartArray "[]" EndArray h h'] assms(4) j_arr_empty(1) by auto
  then show ?thesis unfolding j_arr_empty(2) using assms(3) j_arr_empty(3-5) by (intro array_run) auto
next
  case (j_arr w w2 ts s)
  obtain h1 h2 where h: "handle E StartArray h = Returns h1" "feed E (concat (map events ts)) h1 = Returns h2" "handle E EndArray h2 = Returns h'"
    using feed_bracket [of E StartArray "concat (map events ts)" EndArray h h'] assms(4) j_arr(1) by auto
  show ?thesis unfolding j_arr(2)
    by (rule array_run [OF j_arr(3,4) assms(3) h(1) _ h(3)]) (intro disjI2 grammar_run(2) [OF j_arr(5)] h(2); simp)
next
  case (j_obj_empty w w1 w2)
  obtain h1 h2 where "handle E StartObject h = Returns h1" "feed E [] h1 = Returns h2" "handle E EndObject h2 = Returns h'"
    using feed_bracket [of E StartObject "[]" EndObject h h'] assms(4) j_obj_empty(1) by auto
  then show ?thesis unfolding j_obj_empty(2) using assms(3) j_obj_empty(3-5) by (intro object_run) auto
next
  case (j_obj w w2 ks s)
  let ?es = "concat (map (\<lambda>(k, t). Key k # events t) ks)"
  obtain h1 h2 where h: "handle E StartObject h = Returns h1" "feed E ?es h1 = Returns h2" "handle E EndObject h2 = Returns h'"
    using feed_bracket [of E StartObject ?es EndObject h h'] assms(4) j_obj(1) by auto
  show ?thesis unfolding j_obj(2)
    by (rule object_run [OF j_obj(3,4) assms(3) h(1) _ h(3)]) (intro disjI2 grammar_run(3) [OF j_obj(5)] h(2); simp)
qed

lemma parse_complete:
  assumes "quiet_handler E" "jval E t s" "container t" "feed E (events t) h = Returns h'"
  shows "\<exists>p. parse_with E err (Parser_new E (Some h) n) s = Returns p \<and> p_pHandler p = Some h'"
proof -
  have i: "initial (Some h) = at GO JSON_T_NONE [] [MODE_DONE] h" by (simp add: initial_def at_def)
  have "aloop E err (initial (Some h)) s = Returns (at OK JSON_T_NONE [] [MODE_DONE] h')"
    unfolding i using container_run [OF assms(2,3) _ assms(4), of GO err MODE_DONE "[]" "[]"] by simp
  then have "map_outcome_state a_handler (arun E err (initial (Some h)) s) = Returns (Some h')"
    by (simp add: arun_def accepts_def at_def)
  then show ?thesis
    using parse_refines [OF assms(1), of err "Some h" n s] by (cases "parse_with E err (Parser_new E (Some h) n) s") auto
qed

section \<open>What the parser accepts\<close>

text \<open>A handler that keeps the calls it gets.\<close>

definition recorder :: "('f, 'f json_event list) env" where
  "recorder = \<lparr>junk = (\<lambda>_. CHR 0x00), parseFloat = (\<lambda>s. Inl (SyntaxException ''Not a valid floating-point number'')),
     handle = (\<lambda>e h. Returns (h @ [e])), reset_handler = (\<lambda>_. [])\<rparr>"

lemma recorder_quiet: "quiet_handler recorder"
  by (simp add: quiet_handler_def recorder_def)

lemma recorder_feed: "feed recorder es h = Returns (h @ es)"
  by (induction es arbitrary: h) (simp_all add: recorder_def)

lemma integer_value_one: "integer_value ''1'' = Inr (VInt 1 :: unit jvalue)"
  by code_simp

text \<open>C15: The parser, with its stack of modes and its token in growing buffers, implements the push-down automaton over
  lists: for every text and every handler it ends with the same state of the handler, and returns or throws the same.\<close>

theorem json_parser_refines:
  assumes "quiet_handler E"
  shows "map_outcome_state p_pHandler (parse_string E (Parser_new E h n) s)
      = map_outcome_state a_handler (arun E (SyntaxException ''JSON syntax error'') (initial h) s)
    \<and> map_outcome_state p_pHandler (parse_stream E (Parser_new E h n) s)
      = map_outcome_state a_handler (arun E (JSONException ''JSON syntax error'') (initial h) s)"
  unfolding parse_string_def parse_stream_def using parse_refines [OF assms] by blast

theorem json_parser_refines_witness:
  "map_outcome_state p_pHandler (parse_string recorder (Parser_new recorder (Some []) 0) ''[[],'')
    = Throws (JSONException ''JSON syntax error'') (Some [StartArray, StartArray, EndArray :: unit json_event])"
proof -
  have "map_outcome_state a_handler (arun recorder (SyntaxException ''JSON syntax error'') (initial (Some [])) ''[[],'')
      = Throws (JSONException ''JSON syntax error'') (Some [StartArray, StartArray, EndArray :: unit json_event])"
    by code_simp
  then show ?thesis by (rule trans [OF conjunct1 [OF json_parser_refines [OF recorder_quiet]]])
qed


lemma sample_object:
  fixes E :: "(unit, 'h) env"
  shows "jval E (Obj [(''k'', Arr [Leaf (VInt 1), Leaf (VBool True)])]) (''{'' @ [CHR 0x22] @ ''k'' @ [CHR 0x22] @ '': [1, true]}'')"
proof -
  have ws: "list_all ws_char []" "list_all ws_char '' ''" by (simp_all add: ws_char_def)
  have d: "dec_digit CHR ''1''" by code_simp
  have "json_token E (VInt 1) ''1''"
    using tok_int [OF ws(1), of "''1''" "VInt 1 :: unit jvalue" E] integer_value_one
    by (simp add: int_text_def digits_text_def d)
  from j_leaf [OF ws(1) this] have one: "jval E (Leaf (VInt 1)) ''1''" by simp
  have "jval E (Leaf (VBool True)) '' true''" using j_leaf [OF ws(2) tok_true [OF ws(1)]] by simp
  from j_elems [OF one j_elem [OF this]]
  have "jelems E [Leaf (VInt 1), Leaf (VBool True)] ''1, true''" by simp
  from j_arr [OF ws(2,1) this]
  have arr: "jval E (Arr [Leaf (VInt 1), Leaf (VBool True)]) '' [1, true]''" by simp
  have "str_body ''k'' ''k''" by (intro str_plain str_Nil; code_simp)
  from j_obj [OF ws(1,1) j_member [OF ws(1,1) this arr]] show ?thesis by simp
qed


end
