(* ===== verification/JSON_Soundness.thy ===== *)
theory JSON_Soundness
  imports JSON_Grammar
begin

text \<open>
  What the parser tells its handler when it returns. Every text that is accepted, JSON or not, makes the calls of
  one complete container in their order: the state, the type of the token and the stack of modes always fit the
  containers that have been opened and not closed.
\<close>

section \<open>The shape of a run\<close>

text \<open>A container that has been opened and not closed: the values it has, and the name that waits for
  its value.\<close>

datatype 'f frame = InArr "'f jtree list" | InObj "(string \<times> 'f jtree) list" "string option"

text \<open>What the handler has been told, with the innermost container first.\<close>

fun emitted :: "'f frame list \<Rightarrow> 'f json_event list" where
  "emitted [] = []"
| "emitted (InArr ts # fs) = emitted fs @ StartArray # concat (map events ts)"
| "emitted (InObj ms k # fs) = emitted fs @ StartObject # concat (map (\<lambda>(k, t). Key k # events t) ms)
     @ (case k of None \<Rightarrow> [] | Some k \<Rightarrow> [Key k])"

fun awaiting :: "'f frame \<Rightarrow> char \<Rightarrow> bool" where
  "awaiting (InArr ts) m \<longleftrightarrow> m = MODE_ARRAY"
| "awaiting (InObj ms k) m \<longleftrightarrow> m = MODE_OBJECT \<and> k \<noteq> None"

fun settled :: "'f frame \<Rightarrow> char \<Rightarrow> bool" where
  "settled (InArr ts) m \<longleftrightarrow> m = MODE_ARRAY"
| "settled (InObj ms k) m \<longleftrightarrow> m = MODE_OBJECT \<and> k = None"

fun add_value :: "'f jtree \<Rightarrow> 'f frame \<Rightarrow> 'f frame" where
  "add_value t (InArr ts) = InArr (ts @ [t])"
| "add_value t (InObj ms (Some k)) = InObj (ms @ [(k, t)]) None"
| "add_value t (InObj ms None) = InObj ms None"

lemma add_value_settled: "awaiting f m \<Longrightarrow> settled (add_value t f) m"
  by (cases "(t, f)" rule: add_value.cases) auto

lemma emitted_add_value: "awaiting f m \<Longrightarrow> emitted (add_value t f # fs) = emitted (f # fs) @ events t"
  by (cases "(t, f)" rule: add_value.cases) auto

definition word_states :: "States set" where
  "word_states = {MI, ZE, IT, FR, FX, E1, E2, E3, T1, T2, T3, F1, F2, F3, F4, N1, N2, N3}"

definition quote_states :: "States set" where
  "quote_states = {ST, EC, U1, U2, U3, U4, D1, D2}"

definition in_token :: "States \<Rightarrow> JSONType \<Rightarrow> bool" where
  "in_token st ty \<longleftrightarrow> (st \<in> word_states \<or> st = OK) \<and> ty \<notin> {JSON_T_NONE, JSON_T_STRING}
     \<or> st \<in> quote_states \<and> ty = JSON_T_STRING"

text \<open>The state and the type of the token agree with the innermost container and its mode.\<close>

definition fits :: "'f frame \<Rightarrow> char \<Rightarrow> States \<Rightarrow> JSONType \<Rightarrow> bool" where
  "fits f m st ty \<longleftrightarrow>
     awaiting f m \<and> (st \<in> {VA, AR} \<and> ty = JSON_T_NONE \<or> in_token st ty)
   \<or> settled f m \<and> st = OK \<and> ty = JSON_T_NONE
   \<or> (\<exists>ks. f = InObj ks None) \<and> m = MODE_KEY \<and> (st \<in> {OB, KE} \<and> ty = JSON_T_NONE \<or> st \<in> quote_states \<and> ty = JSON_T_STRING)
   \<or> (\<exists>ks k. f = InObj ks (Some k)) \<and> m = MODE_KEY \<and> st = CO \<and> ty = JSON_T_NONE"

definition well :: "('f, 'h) env \<Rightarrow> 'h \<Rightarrow> 'h \<Rightarrow> char list \<Rightarrow> States \<Rightarrow> JSONType \<Rightarrow> bool" where
  "well E h0 h ms st ty \<longleftrightarrow>
     ms = [MODE_DONE] \<and> ty = JSON_T_NONE
       \<and> (st = GO \<and> h = h0 \<or> st = OK \<and> (\<exists>t. container t \<and> feed E (events t) h0 = Returns h))
   \<or> (\<exists>f fs m ms'. ms = m # ms' @ [MODE_DONE] \<and> fits f m st ty \<and> list_all2 awaiting fs ms'
       \<and> feed E (emitted (f # fs)) h0 = Returns h)"

lemma well_nested:
  "fits f m st ty \<Longrightarrow> list_all2 awaiting fs ms' \<Longrightarrow> feed E (emitted (f # fs)) h0 = Returns h \<Longrightarrow>
     well E h0 h (m # ms' @ [MODE_DONE]) st ty"
  unfolding well_def by blast

lemma feed_snoc: "feed E es h0 = Returns h \<Longrightarrow> handle E e h = Returns h' \<Longrightarrow> feed E (es @ [e]) h0 = Returns h'"
  by (simp add: feed_append)

lemma well_open:
  assumes "well E h0 h ms st JSON_T_NONE" "st \<in> {GO, VA, AR}"
  shows "handle E StartArray h = Returns h' \<Longrightarrow> well E h0 h' (MODE_ARRAY # ms) AR JSON_T_NONE"
    and "handle E StartObject h = Returns h' \<Longrightarrow> well E h0 h' (MODE_KEY # ms) OB JSON_T_NONE"
proof -
  obtain fs ms' where fs: "ms = ms' @ [MODE_DONE]" "list_all2 awaiting fs ms'" "feed E (emitted fs) h0 = Returns h"
  proof (cases "st = GO")
    case True
    then have "ms = [] @ [MODE_DONE] \<and> list_all2 awaiting [] [] \<and> feed E (emitted []) h0 = Returns h"
      using assms(1) by (auto simp: well_def fits_def in_token_def word_states_def quote_states_def)
    then show ?thesis using that by blast
  next
    case False
    then have st: "st \<in> {VA, AR}" using assms(2) by auto
    then obtain f gs m ms' where f: "ms = m # ms' @ [MODE_DONE]" "fits f m st JSON_T_NONE" "list_all2 awaiting gs ms'"
      "feed E (emitted (f # gs)) h0 = Returns h" using assms(1) unfolding well_def by auto
    have "awaiting f m" using f(2) st by (auto simp: fits_def)
    then show ?thesis using that [of "m # ms'" "f # gs"] f by simp
  qed
  show "handle E StartArray h = Returns h' \<Longrightarrow> well E h0 h' (MODE_ARRAY # ms) AR JSON_T_NONE"
    unfolding fs(1) by (rule well_nested [where f = "InArr []" and fs = fs]) (use fs feed_snoc [OF fs(3)] in \<open>auto simp: fits_def\<close>)
  show "handle E StartObject h = Returns h' \<Longrightarrow> well E h0 h' (MODE_KEY # ms) OB JSON_T_NONE"
    unfolding fs(1) by (rule well_nested [where f = "InObj [] None" and fs = fs]) (use fs feed_snoc [OF fs(3)] in \<open>auto simp: fits_def\<close>)
qed

lemma well_add:
  assumes "list_all2 awaiting fs ms" "feed E (emitted fs @ events t) h0 = Returns h" "fs = [] \<longrightarrow> container t"
  shows "well E h0 h (ms @ [MODE_DONE]) OK JSON_T_NONE"
proof (cases fs)
  case Nil
  then show ?thesis using assms by (auto simp: well_def)
next
  case (Cons f gs)
  then obtain m ms' where m: "ms = m # ms'" "awaiting f m" "list_all2 awaiting gs ms'" using assms(1) by (auto simp: list_all2_Cons1)
  show ?thesis unfolding m(1) append_Cons
    by (rule well_nested [where f = "add_value t f" and fs = gs])
      (use m assms(2) Cons add_value_settled [OF m(2), of t] emitted_add_value [OF m(2), of t gs] in \<open>auto simp: fits_def\<close>)
qed

lemma well_close:
  assumes "list_all2 awaiting fs ms" "feed E (emitted (f # fs)) h0 = Returns h"
  shows "f = InArr ts \<Longrightarrow> handle E EndArray h = Returns h' \<Longrightarrow> well E h0 h' (ms @ [MODE_DONE]) OK JSON_T_NONE"
    and "f = InObj ks None \<Longrightarrow> handle E EndObject h = Returns h' \<Longrightarrow> well E h0 h' (ms @ [MODE_DONE]) OK JSON_T_NONE"
  using feed_snoc [OF assms(2)] well_add [OF assms(1), of E "Arr ts" h0 h'] well_add [OF assms(1), of E "Obj ks" h0 h']
  by (auto simp: container_def)

text \<open>Flushing a token completes the value of the innermost container.\<close>

definition flushed :: "('f, 'h) env \<Rightarrow> JSONType \<Rightarrow> 'h \<Rightarrow> 'h \<Rightarrow> bool" where
  "flushed E ty h h' \<longleftrightarrow> (if ty = JSON_T_NONE then h' = h else \<exists>v. handle E (Value v) h = Returns h')"

lemma well_flush:
  assumes "well E h0 h ms st ty" "st = OK \<or> st \<in> word_states \<or> st \<in> quote_states \<and> ms \<noteq> [] \<and> hd ms \<noteq> MODE_KEY" "flushed E ty h h'"
  shows "well E h0 h' ms OK JSON_T_NONE"
proof (cases "ty = JSON_T_NONE")
  case True
  then show ?thesis using assms by (auto simp: well_def fits_def in_token_def word_states_def quote_states_def flushed_def)
next
  case False
  then obtain f fs m ms' where f: "ms = m # ms' @ [MODE_DONE]" "fits f m st ty" "list_all2 awaiting fs ms'"
      "feed E (emitted (f # fs)) h0 = Returns h" using assms(1) unfolding well_def by blast
  have a: "awaiting f m" using f(1,2) False assms(2) by (auto simp: fits_def in_token_def word_states_def quote_states_def)
  obtain v where v: "handle E (Value v) h = Returns h'" using assms(3) False by (auto simp: flushed_def)
  show ?thesis unfolding f(1) using well_add [of "f # fs" "m # ms'" E "Leaf v" h0 h'] feed_snoc [OF f(4) v] a f(3) by simp
qed

lemma well_ok:
  assumes "well E h0 h (m # ms) OK JSON_T_NONE" "m \<noteq> MODE_DONE"
  obtains f fs ms' where "ms = ms' @ [MODE_DONE]" "settled f m" "list_all2 awaiting fs ms'" "feed E (emitted (f # fs)) h0 = Returns h"
  using assms by (auto simp: well_def fits_def in_token_def)

lemma well_comma:
  assumes "well E h0 h (m # ms) OK JSON_T_NONE"
  shows "m = MODE_ARRAY \<Longrightarrow> well E h0 h (m # ms) VA JSON_T_NONE"
    and "m = MODE_OBJECT \<Longrightarrow> well E h0 h (MODE_KEY # ms) KE JSON_T_NONE"
proof -
  show "well E h0 h (m # ms) VA JSON_T_NONE" if m: "m = MODE_ARRAY"
  proof -
    obtain f fs ms' where f: "ms = ms' @ [MODE_DONE]" "settled f m" "list_all2 awaiting fs ms'" "feed E (emitted (f # fs)) h0 = Returns h"
      by (rule well_ok [OF assms]) (use m in simp)
    then show ?thesis unfolding f(1) using m by (intro well_nested [OF _ f(3,4)]) (cases f; auto simp: fits_def)
  qed
  show "well E h0 h (MODE_KEY # ms) KE JSON_T_NONE" if m: "m = MODE_OBJECT"
  proof -
    obtain f fs ms' where f: "ms = ms' @ [MODE_DONE]" "settled f m" "list_all2 awaiting fs ms'" "feed E (emitted (f # fs)) h0 = Returns h"
      by (rule well_ok [OF assms]) (use m in simp)
    then show ?thesis unfolding f(1) using m by (intro well_nested [OF _ f(3,4)]) (cases f; auto simp: fits_def)
  qed
qed

lemma well_end:
  assumes "well E h0 h (m # ms) OK JSON_T_NONE"
  shows "m = MODE_ARRAY \<Longrightarrow> handle E EndArray h = Returns h' \<Longrightarrow> well E h0 h' ms OK JSON_T_NONE"
    and "m = MODE_OBJECT \<Longrightarrow> handle E EndObject h = Returns h' \<Longrightarrow> well E h0 h' ms OK JSON_T_NONE"
proof -
  show "well E h0 h' ms OK JSON_T_NONE" if m: "m = MODE_ARRAY" and e: "handle E EndArray h = Returns h'"
  proof -
    obtain f fs ms' where f: "ms = ms' @ [MODE_DONE]" "settled f m" "list_all2 awaiting fs ms'" "feed E (emitted (f # fs)) h0 = Returns h"
      by (rule well_ok [OF assms]) (use m in simp)
    then show ?thesis unfolding f(1) using m e well_close(1) [OF f(3,4)] by (cases f) auto
  qed
  show "well E h0 h' ms OK JSON_T_NONE" if m: "m = MODE_OBJECT" and e: "handle E EndObject h = Returns h'"
  proof -
    obtain f fs ms' where f: "ms = ms' @ [MODE_DONE]" "settled f m" "list_all2 awaiting fs ms'" "feed E (emitted (f # fs)) h0 = Returns h"
      by (rule well_ok [OF assms]) (use m in simp)
    then show ?thesis unfolding f(1) using m e well_close(2) [OF f(3,4)] by (cases f) auto
  qed
qed

section \<open>Steps keep the shape\<close>

lemmas state_kinds = well_def fits_def in_token_def word_states_def quote_states_def

lemma well_type:
  "well E h0 h ms st ty \<Longrightarrow> st \<in> {GO, OB, KE, CO, VA, AR} \<Longrightarrow> ty = JSON_T_NONE"
  "well E h0 h ms st ty \<Longrightarrow> st \<in> word_states \<Longrightarrow> ty \<notin> {JSON_T_NONE, JSON_T_STRING}"
  "well E h0 h ms st ty \<Longrightarrow> st \<in> quote_states \<Longrightarrow> ty = JSON_T_STRING"
  by (auto simp: state_kinds)

lemma well_change:
  assumes "well E h0 h ms st ty"
  shows "st \<in> {VA, AR} \<or> st \<in> word_states \<Longrightarrow> ty' \<notin> {JSON_T_NONE, JSON_T_STRING} \<Longrightarrow> st' \<in> word_states \<or> st' = OK \<Longrightarrow> well E h0 h ms st' ty'"
    and "st \<in> {OB, KE, VA, AR} \<or> st \<in> quote_states \<Longrightarrow> st' \<in> quote_states \<Longrightarrow> well E h0 h ms st' JSON_T_STRING"
proof -
  assume st: "st \<in> {VA, AR} \<or> st \<in> word_states" and ty': "ty' \<notin> {JSON_T_NONE, JSON_T_STRING}" and st': "st' \<in> word_states \<or> st' = OK"
  then obtain f fs m ms' where f: "ms = m # ms' @ [MODE_DONE]" "fits f m st ty" "list_all2 awaiting fs ms'"
      "feed E (emitted (f # fs)) h0 = Returns h" using assms unfolding well_def word_states_def by blast
  have "fits f m st' ty'" using f(2) st ty' st' by (auto simp: fits_def in_token_def word_states_def quote_states_def)
  then show "well E h0 h ms st' ty'" unfolding f(1) using f(3,4) by (rule well_nested)
next
  assume st: "st \<in> {OB, KE, VA, AR} \<or> st \<in> quote_states" and st': "st' \<in> quote_states"
  then obtain f fs m ms' where f: "ms = m # ms' @ [MODE_DONE]" "fits f m st ty" "list_all2 awaiting fs ms'"
      "feed E (emitted (f # fs)) h0 = Returns h" using assms unfolding well_def quote_states_def by blast
  have "fits f m st' JSON_T_STRING" using f(2) st st' by (auto simp: fits_def in_token_def word_states_def quote_states_def)
  then show "well E h0 h ms st' JSON_T_STRING" unfolding f(1) using f(3,4) by (rule well_nested)
qed

lemma well_key:
  assumes "well E h0 h (MODE_KEY # ms) st ty" "st \<in> quote_states" "handle E (Key k) h = Returns h'"
  shows "well E h0 h' (MODE_KEY # ms) CO JSON_T_NONE"
proof -
  obtain f fs ms' where f: "ms = ms' @ [MODE_DONE]" "fits f MODE_KEY st ty" "list_all2 awaiting fs ms'"
      "feed E (emitted (f # fs)) h0 = Returns h" using assms(1) unfolding well_def by auto
  have "\<not> awaiting f MODE_KEY" by (cases f) auto
  then obtain ks where ks: "f = InObj ks None" using f(2) assms(2) by (auto simp: fits_def quote_states_def)
  show ?thesis unfolding f(1)
    by (rule well_nested [OF _ f(3), where f = "InObj ks (Some k)"]) (use feed_snoc [OF f(4) assms(3)] ks in \<open>auto simp: fits_def\<close>)
qed

lemma well_colon:
  assumes "well E h0 h (MODE_KEY # ms) CO ty"
  shows "well E h0 h (MODE_OBJECT # ms) VA JSON_T_NONE"
proof -
  obtain f fs ms' where f: "ms = ms' @ [MODE_DONE]" "fits f MODE_KEY CO ty" "list_all2 awaiting fs ms'"
      "feed E (emitted (f # fs)) h0 = Returns h" using assms(1) unfolding well_def by auto
  have "awaiting f MODE_OBJECT" using f(2) by (auto simp: fits_def in_token_def word_states_def quote_states_def)
  then have "fits f MODE_OBJECT VA JSON_T_NONE" by (simp add: fits_def)
  then show ?thesis unfolding f(1) using f(3,4) by (rule well_nested)
qed

lemma well_empty:
  "well E h0 h (MODE_KEY # ms) OB ty \<Longrightarrow> handle E EndObject h = Returns h' \<Longrightarrow> well E h0 h' ms OK JSON_T_NONE"
  "well E h0 h (MODE_ARRAY # ms) AR ty \<Longrightarrow> handle E EndArray h = Returns h' \<Longrightarrow> well E h0 h' ms OK JSON_T_NONE"
proof -
  assume w: "well E h0 h (MODE_KEY # ms) OB ty" and e: "handle E EndObject h = Returns h'"
  obtain f fs ms' where f: "ms = ms' @ [MODE_DONE]" "fits f MODE_KEY OB ty" "list_all2 awaiting fs ms'"
      "feed E (emitted (f # fs)) h0 = Returns h" using w unfolding well_def by auto
  obtain ks where "f = InObj ks None" using f(2) by (auto simp: fits_def in_token_def word_states_def quote_states_def)
  then show "well E h0 h' ms OK JSON_T_NONE" unfolding f(1) using well_close(2) [OF f(3,4)] e by blast
next
  assume w: "well E h0 h (MODE_ARRAY # ms) AR ty" and e: "handle E EndArray h = Returns h'"
  obtain f fs ms' where f: "ms = ms' @ [MODE_DONE]" "fits f MODE_ARRAY AR ty" "list_all2 awaiting fs ms'"
      "feed E (emitted (f # fs)) h0 = Returns h" using w unfolding well_def by auto
  obtain ts where "f = InArr ts" using f(2) by (cases f) (auto simp: fits_def in_token_def word_states_def quote_states_def)
  then show "well E h0 h' ms OK JSON_T_NONE" unfolding f(1) using well_close(1) [OF f(3,4)] e by blast
qed

text \<open>What the transition table allows in which state.\<close>

definition to_ok :: "States \<Rightarrow> States \<Rightarrow> bool" where
  "to_ok st s \<longleftrightarrow> st \<in> {C1, C2, C3} \<or> st \<in> {GO, OK, OB, KE, CO, VA, AR} \<and> s = st
     \<or> st \<in> word_states \<and> (s \<in> word_states \<or> s = OK) \<or> st \<in> quote_states \<and> s \<in> quote_states"

definition do_ok :: "States \<Rightarrow> Actions \<Rightarrow> bool" where
  "do_ok st x \<longleftrightarrow>
     (if x \<in> {UC, ESC, M4} then st \<in> quote_states
      else if x \<in> {MX, ZX, IX, NU, FA, TR} then st \<in> {VA, AR}
      else if x \<in> {DE, DF} then st \<in> word_states
      else if x = SB then st \<in> {OB, KE, VA, AR}
      else if x = CE then st \<in> {C1, C2, C3}
      else if x = M9 then st = OB
      else if x \<in> {M8, M3} then st = OK \<or> st \<in> word_states
      else if x = M7 then st = AR \<or> st = OK \<or> st \<in> word_states
      else if x \<in> {M6, M5} then st \<in> {GO, VA, AR}
      else if x = M2 then st = CO
      else True)"

definition all_states :: "States list" where
  "all_states = [GO, OK, OB, KE, CO, VA, AR, ST, EC, U1, U2, U3, U4, MI, ZE, IT, FR, E1, E2, E3, T1, T2, T3, F1,
     F2, F3, F4, N1, N2, N3, C1, C2, C3, FX, D1, D2]"

lemma table_ok:
  "case nextState st cl of To s \<Rightarrow> to_ok st s | Do x \<Rightarrow> do_ok st x | xx \<Rightarrow> True"
proof -
  have "list_all (\<lambda>st. list_all (\<lambda>cl. case nextState st cl of To s \<Rightarrow> to_ok st s | Do x \<Rightarrow> do_ok st x | xx \<Rightarrow> True) all_classes) all_states"
    by code_simp
  moreover have "st \<in> set all_states" by (cases st) (simp_all add: all_states_def)
  moreover have "cl \<in> set all_classes" by (cases cl) (simp_all add: all_classes_def)
  ultimately show ?thesis by (simp add: list_all_iff)
qed

lemma awaiting_mode: "awaiting f m \<Longrightarrow> m \<noteq> MODE_DONE"
  by (cases f) auto

lemma settled_mode: "settled f m \<Longrightarrow> m \<noteq> MODE_DONE"
  by (cases f) auto

definition sound :: "('f, 'h) env \<Rightarrow> 'h \<Rightarrow> 'h auto \<Rightarrow> bool" where
  "sound E h0 a \<longleftrightarrow> \<not> a_comments a \<and> (\<exists>h. a_handler a = Some h \<and> well E h0 h (a_modes a) (a_state a) (a_type a))"

lemma call_True: "call m k = Returns (a, True) \<Longrightarrow> \<exists>a1. m = Returns a1 \<and> k a1 = Returns (a, True)"
  by (cases m) auto

lemma if_true_True: "if_true m k = Returns (a, True) \<Longrightarrow> \<exists>a1. m = Returns (a1, True) \<and> k a1 = Returns (a, True)"
  by (cases "(m, k)" rule: if_true.cases) (auto split: if_splits)

lemma poco_assert_True: "poco_assert b p m = Returns r \<longleftrightarrow> b \<and> m = Returns r"
  by (simp add: poco_assert_def)

lemma atell_Returns:
  "atell E e a = Returns a' \<Longrightarrow> a_handler a = Some h \<Longrightarrow> \<exists>h'. handle E e h = Returns h' \<and> a' = a\<lparr>a_handler := Some h'\<rparr>"
  by (cases "handle E e h") (auto simp: atell_def)

lemma aclear_Returns: "aclear a = Returns a' \<longleftrightarrow> a' = a\<lparr>a_text := []\<rparr>"
  by (auto simp: aclear_def)

lemma aunput_Returns: "aunput a = Returns a' \<Longrightarrow> a' = a\<lparr>a_text := butlast (a_text a)\<rparr>"
  by (auto simp: aunput_def split: if_splits)

lemma aflush_Returns:
  assumes "aflush E a = Returns a'" "a_handler a = Some h"
  shows "\<exists>h'. flushed E (a_type a) h h' \<and> a' = a\<lparr>a_handler := Some h', a_text := []\<rparr>"
proof -
  obtain a1 where a1: "(if a_handler a \<noteq> None \<and> a_type a \<noteq> JSON_T_NONE then
          (case token_value E (a_type a) (a_text a) of Inl e \<Rightarrow> Throws e a | Inr v \<Rightarrow> atell E (Value v) a)
        else Returns a) = Returns a1" "a' = a1\<lparr>a_text := []\<rparr>"
    using assms(1) unfolding aflush_def and_then_Returns_conv aclear_Returns by blast
  show ?thesis
  proof (cases "a_type a = JSON_T_NONE")
    case True
    then have "a1 = a" using a1(1) by simp
    then show ?thesis using a1(2) assms(2) True by (auto simp: flushed_def intro!: exI [of _ h])
  next
    case False
    then obtain v where "atell E (Value v) a = Returns a1" using a1(1) assms(2) by (auto split: sum.splits)
    then show ?thesis using atell_Returns assms(2) a1(2) False by (fastforce simp: flushed_def)
  qed
qed

lemma apop_True: "apop m a = Returns (a', True) \<longleftrightarrow> (\<exists>ms. a_modes a = m # ms \<and> a' = a\<lparr>a_modes := ms\<rparr>)"
  by (auto simp: apop_def split: list.splits if_splits)

lemma apush_True: "apush m a = Returns (a', True) \<longleftrightarrow> a' = a\<lparr>a_modes := m # a_modes a\<rparr>"
  by (auto simp: apush_def)

lemma ago_True: "ago s a = Returns (a', True) \<longleftrightarrow> a' = a\<lparr>a_state := s\<rparr>"
  by (auto simp: ago_def)

lemma unput_flush_Returns:
  assumes "and_then (aunput a) (aflush E) = Returns a'" "a_handler a = Some h"
  shows "\<exists>h'. flushed E (a_type a) h h' \<and> a' = a\<lparr>a_handler := Some h', a_text := []\<rparr>"
proof -
  obtain a1 where a1: "aunput a = Returns a1" "aflush E a1 = Returns a'" using assms(1) unfolding and_then_Returns_conv by blast
  note a1' = aunput_Returns [OF a1(1)]
  have "a_handler a1 = Some h" using a1' assms(2) by simp
  from aflush_Returns [OF a1(2) this] show ?thesis unfolding a1' by auto
qed

lemma unput_tell_Returns:
  assumes "and_then (aunput a) (atell E e) = Returns a'" "a_handler a = Some h"
  shows "\<exists>h' tx. handle E e h = Returns h' \<and> a' = a\<lparr>a_text := tx, a_handler := Some h'\<rparr>"
proof -
  obtain a1 where a1: "aunput a = Returns a1" "atell E e a1 = Returns a'" using assms(1) unfolding and_then_Returns_conv by blast
  note a1' = aunput_Returns [OF a1(1)]
  have "a_handler a1 = Some h" using a1' assms(2) by simp
  from atell_Returns [OF a1(2) this] show ?thesis unfolding a1' by auto
qed

lemma flush_tell_Returns:
  assumes "and_then (and_then (aunput a) (aflush E)) (atell E e) = Returns a'" "a_handler a = Some h"
  shows "\<exists>h1 h'. flushed E (a_type a) h h1 \<and> handle E e h1 = Returns h' \<and> a' = a\<lparr>a_text := [], a_handler := Some h'\<rparr>"
proof -
  obtain a1 where a1: "and_then (aunput a) (aflush E) = Returns a1" "atell E e a1 = Returns a'"
    using assms(1) unfolding and_then_Returns_conv [of "and_then (aunput a) (aflush E)"] by blast
  obtain h1 where h1: "flushed E (a_type a) h h1" "a1 = a\<lparr>a_handler := Some h1, a_text := []\<rparr>"
    using unput_flush_Returns [OF a1(1) assms(2)] by blast
  have "a_handler a1 = Some h1" using h1(2) by simp
  from atell_Returns [OF a1(2) this] show ?thesis using h1 by auto
qed

lemma aunicode_True:
  "aunicode a = Returns (a', True) \<Longrightarrow> \<exists>tx sur. a' = a\<lparr>a_text := tx, a_surrogate := sur\<rparr>"
  by (auto simp: aunicode_def Let_def poco_assert_def split: if_splits option.splits)

lemma aadd_Returns:
  "aadd c cl a = Returns a' \<Longrightarrow>
    a_handler a' = a_handler a \<and> a_modes a' = a_modes a \<and> a_state a' = a_state a \<and> a_type a' = a_type a \<and> a_comments a' = a_comments a"
  by (auto simp: aadd_def aput_def aunput_def split: if_splits)

lemmas step_Returns = poco_assert_True ago_True apush_True apop_True aclear_Returns

lemma perform_sound_token:
  assumes "sound E h0 a" "do_ok (a_state a) x" "aperform E x a = Returns (a', True)"
    "x \<in> {UC, ESC, MX, ZX, IX, DE, DF, SB, NU, FA, TR, CE, CB}"
  shows "sound E h0 a'"
proof -
  obtain h where h: "\<not> a_comments a" "a_handler a = Some h" "well E h0 h (a_modes a) (a_state a) (a_type a)"
    using assms(1) unfolding sound_def by blast
  note w = well_change [OF h(3)]
  have q: "D1 \<in> quote_states" "ST \<in> quote_states" "EC \<in> quote_states" by (simp_all add: quote_states_def)
  have n: "MI \<in> word_states" "ZE \<in> word_states" "IT \<in> word_states" "E1 \<in> word_states" "FX \<in> word_states" "N1 \<in> word_states" "F1 \<in> word_states" "T1 \<in> word_states"
    by (simp_all add: word_states_def)
  show ?thesis
  proof (cases x)
    case UC
    then obtain a1 where a1: "aunicode a = Returns (a1, True)" "a' = a1\<lparr>a_state := (if a_surrogate a1 \<noteq> 0 then D1 else ST)\<rparr>"
      using if_true_True [OF assms(3) [unfolded UC aperform.simps]] unfolding ago_True by blast
    have st: "a_state a \<in> quote_states" using assms(2) UC by (simp add: do_ok_def)
    show ?thesis using aunicode_True [OF a1(1)] a1(2) h w(2) st q well_type(3) [OF h(3) st] by (auto simp: sound_def)
  next
    case ESC
    then have "a_state a \<in> quote_states" "a' = a\<lparr>a_escaped := True, a_state := EC\<rparr>" using assms(2,3) by (simp_all add: do_ok_def step_Returns)
    then show ?thesis using h w(2) q well_type(3) [OF h(3)] by (auto simp: sound_def)
  next
    case SB
    then show ?thesis using assms(2,3) h w(2) q by (auto simp: do_ok_def step_Returns sound_def dest!: call_True)
  next
    case CE
    then have "a_state a \<in> {C1, C2, C3}" using assms(2) by (simp add: do_ok_def)
    then show ?thesis using h(3) by (auto simp: state_kinds)
  next
    case CB
    then show ?thesis using assms(3) h(1) by simp
  qed (use assms(2-4) h w(1) n in \<open>auto simp: do_ok_def step_Returns sound_def\<close>)
qed

lemma perform_sound_M2:
  assumes "sound E h0 a" "do_ok (a_state a) M2" "aperform E M2 a = Returns (a', True)"
  shows "sound E h0 a'"
proof -
  obtain h where h: "\<not> a_comments a" "a_handler a = Some h" "well E h0 h (a_modes a) (a_state a) (a_type a)"
    using assms(1) unfolding sound_def by blast
  have st: "a_state a = CO" using assms(2) by (simp add: do_ok_def)
  obtain a1 a2 where a: "aunput a = Returns a1" "if_true (apop MODE_KEY a1) (apush MODE_OBJECT) = Returns (a2, True)"
      "a_type a2 = JSON_T_NONE" "a' = a2\<lparr>a_state := VA\<rparr>"
    using assms(3) by (auto simp: step_Returns dest!: call_True if_true_True [of "if_true _ _"])
  obtain ms where ms: "a_modes a1 = MODE_KEY # ms" "a2 = a1\<lparr>a_modes := MODE_OBJECT # ms\<rparr>"
    using if_true_True [OF a(2)] by (auto simp: step_Returns)
  show ?thesis using aunput_Returns [OF a(1)] ms a(3,4) h st well_colon [of E h0 h ms "a_type a"] by (simp add: sound_def)
qed

lemma perform_sound_M4:
  assumes "sound E h0 a" "do_ok (a_state a) M4" "aperform E M4 a = Returns (a', True)"
  shows "sound E h0 a'"
proof -
  obtain h where h: "\<not> a_comments a" "a_handler a = Some h" "well E h0 h (a_modes a) (a_state a) (a_type a)"
    using assms(1) unfolding sound_def by blast
  have st: "a_state a \<in> quote_states" using assms(2) by (simp add: do_ok_def)
  obtain a1 where a1: "aunput a = Returns a1" using assms(3) by (auto dest!: call_True)
  note a1' = aunput_Returns [OF a1]
  obtain m ms where m: "a_modes a = m # ms" using h(3) by (cases "a_modes a") (auto simp: well_def)
  show ?thesis
  proof (cases "m = MODE_KEY")
    case True
    obtain a2 where a2: "atell E (Key (a_text a1)) (a1\<lparr>a_type := JSON_T_NONE, a_state := CO\<rparr>) = Returns a2" "a' = a2\<lparr>a_text := []\<rparr>"
      using assms(3) a1 a1' m True by (auto simp: step_Returns atop_def and_then_Returns_conv dest!: call_True)
    have "a_handler (a1\<lparr>a_type := JSON_T_NONE, a_state := CO\<rparr>) = Some h" using a1' h(2) by simp
    from atell_Returns [OF a2(1) this] obtain h' where h': "handle E (Key (a_text a1)) h = Returns h'"
      "a2 = a1\<lparr>a_type := JSON_T_NONE, a_state := CO, a_handler := Some h'\<rparr>" by blast
    then show ?thesis using a2(2) a1' h m True st well_key [of E h0 h ms "a_state a" "a_type a"] by (auto simp: sound_def)
  next
    case False
    then have m': "m = MODE_ARRAY \<or> m = MODE_OBJECT" using assms(3) a1 a1' m by (auto simp: atop_def split: if_splits)
    obtain a2 where a2: "aflush E a1 = Returns a2" "a' = a2\<lparr>a_type := JSON_T_NONE, a_state := OK\<rparr>"
      using assms(3) a1 a1' m False m' by (auto simp: step_Returns atop_def dest!: call_True)
    have "a_handler a1 = Some h" using a1' h(2) by simp
    from aflush_Returns [OF a2(1) this] obtain h' where h': "flushed E (a_type a1) h h'" "a2 = a1\<lparr>a_handler := Some h', a_text := []\<rparr>" by blast
    have "well E h0 h' (a_modes a) OK JSON_T_NONE" using h'(1) a1' st m False by (intro well_flush [OF h(3)]) auto
    then show ?thesis using a2(2) h'(2) a1' h(1) by (simp add: sound_def)
  qed
qed

lemma perform_sound_M5:
  assumes "sound E h0 a" "do_ok (a_state a) M5" "aperform E M5 a = Returns (a', True)"
  shows "sound E h0 a'"
proof -
  obtain h where h: "\<not> a_comments a" "a_handler a = Some h" "well E h0 h (a_modes a) (a_state a) (a_type a)"
    using assms(1) unfolding sound_def by blast
  have st: "a_state a \<in> {GO, VA, AR}" using assms(2) by (simp add: do_ok_def)
  obtain a1 where a1: "and_then (aunput a) (atell E StartArray) = Returns a1"
      "a' = a1\<lparr>a_modes := MODE_ARRAY # a_modes a1, a_state := AR\<rparr>"
    using assms(3) by (auto simp: step_Returns dest!: call_True if_true_True)
  obtain h' tx where h': "handle E StartArray h = Returns h'" "a1 = a\<lparr>a_text := tx, a_handler := Some h'\<rparr>"
    using unput_tell_Returns [OF a1(1) h(2)] by blast
  have ty: "a_type a = JSON_T_NONE" using well_type(1) [OF h(3)] st by blast
  show ?thesis using well_open(1) [OF h(3) [unfolded ty] st h'(1)] a1(2) h'(2) h(1) ty by (simp add: sound_def)
qed

lemma perform_sound_M6:
  assumes "sound E h0 a" "do_ok (a_state a) M6" "aperform E M6 a = Returns (a', True)"
  shows "sound E h0 a'"
proof -
  obtain h where h: "\<not> a_comments a" "a_handler a = Some h" "well E h0 h (a_modes a) (a_state a) (a_type a)"
    using assms(1) unfolding sound_def by blast
  have st: "a_state a \<in> {GO, VA, AR}" using assms(2) by (simp add: do_ok_def)
  obtain a1 where a1: "and_then (aunput a) (atell E StartObject) = Returns a1"
      "a' = a1\<lparr>a_modes := MODE_KEY # a_modes a1, a_state := OB\<rparr>"
    using assms(3) by (auto simp: step_Returns dest!: call_True if_true_True)
  obtain h' tx where h': "handle E StartObject h = Returns h'" "a1 = a\<lparr>a_text := tx, a_handler := Some h'\<rparr>"
    using unput_tell_Returns [OF a1(1) h(2)] by blast
  have ty: "a_type a = JSON_T_NONE" using well_type(1) [OF h(3)] st by blast
  show ?thesis using well_open(2) [OF h(3) [unfolded ty] st h'(1)] a1(2) h'(2) h(1) ty by (simp add: sound_def)
qed

lemma perform_sound_M3:
  assumes "sound E h0 a" "do_ok (a_state a) M3" "aperform E M3 a = Returns (a', True)"
  shows "sound E h0 a'"
proof -
  obtain h where h: "\<not> a_comments a" "a_handler a = Some h" "well E h0 h (a_modes a) (a_state a) (a_type a)"
    using assms(1) unfolding sound_def by blast
  have st: "a_state a = OK \<or> a_state a \<in> word_states" using assms(2) by (simp add: do_ok_def)
  obtain a1 where a1: "and_then (aunput a) (aflush E) = Returns a1" using assms(3) by (auto dest!: call_True)
  obtain h' where h': "flushed E (a_type a) h h'" "a1 = a\<lparr>a_handler := Some h', a_text := []\<rparr>" using unput_flush_Returns [OF a1 h(2)] by blast
  obtain m ms where m: "a_modes a = m # ms" using h(3) by (cases "a_modes a") (auto simp: well_def)
  have ok: "well E h0 h' (m # ms) OK JSON_T_NONE" using well_flush [OF h(3) _ h'(1)] st m by auto
  show ?thesis
  proof (cases "m = MODE_OBJECT")
    case True
    then have "a' = a1\<lparr>a_modes := MODE_KEY # ms, a_type := JSON_T_NONE, a_state := KE\<rparr>"
      using assms(3) a1 h'(2) m by (auto simp: step_Returns atop_def apop_def apush_def)
    then show ?thesis using well_comma(2) [OF ok True] h'(2) h(1) by (simp add: sound_def)
  next
    case False
    then have a': "m = MODE_ARRAY" "a' = a1\<lparr>a_type := JSON_T_NONE, a_state := VA\<rparr>"
      using assms(3) a1 h'(2) m by (auto simp: step_Returns atop_def split: if_splits)
    then show ?thesis using well_comma(1) [OF ok a'(1)] h'(2) h(1) m by (simp add: sound_def)
  qed
qed

lemma perform_sound_M8:
  assumes "sound E h0 a" "do_ok (a_state a) M8" "aperform E M8 a = Returns (a', True)"
  shows "sound E h0 a'"
proof -
  obtain h where h: "\<not> a_comments a" "a_handler a = Some h" "well E h0 h (a_modes a) (a_state a) (a_type a)"
    using assms(1) unfolding sound_def by blast
  have st: "a_state a = OK \<or> a_state a \<in> word_states" using assms(2) by (simp add: do_ok_def)
  obtain a1 ms where a1: "and_then (and_then (aunput a) (aflush E)) (atell E EndObject) = Returns a1" "a_modes a1 = MODE_OBJECT # ms"
      "a' = a1\<lparr>a_modes := ms, a_type := JSON_T_NONE, a_state := OK\<rparr>"
    using assms(3) by (auto simp: step_Returns dest!: call_True if_true_True)
  obtain h1 h' where h': "flushed E (a_type a) h h1" "handle E EndObject h1 = Returns h'" "a1 = a\<lparr>a_text := [], a_handler := Some h'\<rparr>"
    using flush_tell_Returns [OF a1(1) h(2)] by blast
  have m: "a_modes a = MODE_OBJECT # ms" using a1(2) h'(3) by simp
  have "well E h0 h1 (MODE_OBJECT # ms) OK JSON_T_NONE" using well_flush [OF h(3) _ h'(1)] st m by auto
  from well_end(2) [OF this refl h'(2)] show ?thesis using a1(3) h'(3) h(1) by (simp add: sound_def)
qed

lemma perform_sound_M7:
  assumes "sound E h0 a" "do_ok (a_state a) M7" "aperform E M7 a = Returns (a', True)"
  shows "sound E h0 a'"
proof -
  obtain h where h: "\<not> a_comments a" "a_handler a = Some h" "well E h0 h (a_modes a) (a_state a) (a_type a)"
    using assms(1) unfolding sound_def by blast
  obtain a1 ms where a1: "and_then (and_then (aunput a) (aflush E)) (atell E EndArray) = Returns a1" "a_modes a1 = MODE_ARRAY # ms"
      "a' = a1\<lparr>a_modes := ms, a_type := JSON_T_NONE, a_state := OK\<rparr>"
    using assms(3) by (auto simp: step_Returns dest!: call_True if_true_True)
  obtain h1 h' where h': "flushed E (a_type a) h h1" "handle E EndArray h1 = Returns h'" "a1 = a\<lparr>a_text := [], a_handler := Some h'\<rparr>"
    using flush_tell_Returns [OF a1(1) h(2)] by blast
  have m: "a_modes a = MODE_ARRAY # ms" using a1(2) h'(3) by simp
  have "well E h0 h' ms OK JSON_T_NONE"
  proof (cases "a_state a = AR")
    case True
    then have "h1 = h" using well_type(1) [OF h(3)] h'(1) by (auto simp: flushed_def)
    then show ?thesis using well_empty(2) [of E h0 h ms "a_type a" h'] h(3) h'(2) True m by simp
  next
    case False
    then have "a_state a = OK \<or> a_state a \<in> word_states" using assms(2) by (simp add: do_ok_def)
    then have "well E h0 h1 (MODE_ARRAY # ms) OK JSON_T_NONE" using well_flush [OF h(3) _ h'(1)] m by auto
    from well_end(1) [OF this refl h'(2)] show ?thesis .
  qed
  then show ?thesis using a1(3) h'(3) h(1) by (simp add: sound_def)
qed

lemma perform_sound_M9:
  assumes "sound E h0 a" "do_ok (a_state a) M9" "aperform E M9 a = Returns (a', True)"
  shows "sound E h0 a'"
proof -
  obtain h where h: "\<not> a_comments a" "a_handler a = Some h" "well E h0 h (a_modes a) (a_state a) (a_type a)"
    using assms(1) unfolding sound_def by blast
  have st: "a_state a = OB" using assms(2) by (simp add: do_ok_def)
  obtain a1 ms where a1: "atell E EndObject (a\<lparr>a_text := []\<rparr>) = Returns a1" "a_modes a1 = MODE_KEY # ms"
      "a' = a1\<lparr>a_modes := ms, a_state := OK\<rparr>"
    using assms(3) by (auto simp: step_Returns and_then_Returns_conv dest!: call_True if_true_True)
  have "a_handler (a\<lparr>a_text := []\<rparr>) = Some h" using h(2) by simp
  from atell_Returns [OF a1(1) this] obtain h' where h': "handle E EndObject h = Returns h'" "a1 = a\<lparr>a_text := [], a_handler := Some h'\<rparr>" by blast
  have "a_modes a = MODE_KEY # ms" "a_type a = JSON_T_NONE" using a1(2) h'(2) well_type(1) [OF h(3)] st by simp_all
  then show ?thesis using well_empty(1) [of E h0 h ms "a_type a" h'] h(1,3) h' a1(3) st by (simp add: sound_def)
qed

lemma perform_sound:
  assumes "sound E h0 a" "do_ok (a_state a) x" "aperform E x a = Returns (a', True)"
  shows "sound E h0 a'"
proof (cases x)
  case M2
  show ?thesis by (rule perform_sound_M2 [OF assms(1) assms(2,3) [unfolded M2]])
next
  case M3
  show ?thesis by (rule perform_sound_M3 [OF assms(1) assms(2,3) [unfolded M3]])
next
  case M4
  show ?thesis by (rule perform_sound_M4 [OF assms(1) assms(2,3) [unfolded M4]])
next
  case M5
  show ?thesis by (rule perform_sound_M5 [OF assms(1) assms(2,3) [unfolded M5]])
next
  case M6
  show ?thesis by (rule perform_sound_M6 [OF assms(1) assms(2,3) [unfolded M6]])
next
  case M7
  show ?thesis by (rule perform_sound_M7 [OF assms(1) assms(2,3) [unfolded M7]])
next
  case M8
  show ?thesis by (rule perform_sound_M8 [OF assms(1) assms(2,3) [unfolded M8]])
next
  case M9
  show ?thesis by (rule perform_sound_M9 [OF assms(1) assms(2,3) [unfolded M9]])
qed (use perform_sound_token [OF assms] in simp_all)

lemma ascii_sound:
  assumes "sound E h0 a" "aascii E c a = Returns (a', True)"
  shows "sound E h0 a'"
proof -
  obtain cl where cl: "asciiClass ! uchar c = Some cl" using assms(2) by (cases "asciiClass ! uchar c") (auto simp: aascii_def)
  then obtain a1 where a1: "aadd c cl a = Returns a1"
      "(case nextState (a_state a1) cl of To s \<Rightarrow> ago s a1 | Do x \<Rightarrow> aperform E x a1 | xx \<Rightarrow> Returns (a1, False)) = Returns (a', True)"
    using call_True [of "aadd c cl a"] assms(2) cl unfolding aascii_def by fastforce
  have s: "sound E h0 a1" using aadd_Returns [OF a1(1)] assms(1) by (simp add: sound_def)
  show ?thesis
  proof (cases "nextState (a_state a1) cl")
    case (To st')
    then have "to_ok (a_state a1) st'" "a' = a1\<lparr>a_state := st'\<rparr>" using table_ok [of "a_state a1" cl] a1(2) by (simp_all add: ago_True)
    moreover obtain h where h: "well E h0 h (a_modes a1) (a_state a1) (a_type a1)" "a_handler a1 = Some h" using s by (auto simp: sound_def)
    moreover have "a_state a1 \<notin> {C1, C2, C3}" using h(1) by (auto simp: state_kinds)
    ultimately show ?thesis using s well_change [OF h(1)] well_type [OF h(1)] by (auto simp: to_ok_def sound_def)
  next
    case (Do x)
    then show ?thesis using perform_sound [OF s] table_ok [of "a_state a1" cl] a1(2) by simp
  next
    case xx
    then show ?thesis using a1(2) by simp
  qed
qed

lemma loop_sound: "aloop E err a s = Returns a' \<Longrightarrow> sound E h0 a \<Longrightarrow> sound E h0 a'"
proof (induction E err a s rule: aloop.induct)
  case (2 E err a c source)
  obtain a1 source1 where a1: "achar E a c source = Returns (a1, source1, True)" "aloop E err a1 source1 = Returns a'"
    using 2(2) by (auto simp: aloop.simps(2) split: outcome.splits if_splits)
  have "sound E h0 a1"
  proof (cases "uchar c \<ge> 0x80")
    case True
    then show ?thesis using a1(1) 2(3) by (auto simp: achar_def Let_def sound_def split: if_splits)
  next
    case False
    then have "aascii E c a = Returns (a1, True)" using a1(1) by (cases "aascii E c a") (auto simp: achar_def split: if_splits)
    then show ?thesis by (rule ascii_sound [OF 2(3)])
  qed
  then show ?case using 2(1) [OF a1(1)] a1(2) by simp
qed simp

lemma parse_sound:
  assumes "quiet_handler E" "parse_with E err (Parser_new E (Some h) n) s = Returns p"
  shows "\<exists>t h'. container t \<and> feed E (events t) h = Returns h' \<and> p_pHandler p = Some h'"
proof -
  have "map_outcome_state a_handler (arun E err (initial (Some h)) s) = Returns (p_pHandler p)"
    using parse_refines [OF assms(1), of err "Some h" n s] assms(2) by simp
  then obtain a where a: "aloop E err (initial (Some h)) s = Returns a" "accepts a" "a_handler a = p_pHandler p"
    unfolding arun_def by (cases "aloop E err (initial (Some h)) s") (auto split: if_splits)
  have "sound E h (initial (Some h))" by (simp add: sound_def initial_def well_def)
  from loop_sound [OF a(1) this] obtain h' where h': "a_handler a = Some h'" "well E h h' (a_modes a) (a_state a) (a_type a)"
    unfolding sound_def by blast
  have "a_state a = OK" "hd (a_modes a) = MODE_DONE" using a(2) by (auto simp: accepts_def)
  then have "\<exists>t. container t \<and> feed E (events t) h = Returns h'"
    using h'(2) by (auto simp: well_def fits_def dest: awaiting_mode settled_mode)
  then show ?thesis using h'(1) a(3) by auto
qed

section \<open>Properties\<close>

text \<open>C3: Whatever text the parser accepts, the calls it has made of the handler are those of one array or object that has
  been opened, filled and closed, no call more and no call less.\<close>

theorem json_sound:
  assumes "quiet_handler E"
    and "parse_string E (Parser_new E (Some h) n) s = Returns p \<or> parse_stream E (Parser_new E (Some h) n) s = Returns p"
  shows "\<exists>t h'. container t \<and> feed E (events t) h = Returns h' \<and> p_pHandler p = Some h'"
  using assms(2) parse_sound [OF assms(1)] unfolding parse_string_def parse_stream_def by blast

theorem json_sound_witness:
  "\<exists>t. container t \<and> events t = [StartObject, Key ''k'', StartArray, Value (VInt 1 :: unit jvalue), Value (VBool True), EndArray, EndObject]"
proof -
  let ?es = "[StartObject, Key ''k'', StartArray, Value (VInt 1 :: unit jvalue), Value (VBool True), EndArray, EndObject]"
  obtain p where p: "parse_string recorder (Parser_new recorder (Some []) 16) (''{'' @ [CHR 0x22] @ ''k'' @ [CHR 0x22] @ '': [1, true]}'') = Returns p"
    "p_pHandler p = Some ?es"
    using parse_complete [OF recorder_quiet sample_object _ recorder_feed, where n = 16 and h = "[]" and err = "SyntaxException ''JSON syntax error''"]
    unfolding parse_string_def by (fastforce simp: container_def)
  from json_sound [OF recorder_quiet disjI1 [OF p(1)]] p(2) show ?thesis by (auto simp: recorder_feed)
qed

text \<open>A character above the ASCII range is accepted anywhere: between the brackets of an array it is dropped, although no
  JSON text has it there.\<close>

theorem json_stray_characters:
  assumes "quiet_handler E" "scalar ch" "0x80 \<le> ch"
  shows "map_outcome_state p_pHandler (parse_string E (Parser_new E (Some h) n) (''['' @ encoded ch @ '']''))
    = map_outcome_state p_pHandler (parse_string E (Parser_new E (Some h) n) ''[]'')"
proof -
  let ?err = "SyntaxException ''JSON syntax error''"
  have n: "nextState GO C_LSQRB = Do M5" "nextState AR C_RSQRB = Do M7" by code_simp+
  have "aloop E ?err (at GO JSON_T_NONE [] [MODE_DONE] h) (''['' @ encoded ch @ '']'') = aloop E ?err (at GO JSON_T_NONE [] [MODE_DONE] h) ''[]''"
  proof (cases "handle E StartArray h")
    case (Returns h1)
    have close: "aloop E ?err (at AR JSON_T_NONE tx [MODE_ARRAY, MODE_DONE] h1) '']''
        = aloop E ?err (at AR JSON_T_NONE [] [MODE_ARRAY, MODE_DONE] h1) '']''" for tx
      using n(2) by (simp add: aloop_do [of "CHR '']''" C_RSQRB _ M7] token_text_def aunput_one aflush_def)
    show ?thesis by (simp add: open_run(1) [OF _ Returns] utf8_run [OF assms(2,3)] close [of "encoded ch"])
  next
    case (Throws e h1)
    then show ?thesis using n(1) by (simp add: aloop_do [of "CHR ''[''" C_LSQRB _ M5] token_text_def atell_at aunput_one)
  qed
  then show ?thesis unfolding parse_string_def using parse_refines [OF assms(1)] by (simp add: arun_def initial_at)
qed

theorem json_stray_characters_witness:
  "map_outcome_state p_pHandler (parse_string recorder (Parser_new recorder (Some []) 16) (''['' @ encoded 0xE9 @ '']''))
    = Returns (Some [StartArray, EndArray :: unit json_event])"
proof -
  have "map_outcome_state a_handler (arun recorder (SyntaxException ''JSON syntax error'') (initial (Some [])) ''[]'')
      = Returns (Some [StartArray, EndArray :: unit json_event])" by code_simp
  then have "map_outcome_state p_pHandler (parse_string recorder (Parser_new recorder (Some []) 16) ''[]'')
      = Returns (Some [StartArray, EndArray :: unit json_event])"
    unfolding parse_string_def by (rule trans [OF parse_refines [OF recorder_quiet]])
  then show ?thesis by (rule trans [OF json_stray_characters [OF recorder_quiet], rotated 2]) (simp_all add: scalar_def)
qed

end
