(* ===== verification/JSON_Values.thy ===== *)
theory JSON_Values
  imports JSON_Soundness "HOL-Library.List_Lexorder" "HOL-Library.Char_ord"
begin

text \<open>
  \<open>Poco::JSON::Object\<close> and \<open>Array\<close>, the values in them, and \<open>Stringifier\<close>. Containers are shared: a value holds a
  \<open>SharedPtr\<close> to one, so they live in a store, a list of nodes whose positions are the addresses. An object
  is a \<open>std::map\<close>, an association list sorted by the name; with \<open>preserveInsertionOrder\<close> it has a list of pointers
  into that map as well. The conversion of a double to text is a parameter. The
  recursion of \<open>stringify\<close> follows the pointers; its first argument bounds the depth, and a value that does not end
  within it, such as an object that contains itself, is a \<open>StackOverflow\<close>.
\<close>

section \<open>Values and containers\<close>

type_synonym addr = nat

text \<open>A \<open>Dynamic::Var\<close>: a scalar (an empty \<open>Var\<close> is \<open>VNull\<close>) or a pointer to a container.\<close>

datatype 'f jvar = Scalar "'f jvalue" | ArrayPtr addr | ObjectPtr addr

text \<open>\<open>_keys\<close> holds the addresses of elements of \<open>_values\<close>: the name of the element, or \<open>None\<close> when the element
  has been erased and the pointer dangles.\<close>

record 'f object =
  o_values :: "(string \<times> 'f jvar) list"
  o_keys :: "string option list"
  o_preserveInsOrder :: bool

datatype 'f node = ArrayNode "'f jvar list" | ObjectNode "'f object"

type_synonym 'f heap = "'f node list"

text \<open>\<open>_values[key] = value\<close> on a \<open>std::map\<close>.\<close>

fun map_set :: "string \<Rightarrow> 'v \<Rightarrow> (string \<times> 'v) list \<Rightarrow> (string \<times> 'v) list" where
  "map_set k v [] = [(k, v)]"
| "map_set k v ((k', v') # ps) =
     (if k < k' then (k, v) # (k', v') # ps
      else if k = k' then (k, v) # ps
      else (k', v') # map_set k v ps)"

section \<open>Array\<close>

definition array_get :: "'f jvar list \<Rightarrow> nat \<Rightarrow> 'f jvar" where
  "array_get vs index = (if index < length vs then vs ! index else Scalar VNull)"

definition array_getArray :: "'f jvar list \<Rightarrow> nat \<Rightarrow> addr option" where
  "array_getArray vs index = (case array_get vs index of ArrayPtr a \<Rightarrow> Some a | _ \<Rightarrow> None)"

definition array_getObject :: "'f jvar list \<Rightarrow> nat \<Rightarrow> addr option" where
  "array_getObject vs index = (case array_get vs index of ObjectPtr a \<Rightarrow> Some a | _ \<Rightarrow> None)"

definition array_isArray :: "'f jvar list \<Rightarrow> nat \<Rightarrow> bool" where
  "array_isArray vs index = (case array_get vs index of ArrayPtr a \<Rightarrow> True | _ \<Rightarrow> False)"

definition array_isObject :: "'f jvar list \<Rightarrow> nat \<Rightarrow> bool" where
  "array_isObject vs index = (case array_get vs index of ObjectPtr a \<Rightarrow> True | _ \<Rightarrow> False)"

definition array_isNull :: "'f jvar list \<Rightarrow> nat \<Rightarrow> bool" where
  "array_isNull vs index = (if index < length vs then (case vs ! index of Scalar VNull \<Rightarrow> True | _ \<Rightarrow> False) else True)"

definition array_add :: "'f jvar \<Rightarrow> 'f jvar list \<Rightarrow> 'f jvar list" where
  "array_add v vs = vs @ [v]"

text \<open>\<open>_values.erase(_values.begin() + index)\<close>\<close>

definition array_remove :: "nat \<Rightarrow> 'f jvar list \<Rightarrow> 'f jvar list outcome" where
  "array_remove index vs =
     (if index < length vs then Returns (take index vs @ drop (Suc index) vs) else Throws UndefinedBehaviour vs)"

definition array_clear :: "'f jvar list \<Rightarrow> 'f jvar list" where
  "array_clear vs = []"

section \<open>Object\<close>

definition Object_new :: "bool \<Rightarrow> 'f object" where
  "Object_new preserveInsertionOrder = \<lparr>o_values = [], o_keys = [], o_preserveInsOrder = preserveInsertionOrder\<rparr>"

definition object_get :: "'f object \<Rightarrow> string \<Rightarrow> 'f jvar" where
  "object_get ob key = (case map_of (o_values ob) key of Some v \<Rightarrow> v | None \<Rightarrow> Scalar VNull)"

definition object_has :: "'f object \<Rightarrow> string \<Rightarrow> bool" where
  "object_has ob key \<longleftrightarrow> map_of (o_values ob) key \<noteq> None"

definition object_getArray :: "'f object \<Rightarrow> string \<Rightarrow> addr option" where
  "object_getArray ob key = (case map_of (o_values ob) key of Some (ArrayPtr a) \<Rightarrow> Some a | _ \<Rightarrow> None)"

definition object_getObject :: "'f object \<Rightarrow> string \<Rightarrow> addr option" where
  "object_getObject ob key = (case map_of (o_values ob) key of Some (ObjectPtr a) \<Rightarrow> Some a | _ \<Rightarrow> None)"

definition object_isArray :: "'f object \<Rightarrow> string \<Rightarrow> bool" where
  "object_isArray ob key = (case map_of (o_values ob) key of Some (ArrayPtr a) \<Rightarrow> True | _ \<Rightarrow> False)"

definition object_isObject :: "'f object \<Rightarrow> string \<Rightarrow> bool" where
  "object_isObject ob key = (case map_of (o_values ob) key of Some (ObjectPtr a) \<Rightarrow> True | _ \<Rightarrow> False)"

definition object_isNull :: "'f object \<Rightarrow> string \<Rightarrow> bool" where
  "object_isNull ob key = (case map_of (o_values ob) key of None \<Rightarrow> True | Some (Scalar VNull) \<Rightarrow> True | _ \<Rightarrow> False)"

definition object_size :: "'f object \<Rightarrow> nat" where
  "object_size ob = length (o_values ob)"

definition object_getNames :: "'f object \<Rightarrow> string list" where
  "object_getNames ob = map fst (o_values ob)"

text \<open>Erasing an element makes the pointers to it dangle.\<close>

definition object_remove :: "string \<Rightarrow> 'f object \<Rightarrow> 'f object" where
  "object_remove key ob =
     ob\<lparr>o_values := filter (\<lambda>(k, v). k \<noteq> key) (o_values ob),
        o_keys := map (\<lambda>p. if p = Some key then None else p) (o_keys ob)\<rparr>"

definition object_clear :: "'f object \<Rightarrow> 'f object" where
  "object_clear ob = ob\<lparr>o_values := [], o_keys := []\<rparr>"

text \<open>\<open>**it\<close> for a pointer of \<open>_keys\<close>.\<close>

definition key_target :: "'f object \<Rightarrow> string option \<Rightarrow> exn + 'f jvar" where
  "key_target ob p =
     (case p of
        None \<Rightarrow> Inl UndefinedBehaviour
      | Some k \<Rightarrow> (case map_of (o_values ob) k of None \<Rightarrow> Inl UndefinedBehaviour | Some v \<Rightarrow> Inr v))"

text \<open>The search in \<open>set\<close>: \<open>key == **it\<close> compares the name with the value that the pointer leads to, as text. \<open>conv\<close>
  is \<open>Var::convert<std::string>\<close>.\<close>

fun set_loop :: "('f jvar \<Rightarrow> exn + string) \<Rightarrow> string \<Rightarrow> 'f object \<Rightarrow> string option list \<Rightarrow> exn + bool" where
  "set_loop conv key ob [] = Inr False"
| "set_loop conv key ob (p # ps) =
     (case key_target ob p of
        Inl e \<Rightarrow> Inl e
      | Inr (Scalar VNull) \<Rightarrow> set_loop conv key ob ps
      | Inr v \<Rightarrow>
          (case conv v of
             Inl e \<Rightarrow> Inl e
           | Inr s \<Rightarrow> if key = s then Inr True else set_loop conv key ob ps))"

definition object_set :: "('f jvar \<Rightarrow> exn + string) \<Rightarrow> string \<Rightarrow> 'f jvar \<Rightarrow> 'f object \<Rightarrow> 'f object outcome" where
  "object_set conv key v ob =
     (let ob = ob\<lparr>o_values := map_set key v (o_values ob)\<rparr>
      in if o_preserveInsOrder ob then
           (case set_loop conv key ob (o_keys ob) of
              Inl e \<Rightarrow> Throws e ob
            | Inr True \<Rightarrow> Returns ob
            | Inr False \<Rightarrow> Returns (ob\<lparr>o_keys := o_keys ob @ [Some key]\<rparr>))
         else Returns ob)"

text \<open>\<open>getKey\<close> for a pointer: the name of the first element whose value equals the one pointed to, as text.\<close>

fun var_equal :: "('f jvar \<Rightarrow> exn + string) \<Rightarrow> 'f jvar \<Rightarrow> 'f jvar \<Rightarrow> exn + bool" where
  "var_equal conv (Scalar VNull) w = Inr (case w of Scalar VNull \<Rightarrow> True | _ \<Rightarrow> False)"
| "var_equal conv v w =
     (case conv v of
        Inl e \<Rightarrow> Inl e
      | Inr s \<Rightarrow> (case conv w of Inl e \<Rightarrow> Inl e | Inr t \<Rightarrow> Inr (s = t)))"

fun getKey_loop :: "('f jvar \<Rightarrow> exn + string) \<Rightarrow> 'f jvar \<Rightarrow> (string \<times> 'f jvar) list \<Rightarrow> exn + string" where
  "getKey_loop conv w [] = (case conv w of Inl e \<Rightarrow> Inl e | Inr s \<Rightarrow> Inl (NotFoundException s))"
| "getKey_loop conv w ((k, v) # kvs) =
     (case var_equal conv v w of Inl e \<Rightarrow> Inl e | Inr b \<Rightarrow> if b then Inr k else getKey_loop conv w kvs)"

section \<open>Stringifier\<close>

text \<open>An output stream: what has been written, and whether \<open>std::hex\<close> is set. \<open>formatString\<close> sets it (with \<open>std::uppercase\<close> and
  a fill character) and does not set it back.\<close>

record ostream =
  os_text :: string
  os_hex :: bool

definition put_str :: "string \<Rightarrow> ostream \<Rightarrow> ostream" where
  "put_str s os = os\<lparr>os_text := os_text os @ s\<rparr>"

text \<open>\<open>"\\u" << std::hex << std::uppercase << std::setfill('0') << std::setw(4) << n\<close>\<close>

definition put_unicode :: "nat \<Rightarrow> ostream \<Rightarrow> ostream" where
  "put_unicode n os =
     (let ds = rev (rdigits 16 n)
      in put_str (replicate (4 - length ds) (CHR ''0'') @ ds) ((put_str [CHR 0x5C, CHR ''u''] os)\<lparr>os_hex := True\<rparr>))"

definition format_char :: "char \<Rightarrow> ostream \<Rightarrow> ostream" where
  "format_char c os =
     (if c = CHR 0x22 then put_str [CHR 0x5C, CHR 0x22] os
      else if c = CHR 0x5C then put_str [CHR 0x5C, CHR 0x5C] os
      else if c = CHR 0x08 then put_str [CHR 0x5C, CHR ''b''] os
      else if c = CHR 0x0C then put_str [CHR 0x5C, CHR ''f''] os
      else if c = CHR 0x0A then put_str [CHR 0x5C, CHR ''n''] os
      else if c = CHR 0x0D then put_str [CHR 0x5C, CHR ''r''] os
      else if c = CHR 0x09 then put_str [CHR 0x5C, CHR ''t''] os
      else if schar c > 0 \<and> schar c \<le> 0x1F then put_unicode (uchar c) os
      else put_str [c] os)"

definition formatString :: "string \<Rightarrow> ostream \<Rightarrow> ostream" where
  "formatString v os = put_str [CHR 0x22] (fold format_char v (put_str [CHR 0x22] os))"

text \<open>\<open>Var::convert<std::string>\<close> of a scalar; \<open>ff\<close> is \<open>NumberFormatter::format(double)\<close>.\<close>

fun scalar_text :: "('f \<Rightarrow> string) \<Rightarrow> 'f jvalue \<Rightarrow> exn + string" where
  "scalar_text ff VNull = Inl (InvalidAccessException ''Can not convert empty value.'')"
| "scalar_text ff (VBool b) = Inr (if b then ''true'' else ''false'')"
| "scalar_text ff (VInt v) = format_int v"
| "scalar_text ff (VUnsigned v) = format_unsigned (nat v)"
| "scalar_text ff (VInt64 v) = format_int v"
| "scalar_text ff (VUInt64 v) = format_unsigned (nat v)"
| "scalar_text ff (VDouble d) = Inr (ff d)"
| "scalar_text ff (VString s) = Inr s"

text \<open>Sequencing of functions that write to a stream and may throw.\<close>

type_synonym writer = "ostream \<Rightarrow> ostream outcome"

definition emit :: "string \<Rightarrow> writer" where
  "emit s os = Returns (put_str s os)"

definition spaces :: "int \<Rightarrow> string" where
  "spaces n = replicate (nat n) (CHR '' '')"

text \<open>\<open>unsigned\<close> and \<open>int\<close> have 32 bits.\<close>

definition to_unsigned :: "int \<Rightarrow> int" where
  "to_unsigned n = n mod 2 ^ 32"

definition to_int :: "int \<Rightarrow> int" where
  "to_int n = signed_take_bit 31 n"

text \<open>The loop of \<open>Array::stringify\<close>; \<open>S\<close> is \<open>Stringifier::stringify\<close> on a value.\<close>

fun array_items :: "('f jvar \<Rightarrow> int \<Rightarrow> int \<Rightarrow> writer) \<Rightarrow> int \<Rightarrow> int \<Rightarrow> 'f jvar list \<Rightarrow> writer" where
  "array_items S indent step [] os = Returns os"
| "array_items S indent step (v # vs) os =
     and_then (S v (to_unsigned (indent + step)) step (put_str (spaces indent) os))
       (\<lambda>os. array_items S indent step vs
          (if vs \<noteq> [] then put_str ('','' @ (if step > 0 then [CHR 0x0A] else [])) os else os))"

definition array_stringify :: "('f jvar \<Rightarrow> int \<Rightarrow> int \<Rightarrow> writer) \<Rightarrow> 'f jvar list \<Rightarrow> int \<Rightarrow> int \<Rightarrow> writer" where
  "array_stringify S vs indent step os =
     (let step = (if step = -1 then to_int indent else step)
      in and_then (array_items S indent step vs (put_str (''['' @ (if indent > 0 then [CHR 0x0A] else [])) os))
           (\<lambda>os. let indent' = (if indent \<ge> to_unsigned step then to_unsigned (indent - step) else indent)
                 in emit ((if step > 0 then [CHR 0x0A] else []) @ spaces indent' @ '']'') os))"

text \<open>The loop of \<open>Object::doStringify\<close> over a container of elements, with \<open>getKey\<close> and \<open>getValue\<close> for one.\<close>

fun object_items :: "('f jvar \<Rightarrow> int \<Rightarrow> int \<Rightarrow> writer) \<Rightarrow> ('i \<Rightarrow> exn + string) \<Rightarrow> ('i \<Rightarrow> exn + 'f jvar) \<Rightarrow> int \<Rightarrow> int \<Rightarrow> 'i list \<Rightarrow> writer" where
  "object_items S getKey getValue indent step [] os = Returns os"
| "object_items S getKey getValue indent step (it # its) os =
     (let os = put_str (spaces indent @ [CHR 0x22]) os
      in case getKey it of
           Inl e \<Rightarrow> Throws e os
         | Inr k \<Rightarrow>
             let os = put_str (k @ [CHR 0x22] @ (if indent > 0 then '' : '' else '':'')) os
             in case getValue it of
                  Inl e \<Rightarrow> Throws e os
                | Inr v \<Rightarrow>
                    and_then (S v (to_unsigned (indent + step)) (to_int step) os)
                      (\<lambda>os. object_items S getKey getValue indent step its
                        (put_str ((if its \<noteq> [] then '','' else []) @ (if step > 0 then [CHR 0x0A] else [])) os)))"

definition doStringify :: "('f jvar \<Rightarrow> int \<Rightarrow> int \<Rightarrow> writer) \<Rightarrow> ('i \<Rightarrow> exn + string) \<Rightarrow> ('i \<Rightarrow> exn + 'f jvar) \<Rightarrow> 'i list \<Rightarrow> int \<Rightarrow> int \<Rightarrow> writer" where
  "doStringify S getKey getValue its indent step os =
     and_then (object_items S getKey getValue indent step its (put_str (''{'' @ (if indent > 0 then [CHR 0x0A] else [])) os))
       (\<lambda>os. emit (spaces (if indent \<ge> step then indent - step else indent) @ ''}'') os)"

definition object_stringify :: "('f jvar \<Rightarrow> int \<Rightarrow> int \<Rightarrow> writer) \<Rightarrow> ('f jvar \<Rightarrow> exn + string) \<Rightarrow> 'f object \<Rightarrow> int \<Rightarrow> int \<Rightarrow> writer" where
  "object_stringify S conv ob indent step =
     (let step = to_unsigned (if step < 0 then to_int indent else step)
      in if \<not> o_preserveInsOrder ob
         then doStringify S (\<lambda>(k, v). Inr k) (\<lambda>(k, v). Inr v) (o_values ob) indent step
         else doStringify S (\<lambda>p. case key_target ob p of Inl e \<Rightarrow> Inl e | Inr w \<Rightarrow> getKey_loop conv w (o_values ob)) (key_target ob)
                (o_keys ob) indent step)"

definition empty_stream :: ostream where
  "empty_stream = \<lparr>os_text = [], os_hex = False\<rparr>"

definition text_of :: "ostream outcome \<Rightarrow> exn + string" where
  "text_of m = (case m of Returns os \<Rightarrow> Inr (os_text os) | Throws e os \<Rightarrow> Inl e)"

text \<open>\<open>Stringifier::stringify\<close> and \<open>Var::convert<std::string>\<close>, which writes a container with indentation 2 to a stream of its own.\<close>

fun stringify :: "nat \<Rightarrow> ('f \<Rightarrow> string) \<Rightarrow> 'f heap \<Rightarrow> 'f jvar \<Rightarrow> int \<Rightarrow> int \<Rightarrow> writer"
  and convert_string :: "nat \<Rightarrow> ('f \<Rightarrow> string) \<Rightarrow> 'f heap \<Rightarrow> 'f jvar \<Rightarrow> exn + string" where
  "stringify 0 ff H v indent step os = Throws StackOverflow os"
| "stringify (Suc n) ff H v indent step os =
     (let step = (if step = -1 then to_int indent else step)
      in case v of
           ObjectPtr a \<Rightarrow>
             (if a < length H then
                (case H ! a of
                   ObjectNode ob \<Rightarrow> object_stringify (\<lambda>v i s os. stringify n ff H v i s os) (\<lambda>v. convert_string n ff H v) ob indent step os
                 | ArrayNode vs \<Rightarrow> Throws UndefinedBehaviour os)
              else Throws UndefinedBehaviour os)
         | ArrayPtr a \<Rightarrow>
             (if a < length H then
                (case H ! a of
                   ArrayNode vs \<Rightarrow> array_stringify (\<lambda>v i s os. stringify n ff H v i s os) vs indent step os
                 | ObjectNode ob \<Rightarrow> Throws UndefinedBehaviour os)
              else Throws UndefinedBehaviour os)
         | Scalar VNull \<Rightarrow> emit ''null'' os
         | Scalar (VString s) \<Rightarrow> Returns (formatString s os)
         | Scalar x \<Rightarrow> (case scalar_text ff x of Inl e \<Rightarrow> Throws e os | Inr s \<Rightarrow> emit s os))"
| "convert_string 0 ff H v = Inl StackOverflow"
| "convert_string (Suc n) ff H v =
     (case v of
        ObjectPtr a \<Rightarrow>
          (if a < length H then
             (case H ! a of
                ObjectNode ob \<Rightarrow> text_of (object_stringify (\<lambda>v i s os. stringify n ff H v i s os) (\<lambda>v. convert_string n ff H v) ob 2 (-1) empty_stream)
              | ArrayNode vs \<Rightarrow> Inl UndefinedBehaviour)
           else Inl UndefinedBehaviour)
      | ArrayPtr a \<Rightarrow>
          (if a < length H then
             (case H ! a of
                ArrayNode vs \<Rightarrow> text_of (array_stringify (\<lambda>v i s os. stringify n ff H v i s os) vs 2 (-1) empty_stream)
              | ObjectNode ob \<Rightarrow> Inl UndefinedBehaviour)
           else Inl UndefinedBehaviour)
      | Scalar x \<Rightarrow> scalar_text ff x)"

end
