(* ===== verification/JSON_ParseHandler.thy ===== *)
theory JSON_ParseHandler
  imports JSON_Values
begin

text \<open>
  \<open>Poco::JSON::ParseHandler\<close>, the handler that builds objects and arrays from what the parser tells it. It keeps a stack
  of pointers to the containers that are open and changes the innermost one through its pointer. The abstraction relates a
  value and the store with the tree it stands for; the store is split by regions of addresses, so that a
  part that is finished stays what it is while the rest grows. The assertions of a debug build
  (\<open>poco_assert_dbg\<close>) are left out.
\<close>

section \<open>The handler\<close>

record 'f phandler =
  ph_heap :: "'f heap"
  ph_stack :: "'f jvar list"
  ph_key :: string
  ph_result :: "'f jvar"
  ph_preserveObjectOrder :: bool

definition ParseHandler_new :: "bool \<Rightarrow> 'f phandler" where
  "ParseHandler_new preserveObjectOrder =
     \<lparr>ph_heap = [], ph_stack = [], ph_key = [], ph_result = Scalar VNull, ph_preserveObjectOrder = preserveObjectOrder\<rparr>"

definition ph_reset :: "'f phandler \<Rightarrow> 'f phandler" where
  "ph_reset h = h\<lparr>ph_stack := [], ph_key := [], ph_result := Scalar VNull\<rparr>"

text \<open>What \<open>startObject\<close>, \<open>startArray\<close> and \<open>setValue\<close> do with the container at the top of the stack: \<open>add\<close> or \<open>set\<close>. \<open>conv\<close> is the
  conversion of a value to text, which \<open>set\<close> uses when it preserves the order.\<close>

definition add_to_parent :: "('f heap \<Rightarrow> 'f jvar \<Rightarrow> exn + string) \<Rightarrow> 'f jvar \<Rightarrow> 'f jvar \<Rightarrow> 'f phandler \<Rightarrow> 'f phandler outcome" where
  "add_to_parent conv parent v h =
     (case parent of
        ArrayPtr a \<Rightarrow>
          (case ph_heap h ! a of
             ArrayNode vs \<Rightarrow> Returns (h\<lparr>ph_heap := (ph_heap h)[a := ArrayNode (array_add v vs)]\<rparr>)
           | ObjectNode ob \<Rightarrow> Throws UndefinedBehaviour h)
      | ObjectPtr a \<Rightarrow>
          (case ph_heap h ! a of
             ObjectNode ob \<Rightarrow>
               and_then
                 (map_outcome_state (\<lambda>ob. h\<lparr>ph_heap := (ph_heap h)[a := ObjectNode ob]\<rparr>)
                    (object_set (conv (ph_heap h)) (ph_key h) v ob))
                 (\<lambda>h. Returns (h\<lparr>ph_key := []\<rparr>))
           | ArrayNode vs \<Rightarrow> Throws UndefinedBehaviour h)
      | Scalar x \<Rightarrow> Returns h)"

definition start_container :: "('f heap \<Rightarrow> 'f jvar \<Rightarrow> exn + string) \<Rightarrow> 'f node \<Rightarrow> 'f jvar \<Rightarrow> 'f phandler \<Rightarrow> 'f phandler outcome" where
  "start_container conv nd v h =
     (let h = h\<lparr>ph_heap := ph_heap h @ [nd]\<rparr>
      in and_then
           (case ph_stack h of [] \<Rightarrow> Returns (h\<lparr>ph_result := v\<rparr>) | parent # st \<Rightarrow> add_to_parent conv parent v h)
           (\<lambda>h. Returns (h\<lparr>ph_stack := v # ph_stack h\<rparr>)))"

definition startObject :: "('f heap \<Rightarrow> 'f jvar \<Rightarrow> exn + string) \<Rightarrow> 'f phandler \<Rightarrow> 'f phandler outcome" where
  "startObject conv h =
     start_container conv (ObjectNode (Object_new (ph_preserveObjectOrder h))) (ObjectPtr (length (ph_heap h))) h"

definition startArray :: "('f heap \<Rightarrow> 'f jvar \<Rightarrow> exn + string) \<Rightarrow> 'f phandler \<Rightarrow> 'f phandler outcome" where
  "startArray conv h = start_container conv (ArrayNode []) (ArrayPtr (length (ph_heap h))) h"

text \<open>\<open>_stack.pop()\<close> and \<open>_stack.top()\<close> of an empty stack are undefined.\<close>

definition pop_stack :: "'f phandler \<Rightarrow> 'f phandler outcome" where
  "pop_stack h = (if ph_stack h = [] then Throws UndefinedBehaviour h else Returns (h\<lparr>ph_stack := tl (ph_stack h)\<rparr>))"

definition set_key :: "string \<Rightarrow> 'f phandler \<Rightarrow> 'f phandler" where
  "set_key k h = h\<lparr>ph_key := k\<rparr>"

definition setValue :: "('f heap \<Rightarrow> 'f jvar \<Rightarrow> exn + string) \<Rightarrow> 'f jvar \<Rightarrow> 'f phandler \<Rightarrow> 'f phandler outcome" where
  "setValue conv v h =
     (case ph_stack h of [] \<Rightarrow> Throws UndefinedBehaviour h | parent # st \<Rightarrow> add_to_parent conv parent v h)"

fun ph_handle :: "('f heap \<Rightarrow> 'f jvar \<Rightarrow> exn + string) \<Rightarrow> 'f json_event \<Rightarrow> 'f phandler \<Rightarrow> 'f phandler outcome" where
  "ph_handle conv StartObject h = startObject conv h"
| "ph_handle conv EndObject h = pop_stack h"
| "ph_handle conv StartArray h = startArray conv h"
| "ph_handle conv EndArray h = pop_stack h"
| "ph_handle conv (Key k) h = Returns (set_key k h)"
| "ph_handle conv (Value v) h = setValue conv (Scalar v) h"

text \<open>The parser with this handler, for every conversion of floating point text and every depth of the stack.\<close>

definition parse_env :: "(nat \<Rightarrow> char) \<Rightarrow> (string \<Rightarrow> exn + 'f) \<Rightarrow> nat \<Rightarrow> ('f \<Rightarrow> string) \<Rightarrow> ('f, 'f phandler) env" where
  "parse_env fresh pf depth ff =
     \<lparr>junk = fresh, parseFloat = pf, handle = ph_handle (convert_string depth ff), reset_handler = ph_reset\<rparr>"

text \<open>\<open>Parser::asVar\<close>\<close>

definition asVar :: "'f phandler parser \<Rightarrow> 'f jvar" where
  "asVar p = (case p_pHandler p of Some h \<Rightarrow> ph_result h | None \<Rightarrow> Scalar VNull)"

section \<open>Trees in the store\<close>

text \<open>A value stands for a tree, with all its containers at addresses from \<open>lo\<close> to \<open>hi\<close>. An object lists its members in the order of the
  map.\<close>

inductive tree_in :: "nat \<Rightarrow> nat \<Rightarrow> 'f heap \<Rightarrow> 'f jvar \<Rightarrow> 'f jtree \<Rightarrow> bool" for lo hi H where
  t_leaf: "tree_in lo hi H (Scalar v) (Leaf v)"
| t_arr: "lo \<le> a \<Longrightarrow> a < hi \<Longrightarrow> H ! a = ArrayNode vs \<Longrightarrow> list_all2 (tree_in lo hi H) vs ts \<Longrightarrow> tree_in lo hi H (ArrayPtr a) (Arr ts)"
| t_obj: "lo \<le> a \<Longrightarrow> a < hi \<Longrightarrow> H ! a = ObjectNode ob \<Longrightarrow> \<not> o_preserveInsOrder ob
    \<Longrightarrow> list_all2 (rel_prod (=) (tree_in lo hi H)) (o_values ob) ms \<Longrightarrow> tree_in lo hi H (ObjectPtr a) (Obj ms)"

inductive_cases tree_in_ScalarE: "tree_in lo hi H (Scalar v) t"
inductive_cases tree_in_ArrayE: "tree_in lo hi H (ArrayPtr a) t"
inductive_cases tree_in_ObjectE: "tree_in lo hi H (ObjectPtr a) t"

text \<open>What the members of an object come to: the last one of a name counts, and they are sorted.\<close>

fun canon :: "'f jtree \<Rightarrow> 'f jtree" where
  "canon (Leaf v) = Leaf v"
| "canon (Arr ts) = Arr (map canon ts)"
| "canon (Obj ms) = Obj (fold (\<lambda>(k, t). map_set k t) (map (\<lambda>(k, t). (k, canon t)) ms) [])"

text \<open>Regions: a tree stays when the store agrees on its region, and in every larger region.\<close>

lemma tree_in_frame:
  assumes "tree_in lo hi H v t" "\<And>a. lo \<le> a \<Longrightarrow> a < hi \<Longrightarrow> H' ! a = H ! a" "lo' \<le> lo" "hi \<le> hi'"
  shows "tree_in lo' hi' H' v t"
  using assms(1)
proof (induction rule: tree_in.induct)
  case (t_arr a vs ts)
  have "list_all2 (tree_in lo' hi' H') vs ts" by (rule list.rel_mono_strong [OF t_arr(4)]) blast
  then show ?case using t_arr(1-3) assms(2-4) by (intro tree_in.t_arr) auto
next
  case (t_obj a ob ms)
  have "list_all2 (rel_prod (=) (tree_in lo' hi' H')) (o_values ob) ms"
    by (rule list.rel_mono_strong [OF t_obj(5)]) (auto simp: rel_prod_sel)
  then show ?case using t_obj(1-4) assms(2-4) by (intro tree_in.t_obj) auto
qed (rule tree_in.t_leaf)

lemma map_set_rel:
  "list_all2 (rel_prod (=) R) ps qs \<Longrightarrow> R v t \<Longrightarrow> list_all2 (rel_prod (=) R) (map_set k v ps) (map_set k t qs)"
proof (induction ps qs rule: list_all2_induct)
  case (Cons p ps q qs)
  then show ?case by (cases p; cases q) auto
qed simp

section \<open>Building a tree\<close>

fun addr_of :: "'f jvar \<Rightarrow> addr" where
  "addr_of (ArrayPtr a) = a"
| "addr_of (ObjectPtr a) = a"
| "addr_of (Scalar x) = 0"

fun node_for :: "'f jvar \<Rightarrow> 'f node \<Rightarrow> bool" where
  "node_for (ArrayPtr a) (ArrayNode vs) \<longleftrightarrow> True"
| "node_for (ObjectPtr a) (ObjectNode ob) \<longleftrightarrow> \<not> o_preserveInsOrder ob"
| "node_for _ _ \<longleftrightarrow> False"

fun grown :: "string \<Rightarrow> 'f jvar \<Rightarrow> 'f node \<Rightarrow> 'f node" where
  "grown k v (ArrayNode vs) = ArrayNode (vs @ [v])"
| "grown k v (ObjectNode ob) = ObjectNode (ob\<lparr>o_values := map_set k v (o_values ob)\<rparr>)"

text \<open>The innermost open container is \<open>p\<close>; a name waits only in an object.\<close>

definition at_parent :: "'f jvar \<Rightarrow> 'f jvar list \<Rightarrow> 'f phandler \<Rightarrow> bool" where
  "at_parent p st h \<longleftrightarrow> ph_stack h = p # st \<and> addr_of p < length (ph_heap h) \<and> node_for p (ph_heap h ! addr_of p)
     \<and> (\<forall>a. p = ArrayPtr a \<longrightarrow> ph_key h = []) \<and> \<not> ph_preserveObjectOrder h"

lemma add_to_parent_grown:
  assumes "at_parent p st h"
  shows "add_to_parent conv p v h
    = Returns (h\<lparr>ph_heap := (ph_heap h)[addr_of p := grown (ph_key h) v (ph_heap h ! addr_of p)], ph_key := []\<rparr>)"
proof (cases p)
  case (ArrayPtr a)
  then obtain vs where "ph_heap h ! a = ArrayNode vs" using assms by (cases "ph_heap h ! a") (auto simp: at_parent_def)
  then show ?thesis using ArrayPtr assms by (simp add: add_to_parent_def at_parent_def array_add_def)
next
  case (ObjectPtr a)
  then obtain ob where "ph_heap h ! a = ObjectNode ob" "\<not> o_preserveInsOrder ob" using assms by (cases "ph_heap h ! a") (auto simp: at_parent_def)
  then show ?thesis using ObjectPtr by (simp add: add_to_parent_def object_set_def Let_def)
next
  case (Scalar x)
  then show ?thesis using assms by (simp add: at_parent_def)
qed

text \<open>A value has been built: the parent has it, nothing else of the old store has changed, and the new part holds its tree.\<close>

definition built :: "'f jvar \<Rightarrow> 'f jtree \<Rightarrow> 'f phandler \<Rightarrow> 'f phandler \<Rightarrow> bool" where
  "built p t h h' \<longleftrightarrow> (\<exists>v H'. h' = h\<lparr>ph_heap := H', ph_key := []\<rparr> \<and> length (ph_heap h) \<le> length H'
     \<and> (\<forall>i < length (ph_heap h). i \<noteq> addr_of p \<longrightarrow> H' ! i = ph_heap h ! i)
     \<and> H' ! addr_of p = grown (ph_key h) v (ph_heap h ! addr_of p)
     \<and> tree_in (length (ph_heap h)) (length H') H' v t)"

definition buildable :: "('f, 'f phandler) env \<Rightarrow> 'f jtree \<Rightarrow> bool" where
  "buildable E t \<longleftrightarrow> (\<forall>p st h. at_parent p st h \<longrightarrow> (\<exists>h'. feed E (events t) h = Returns h' \<and> built p (canon t) h h'))"

lemma elements_built:
  assumes "\<forall>t \<in> set ts. buildable E t"
  shows "at_parent (ArrayPtr a) st h \<Longrightarrow> ph_heap h ! a = ArrayNode vs0 \<Longrightarrow>
    \<exists>vs H'. feed E (concat (map events ts)) h = Returns (h\<lparr>ph_heap := H'\<rparr>) \<and> length (ph_heap h) \<le> length H'
      \<and> (\<forall>i < length (ph_heap h). i \<noteq> a \<longrightarrow> H' ! i = ph_heap h ! i)
      \<and> H' ! a = ArrayNode (vs0 @ vs) \<and> list_all2 (tree_in (length (ph_heap h)) (length H') H') vs (map canon ts)"
  using assms
proof (induction ts arbitrary: h vs0)
  case Nil
  have "h = h\<lparr>ph_heap := ph_heap h\<rparr>" by simp
  then show ?case using Nil(2) by (intro exI [of _ "[]"] exI [of _ "ph_heap h"]) simp
next
  case (Cons t ts)
  obtain h1 where h1: "feed E (events t) h = Returns h1" "built (ArrayPtr a) (canon t) h h1" using Cons.prems(1) Cons.prems(3) unfolding buildable_def by (metis list.set_intros(1))
  obtain v H1 where H1: "h1 = h\<lparr>ph_heap := H1, ph_key := []\<rparr>" "length (ph_heap h) \<le> length H1"
      "\<forall>i < length (ph_heap h). i \<noteq> a \<longrightarrow> H1 ! i = ph_heap h ! i" "H1 ! a = ArrayNode (vs0 @ [v])"
      "tree_in (length (ph_heap h)) (length H1) H1 v (canon t)"
    using h1(2) Cons.prems(2) by (auto simp: built_def)
  have a: "a < length (ph_heap h)" "ph_key h = []" using Cons.prems(1) by (auto simp: at_parent_def)
  have "at_parent (ArrayPtr a) st h1" "ph_heap h1 ! a = ArrayNode (vs0 @ [v])" using Cons.prems(1) H1 by (auto simp: at_parent_def)
  from Cons.IH [OF this] Cons.prems(3) obtain vs H2 where H2: "feed E (concat (map events ts)) h1 = Returns (h1\<lparr>ph_heap := H2\<rparr>)"
      "length H1 \<le> length H2" "\<forall>i < length H1. i \<noteq> a \<longrightarrow> H2 ! i = H1 ! i" "H2 ! a = ArrayNode (vs0 @ v # vs)"
      "list_all2 (tree_in (length H1) (length H2) H2) vs (map canon ts)"
    using H1(1) by auto
  have "feed E (concat (map events (t # ts))) h = Returns (h\<lparr>ph_heap := H2\<rparr>)"
    using h1(1) H2(1) H1(1) a(2) by (simp add: feed_append)
  moreover have "tree_in (length (ph_heap h)) (length H2) H2 v (canon t)"
    by (rule tree_in_frame [OF H1(5)]) (use H2(2,3) a(1) in auto)
  moreover have "list_all2 (tree_in (length (ph_heap h)) (length H2) H2) vs (map canon ts)"
    by (rule list.rel_mono_strong [OF H2(5)]) (use H1(2) tree_in_frame in blast)
  ultimately show ?case using H1(2,3) H2(2-4) a(1) by (intro exI [of _ "v # vs"] exI [of _ H2]) auto
qed

lemma members_built:
  assumes "\<forall>(k, t) \<in> set ms. buildable E t"
    and "\<And>k h. handle E (Key k) h = Returns (set_key k h)"
  shows "at_parent (ObjectPtr a) st h \<Longrightarrow> ph_heap h ! a = ObjectNode ob \<Longrightarrow> ph_key h = [] \<Longrightarrow> a < lo \<Longrightarrow> lo \<le> length (ph_heap h)
    \<Longrightarrow> list_all2 (rel_prod (=) (tree_in lo (length (ph_heap h)) (ph_heap h))) (o_values ob) qs \<Longrightarrow>
    \<exists>vals H'. feed E (concat (map (\<lambda>(k, t). Key k # events t) ms)) h = Returns (h\<lparr>ph_heap := H'\<rparr>) \<and> length (ph_heap h) \<le> length H'
      \<and> (\<forall>i < length (ph_heap h). i \<noteq> a \<longrightarrow> H' ! i = ph_heap h ! i)
      \<and> H' ! a = ObjectNode (ob\<lparr>o_values := vals\<rparr>)
      \<and> list_all2 (rel_prod (=) (tree_in lo (length H') H')) vals
          (fold (\<lambda>(k, t). map_set k t) (map (\<lambda>(k, t). (k, canon t)) ms) qs)"
  using assms(1)
proof (induction ms arbitrary: h ob qs)
  case Nil
  have "h = h\<lparr>ph_heap := ph_heap h\<rparr>" by simp
  then show ?case using Nil by (intro exI [of _ "o_values ob"] exI [of _ "ph_heap h"]) simp
next
  case (Cons kt ms)
  obtain k t where kt: "kt = (k, t)" by (cases kt)
  have at: "at_parent (ObjectPtr a) st (set_key k h)" using Cons.prems(1) by (auto simp: at_parent_def set_key_def)
  have "buildable E t" using Cons.prems(7) kt by simp
  then obtain h1 where h1: "feed E (events t) (set_key k h) = Returns h1" "built (ObjectPtr a) (canon t) (set_key k h) h1"
    using at unfolding buildable_def by blast
  have key: "h\<lparr>ph_heap := H', ph_key := []\<rparr> = h\<lparr>ph_heap := H'\<rparr>" for H' using Cons.prems(3) by (intro phandler.equality) simp_all
  obtain v H1 where H1: "h1 = h\<lparr>ph_heap := H1\<rparr>" "length (ph_heap h) \<le> length H1"
      "\<forall>i < length (ph_heap h). i \<noteq> a \<longrightarrow> H1 ! i = ph_heap h ! i" "H1 ! a = ObjectNode (ob\<lparr>o_values := map_set k v (o_values ob)\<rparr>)"
      "tree_in (length (ph_heap h)) (length H1) H1 v (canon t)"
    using h1(2) Cons.prems(2,3) by (auto simp: built_def set_key_def key)
  let ?ob = "ob\<lparr>o_values := map_set k v (o_values ob)\<rparr>"
  have "list_all2 (rel_prod (=) (tree_in lo (length H1) H1)) (o_values ob) qs"
    by (rule list.rel_mono_strong [OF Cons.prems(6)])
      (use H1(2,3) Cons.prems(4) in \<open>auto simp: rel_prod_sel intro: tree_in_frame\<close>)
  then have rel: "list_all2 (rel_prod (=) (tree_in lo (length H1) H1)) (o_values ?ob) (map_set k (canon t) qs)"
    using tree_in_frame [OF H1(5) refl] Cons.prems(5) by (auto intro!: map_set_rel)
  have h1': "at_parent (ObjectPtr a) st h1" "ph_heap h1 ! a = ObjectNode ?ob" "ph_key h1 = []" "lo \<le> length (ph_heap h1)"
      "list_all2 (rel_prod (=) (tree_in lo (length (ph_heap h1)) (ph_heap h1))) (o_values ?ob) (map_set k (canon t) qs)"
    using Cons.prems(1-5) H1 rel by (auto simp: at_parent_def)
  have sub: "\<forall>(k, t) \<in> set ms. buildable E t" using Cons.prems(7) by simp
  obtain vals H2 where H2: "feed E (concat (map (\<lambda>(k, t). Key k # events t) ms)) h1 = Returns (h1\<lparr>ph_heap := H2\<rparr>)"
      "length H1 \<le> length H2" "\<forall>i < length H1. i \<noteq> a \<longrightarrow> H2 ! i = H1 ! i" "H2 ! a = ObjectNode (?ob\<lparr>o_values := vals\<rparr>)"
      "list_all2 (rel_prod (=) (tree_in lo (length H2) H2)) vals
          (fold (\<lambda>(k, t). map_set k t) (map (\<lambda>(k, t). (k, canon t)) ms) (map_set k (canon t) qs))"
    using Cons.IH [OF h1'(1-3) Cons.prems(4) h1'(4,5) sub] unfolding H1(1) by auto
  have "feed E (concat (map (\<lambda>(k, t). Key k # events t) (kt # ms))) h = Returns (h\<lparr>ph_heap := H2\<rparr>)"
    using h1(1) H2(1) H1(1) kt assms(2) by (simp add: feed_append)
  then show ?case using H1(2,3) H2(2-5) kt by (intro exI [of _ vals] exI [of _ H2]) auto
qed


lemma start_container_at:
  assumes "at_parent p st h"
  shows "start_container conv nd v h = Returns (h\<lparr>ph_heap := (ph_heap h @ [nd])[addr_of p := grown (ph_key h) v (ph_heap h ! addr_of p)],
    ph_key := [], ph_stack := v # p # st\<rparr>)"
proof -
  have "at_parent p st (h\<lparr>ph_heap := ph_heap h @ [nd]\<rparr>)" using assms by (auto simp: at_parent_def nth_append)
  moreover have "ph_stack h = p # st" "addr_of p < length (ph_heap h)" using assms by (simp_all add: at_parent_def)
  ultimately show ?thesis by (simp add: start_container_def Let_def add_to_parent_grown nth_append)
qed

text \<open>A container that has just been opened is filled and closed.\<close>

lemma array_filled:
  assumes "handle E = ph_handle conv" "\<forall>t \<in> set ts. buildable E t" "ph_stack h = ArrayPtr n # st" "length (ph_heap h) = Suc n"
    "ph_heap h ! n = ArrayNode []" "ph_key h = []" "\<not> ph_preserveObjectOrder h"
  shows "\<exists>H. feed E (concat (map events ts) @ [EndArray]) h = Returns (h\<lparr>ph_heap := H, ph_stack := st\<rparr>) \<and> n < length H
    \<and> (\<forall>i < n. H ! i = ph_heap h ! i) \<and> tree_in n (length H) H (ArrayPtr n) (canon (Arr ts))"
proof -
  have "at_parent (ArrayPtr n) st h" using assms by (simp add: at_parent_def)
  from elements_built [OF assms(2) this assms(5)] obtain vs H where H: "feed E (concat (map events ts)) h = Returns (h\<lparr>ph_heap := H\<rparr>)"
      "n < length H" "\<forall>i < n. H ! i = ph_heap h ! i" "H ! n = ArrayNode vs" "list_all2 (tree_in (Suc n) (length H) H) vs (map canon ts)"
    using assms(4) by auto
  have "list_all2 (tree_in n (length H) H) vs (map canon ts)" by (rule list.rel_mono_strong [OF H(5)]) (rule tree_in_frame, auto)
  then have "tree_in n (length H) H (ArrayPtr n) (canon (Arr ts))" using H(2,4) by (auto intro: tree_in.t_arr)
  moreover have "feed E (concat (map events ts) @ [EndArray]) h = Returns (h\<lparr>ph_heap := H, ph_stack := st\<rparr>)"
    using H(1) assms(1,3) by (simp add: feed_append pop_stack_def)
  ultimately show ?thesis using H(2,3) by blast
qed

lemma object_filled:
  assumes "handle E = ph_handle conv" "\<forall>(k, t) \<in> set ms. buildable E t" "ph_stack h = ObjectPtr n # st" "length (ph_heap h) = Suc n"
    "ph_heap h ! n = ObjectNode (Object_new False)" "ph_key h = []" "\<not> ph_preserveObjectOrder h"
  shows "\<exists>H. feed E (concat (map (\<lambda>(k, t). Key k # events t) ms) @ [EndObject]) h = Returns (h\<lparr>ph_heap := H, ph_stack := st\<rparr>) \<and> n < length H
    \<and> (\<forall>i < n. H ! i = ph_heap h ! i) \<and> tree_in n (length H) H (ObjectPtr n) (canon (Obj ms))"
proof -
  let ?ms = "fold (\<lambda>(k, t). map_set k t) (map (\<lambda>(k, t). (k, canon t)) ms) []"
  have key: "\<And>k h. handle E (Key k) h = Returns (set_key k h)" by (simp add: assms(1))
  have "at_parent (ObjectPtr n) st h" "n < Suc n" "Suc n \<le> length (ph_heap h)"
      "list_all2 (rel_prod (=) (tree_in (Suc n) (length (ph_heap h)) (ph_heap h))) (o_values (Object_new False)) []"
    using assms by (simp_all add: at_parent_def Object_new_def)
  from members_built [OF assms(2) key this(1) assms(5,6) this(2-4)]
  obtain vals H where H: "feed E (concat (map (\<lambda>(k, t). Key k # events t) ms)) h = Returns (h\<lparr>ph_heap := H\<rparr>)"
      "n < length H" "\<forall>i < n. H ! i = ph_heap h ! i" "H ! n = ObjectNode ((Object_new False)\<lparr>o_values := vals\<rparr>)"
      "list_all2 (rel_prod (=) (tree_in (Suc n) (length H) H)) vals ?ms"
    using assms(4) by auto
  have "list_all2 (rel_prod (=) (tree_in n (length H) H)) vals ?ms"
    by (rule list.rel_mono_strong [OF H(5)]) (auto simp: rel_prod_sel intro: tree_in_frame)
  then have "tree_in n (length H) H (ObjectPtr n) (canon (Obj ms))" using H(2,4) by (auto intro!: tree_in.t_obj simp: Object_new_def)
  moreover have "feed E (concat (map (\<lambda>(k, t). Key k # events t) ms) @ [EndObject]) h = Returns (h\<lparr>ph_heap := H, ph_stack := st\<rparr>)"
    using H(1) assms(1,3) by (simp add: feed_append pop_stack_def)
  ultimately show ?thesis using H(2,3) by blast
qed

lemma container_built:
  assumes "at_parent p st h" "handle E e h = start_container conv nd v h" "v = ArrayPtr (length (ph_heap h)) \<or> v = ObjectPtr (length (ph_heap h))"
    and fill: "\<And>h1. ph_stack h1 = v # p # st \<Longrightarrow> length (ph_heap h1) = Suc (length (ph_heap h)) \<Longrightarrow> ph_heap h1 ! length (ph_heap h) = nd
      \<Longrightarrow> ph_key h1 = [] \<Longrightarrow> \<not> ph_preserveObjectOrder h1 \<Longrightarrow>
      \<exists>H. feed E es h1 = Returns (h1\<lparr>ph_heap := H, ph_stack := p # st\<rparr>) \<and> length (ph_heap h) < length H
        \<and> (\<forall>i < length (ph_heap h). H ! i = ph_heap h1 ! i) \<and> tree_in (length (ph_heap h)) (length H) H v t"
  shows "\<exists>h'. feed E (e # es) h = Returns h' \<and> built p t h h'"
proof -
  let ?n = "length (ph_heap h)"
  let ?H1 = "(ph_heap h @ [nd])[addr_of p := grown (ph_key h) v (ph_heap h ! addr_of p)]"
  let ?h1 = "h\<lparr>ph_heap := ?H1, ph_key := [], ph_stack := v # p # st\<rparr>"
  have p: "addr_of p < ?n" "ph_stack h = p # st" "\<not> ph_preserveObjectOrder h" using assms(1) by (simp_all add: at_parent_def)
  have h1: "handle E e h = Returns ?h1" using start_container_at [OF assms(1)] assms(2) by simp
  have "?H1 ! ?n = nd" using p(1) by (simp add: nth_append)
  with fill [of ?h1] p(3) obtain H where H: "feed E es ?h1 = Returns (?h1\<lparr>ph_heap := H, ph_stack := p # st\<rparr>)" "?n < length H"
      "\<forall>i < ?n. H ! i = ?H1 ! i" "tree_in ?n (length H) H v t" by auto
  have "feed E (e # es) h = Returns (h\<lparr>ph_heap := H, ph_key := []\<rparr>)" using h1 H(1) p(2) by simp
  then show ?thesis using H(2-4) p(1) unfolding built_def
    by (intro exI [of _ "h\<lparr>ph_heap := H, ph_key := []\<rparr>"] conjI exI [of _ v] exI [of _ H]) (auto simp: nth_append)
qed

lemma tree_built:
  assumes "handle E = ph_handle conv"
  shows "buildable E t"
proof (induction t rule: events.induct)
  case (1 v)
  show ?case unfolding buildable_def
  proof (intro allI impI)
    fix p st and h :: "'a phandler"
    assume at: "at_parent p st h"
    then have "ph_stack h = p # st" "addr_of p < length (ph_heap h)" by (simp_all add: at_parent_def)
    then show "\<exists>h'. feed E (events (Leaf v)) h = Returns h' \<and> built p (canon (Leaf v)) h h'"
      using add_to_parent_grown [OF at, of conv "Scalar v"]
      by (auto simp: assms setValue_def built_def intro!: exI [of _ "Scalar v"] tree_in.t_leaf)
  qed
next
  case (2 ts)
  show ?case unfolding buildable_def
  proof (intro allI impI)
    fix p st and h :: "'a phandler"
    assume at: "at_parent p st h"
    show "\<exists>h'. feed E (events (Arr ts)) h = Returns h' \<and> built p (canon (Arr ts)) h h'"
      unfolding events.simps
      by (rule container_built [OF at, where conv = conv and nd = "ArrayNode []" and v = "ArrayPtr (length (ph_heap h))"])
        (use array_filled [OF assms, of ts] 2 in \<open>auto simp: assms startArray_def\<close>)
  qed
next
  case (3 ms)
  show ?case unfolding buildable_def
  proof (intro allI impI)
    fix p st and h :: "'a phandler"
    assume at: "at_parent p st h"
    then have pr: "\<not> ph_preserveObjectOrder h" by (simp add: at_parent_def)
    have b: "\<forall>(k, t) \<in> set ms. buildable E t" using 3 by auto
    show "\<exists>h'. feed E (events (Obj ms)) h = Returns h' \<and> built p (canon (Obj ms)) h h'"
      unfolding events.simps
      by (rule container_built [OF at, where conv = conv and nd = "ObjectNode (Object_new False)" and v = "ObjectPtr (length (ph_heap h))"])
        (use object_filled [OF assms b] pr in \<open>auto simp: assms startObject_def\<close>)
  qed
qed

lemma result_built:
  assumes "handle E = ph_handle conv" "container t" "ph_stack h = []" "ph_key h = []" "\<not> ph_preserveObjectOrder h"
  shows "\<exists>h'. feed E (events t) h = Returns h' \<and> ph_stack h' = [] \<and> ph_key h' = [] \<and> \<not> ph_preserveObjectOrder h'
    \<and> (\<exists>lo. tree_in lo (length (ph_heap h')) (ph_heap h') (ph_result h') (canon t))"
proof (cases t)
  case (Leaf v)
  then show ?thesis using assms(2) by (simp add: container_def)
next
  case (Arr ts)
  let ?n = "length (ph_heap h)"
  let ?h1 = "h\<lparr>ph_heap := ph_heap h @ [ArrayNode []], ph_result := ArrayPtr ?n, ph_stack := [ArrayPtr ?n]\<rparr>"
  have h1: "handle E StartArray h = Returns ?h1" using assms(1,3) by (simp add: startArray_def start_container_def)
  have "\<forall>t \<in> set ts. buildable E t" using tree_built [OF assms(1)] by blast
  from array_filled [OF assms(1) this, of ?h1 ?n "[]"] obtain H where H: "feed E (concat (map events ts) @ [EndArray]) ?h1 = Returns (?h1\<lparr>ph_heap := H, ph_stack := []\<rparr>)"
      "tree_in ?n (length H) H (ArrayPtr ?n) (canon (Arr ts))" using assms by auto
  show ?thesis using h1 H assms(3-5) Arr by auto
next
  case (Obj ms)
  let ?n = "length (ph_heap h)"
  let ?h1 = "h\<lparr>ph_heap := ph_heap h @ [ObjectNode (Object_new False)], ph_result := ObjectPtr ?n, ph_stack := [ObjectPtr ?n]\<rparr>"
  have h1: "handle E StartObject h = Returns ?h1" using assms(1,3,5) by (simp add: startObject_def start_container_def)
  have "\<forall>(k, t) \<in> set ms. buildable E t" using tree_built [OF assms(1)] by blast
  from object_filled [OF assms(1) this, of ?h1 ?n "[]"] obtain H where H: "feed E (concat (map (\<lambda>(k, t). Key k # events t) ms) @ [EndObject]) ?h1 = Returns (?h1\<lparr>ph_heap := H, ph_stack := []\<rparr>)"
      "tree_in ?n (length H) H (ObjectPtr ?n) (canon (Obj ms))" using assms by auto
  show ?thesis using h1 H assms(3-5) Obj by auto
qed

section \<open>The handler throws no SyntaxException\<close>

definition quiet_sum :: "exn + 'a \<Rightarrow> bool" where
  "quiet_sum m \<longleftrightarrow> (\<forall>msg. m \<noteq> Inl (SyntaxException msg))"

definition quiet_out :: "'s outcome \<Rightarrow> bool" where
  "quiet_out m \<longleftrightarrow> (\<forall>msg s. m \<noteq> Throws (SyntaxException msg) s)"

lemma quiet_simps [simp]:
  "quiet_sum (Inr x)" "quiet_sum (Inl e) \<longleftrightarrow> (\<forall>msg. e \<noteq> SyntaxException msg)"
  "quiet_out (Returns s)" "quiet_out (Throws e s) \<longleftrightarrow> (\<forall>msg. e \<noteq> SyntaxException msg)"
  by (auto simp: quiet_sum_def quiet_out_def)

lemma quiet_and_then: "quiet_out m \<Longrightarrow> (\<And>s. quiet_out (f s)) \<Longrightarrow> quiet_out (and_then m f)"
  by (cases m) auto

lemma quiet_map: "quiet_out (map_outcome_state f m) \<longleftrightarrow> quiet_out m"
  by (cases m) auto

lemma quiet_scalar_text: "quiet_sum (scalar_text ff x)"
  by (cases x) (auto simp: format_int_def format_unsigned_def intToStrS_def uIntToStrS_def intToStr_cases uIntToStr_eq Let_def)

lemma quiet_key_target: "quiet_sum (key_target ob p)"
  by (auto simp: key_target_def split: option.splits)

lemma quiet_var_equal:
  assumes "\<And>v. quiet_sum (conv v)"
  shows "quiet_sum (var_equal conv v w)"
proof (cases "v = Scalar VNull")
  case False
  then have "var_equal conv v w = (case conv v of Inl e \<Rightarrow> Inl e | Inr s \<Rightarrow> (case conv w of Inl e \<Rightarrow> Inl e | Inr t \<Rightarrow> Inr (s = t)))"
    by (cases "(conv, v, w)" rule: var_equal.cases) auto
  then show ?thesis using assms [of v] assms [of w] by (auto split: sum.splits)
qed simp

lemma quiet_getKey_loop:
  assumes "\<And>v. quiet_sum (conv v)"
  shows "quiet_sum (getKey_loop conv w kvs)"
proof (induction kvs)
  case Nil
  show ?case using assms [of w] by (auto split: sum.splits)
next
  case (Cons kv kvs)
  obtain k v where "kv = (k, v)" by (cases kv)
  then show ?case using Cons quiet_var_equal [of conv v w, OF assms] by (auto split: sum.splits)
qed

lemma quiet_set_loop:
  assumes "\<And>v. quiet_sum (conv v)"
  shows "quiet_sum (set_loop conv key ob ps)"
proof (induction ps)
  case (Cons p ps)
  show ?case
  proof (cases "key_target ob p")
    case (Inl e)
    then show ?thesis using quiet_key_target [of ob p] by simp
  next
    case (Inr v)
    then show ?thesis using Cons assms [of v] by (auto split: jvar.splits jvalue.splits sum.splits)
  qed
qed simp

lemma quiet_array:
  assumes "\<And>v i s os. quiet_out (S v i s os)"
  shows "quiet_out (array_stringify S vs indent step os)"
proof -
  have "quiet_out (array_items S indent step vs os)" for indent step os
    by (induction vs arbitrary: os) (auto intro!: quiet_and_then assms)
  then show ?thesis by (auto simp: array_stringify_def Let_def emit_def intro!: quiet_and_then)
qed

lemma quiet_object:
  assumes "\<And>v i s os. quiet_out (S v i s os)" "\<And>v. quiet_sum (conv v)"
  shows "quiet_out (object_stringify S conv ob indent step os)"
proof -
  have items: "quiet_out (object_items S getKey getValue indent step its os)"
    if "\<And>it. quiet_sum (getKey it)" "\<And>it. quiet_sum (getValue it)"
    for getKey :: "'i \<Rightarrow> exn + string" and getValue indent step its os
  proof (induction its arbitrary: os)
    case (Cons it its)
    then show ?case using that(1) [of it] that(2) [of it] by (auto simp: Let_def intro!: quiet_and_then assms split: sum.splits)
  qed simp
  have "quiet_sum (case key_target ob p of Inl e \<Rightarrow> Inl e | Inr w \<Rightarrow> getKey_loop conv w (o_values ob))" for p
    using quiet_key_target [of ob p] quiet_getKey_loop [OF assms(2)] by (auto split: sum.splits)
  then show ?thesis
    by (auto simp: object_stringify_def doStringify_def Let_def emit_def intro!: quiet_and_then items quiet_key_target)
qed

lemma quiet_text_of: "quiet_out m \<Longrightarrow> quiet_sum (text_of m)"
  by (cases m) (auto simp: text_of_def)

lemma quiet_stringify: "quiet_out (stringify n ff H v i s os)" "quiet_sum (convert_string n ff H w)"
proof (induction n arbitrary: v i s os w)
  case (Suc n)
  note q = Suc
  { case 1
    have "quiet_sum (format_int x)" "quiet_sum (format_unsigned (nat x))" for x
      using quiet_scalar_text [of ff "VInt x"] quiet_scalar_text [of ff "VUnsigned x"] by simp_all
    then have "format_int x \<noteq> Inl (SyntaxException msg)" "format_unsigned (nat x) \<noteq> Inl (SyntaxException msg)" for x msg
      by (auto simp: quiet_sum_def)
    then show ?case
      by (auto simp: Let_def emit_def intro!: quiet_array quiet_object q split: jvar.splits node.splits jvalue.splits sum.splits)
  next
    case 2
    show ?case
      by (auto intro!: quiet_array quiet_object quiet_text_of quiet_scalar_text q split: jvar.splits node.splits) }
qed simp_all

lemma quiet_add_to_parent: "(\<And>H v. quiet_sum (conv H v)) \<Longrightarrow> quiet_out (add_to_parent conv p v h)"
proof -
  assume q: "\<And>H v. quiet_sum (conv H v)"
  have "quiet_out (object_set (conv H) k v ob)" for H k ob
    using quiet_set_loop [of "conv H" k, OF q] unfolding quiet_sum_def
    by (auto simp: object_set_def Let_def split: sum.splits bool.splits)
  then show ?thesis by (auto simp: add_to_parent_def quiet_map intro!: quiet_and_then split: jvar.splits node.splits)
qed

lemma parse_env_quiet: "quiet_handler (parse_env fresh pf depth ff)"
proof -
  have c: "quiet_sum (convert_string depth ff H v)" for H v by (rule quiet_stringify)
  have "quiet_out (ph_handle (convert_string depth ff) e h)" for e h
    by (cases e) (auto simp: startObject_def startArray_def start_container_def pop_stack_def setValue_def Let_def
        intro!: quiet_and_then quiet_add_to_parent c split: list.splits)
  then show ?thesis by (simp add: quiet_handler_def parse_env_def quiet_out_def)
qed

section \<open>Properties\<close>

lemma parse_env_simps [simp]:
  "handle (parse_env fresh pf depth ff) = ph_handle (convert_string depth ff)"
  by (simp add: parse_env_def)

definition sample_env :: "(unit, unit phandler) env" where
  "sample_env = parse_env (\<lambda>_. CHR 0x00) (\<lambda>s. Inl RangeException) 0 (\<lambda>_. [])"

lemma result_of_container:
  assumes "container t"
  shows "\<exists>h lo. feed (parse_env fresh pf depth ff) (events t) (ParseHandler_new False) = Returns h \<and> ph_stack h = []
    \<and> tree_in lo (length (ph_heap h)) (ph_heap h) (ph_result h) (canon t)"
  using result_built [of "parse_env fresh pf depth ff" "convert_string depth ff" t "ParseHandler_new False"] assms
  by (auto simp: ParseHandler_new_def)



text \<open>C18: Whatever text the parser accepts with this handler, the result is a tree of containers: no pointer dangles, no container
  holds itself, and every container that was opened has been closed.\<close>

theorem json_parse_wellformed:
  assumes "E = parse_env fresh pf depth ff" "parse_string E (Parser_new E (Some (ParseHandler_new False)) n) s = Returns p"
  shows "\<exists>t h lo. container t \<and> p_pHandler p = Some h \<and> ph_stack h = [] \<and> tree_in lo (length (ph_heap h)) (ph_heap h) (asVar p) t"
proof -
  obtain t h where t: "container t" "feed E (events t) (ParseHandler_new False) = Returns h" "p_pHandler p = Some h"
    using parse_sound [OF parse_env_quiet [of fresh pf depth ff, folded assms(1)]] assms(2) unfolding parse_string_def by blast
  have "container (canon t)" using t(1) by (cases t) (auto simp: container_def)
  then show ?thesis using result_of_container [OF t(1), of fresh pf depth ff] t(2,3) unfolding assms(1) by (auto simp: asVar_def)
qed

theorem json_parse_wellformed_witness:
  "\<exists>p t h lo. parse_string sample_env (Parser_new sample_env (Some (ParseHandler_new False)) 16) (''{'' @ [CHR 0x22] @ ''k'' @ [CHR 0x22] @ '': [1, true]}'') = Returns p
    \<and> container t \<and> p_pHandler p = Some h \<and> tree_in lo (length (ph_heap h)) (ph_heap h) (asVar p) t"
proof -
  have c: "container (Obj [(''k'', Arr [Leaf (VInt 1), Leaf (VBool True :: unit jvalue)])])" by (simp add: container_def)
  obtain h where h: "feed sample_env (events (Obj [(''k'', Arr [Leaf (VInt 1), Leaf (VBool True)])])) (ParseHandler_new False) = Returns h"
    using result_of_container [OF c] unfolding sample_env_def by blast
  have q: "quiet_handler sample_env" unfolding sample_env_def by (rule parse_env_quiet)
  obtain p where p: "parse_string sample_env (Parser_new sample_env (Some (ParseHandler_new False)) 16) (''{'' @ [CHR 0x22] @ ''k'' @ [CHR 0x22] @ '': [1, true]}'') = Returns p"
    using parse_complete [OF q sample_object c h] unfolding parse_string_def by blast
  from json_parse_wellformed [OF sample_env_def p] show ?thesis using p by blast
qed

text \<open>C36: A closing bracket behind a complete text is not refused: the parser calls the handler before it looks at
  its stack of modes, and the handler pops its own empty stack.\<close>

theorem json_extra_bracket:
  assumes "E = parse_env fresh pf depth ff" "jval E t s" "container t"
  shows "\<exists>p. parse_string E (Parser_new E (Some (ParseHandler_new False)) n) (s @ '']'') = Throws UndefinedBehaviour p"
proof -
  let ?err = "SyntaxException ''JSON syntax error''"
  obtain h where h: "feed E (events t) (ParseHandler_new False) = Returns h" "ph_stack h = []"
    using result_of_container [OF assms(3)] unfolding assms(1) by blast
  have n: "nextState OK C_RSQRB = Do M7" by code_simp
  have "aloop E ?err (at OK JSON_T_NONE [] [MODE_DONE] h) '']'' = Throws UndefinedBehaviour (at OK JSON_T_NONE [] [MODE_DONE] h)"
    using n h(2) by (simp add: aloop_do [of "CHR '']''" C_RSQRB _ M7] token_text_def aunput_one aflush_def atell_at assms(1) pop_stack_def)
  then have "aloop E ?err (initial (Some (ParseHandler_new False))) (s @ '']'') = Throws UndefinedBehaviour (at OK JSON_T_NONE [] [MODE_DONE] h)"
    using container_run [OF assms(2,3) _ h(1), of GO ?err MODE_DONE "[]" "'']''"] by (simp add: initial_at)
  then have "map_outcome_state p_pHandler (parse_with E ?err (Parser_new E (Some (ParseHandler_new False)) n) (s @ '']'')) = Throws UndefinedBehaviour (Some h)"
    using parse_refines [OF parse_env_quiet [of fresh pf depth ff, folded assms(1)]] by (simp add: arun_def)
  then show ?thesis unfolding parse_string_def
    by (cases "parse_with E ?err (Parser_new E (Some (ParseHandler_new False)) n) (s @ '']'')") auto
qed


theorem json_extra_bracket_witness:
  "\<exists>p. parse_string sample_env (Parser_new sample_env (Some (ParseHandler_new False)) 16) ''[]]'' = Throws UndefinedBehaviour p"
proof -
  have "jval sample_env (Arr []) ''[]''" using j_arr_empty [of "[]" "[]" "[]" sample_env] by simp
  from json_extra_bracket [OF sample_env_def this, of 16] show ?thesis by (simp add: container_def)
qed

end
