(* ===== verification/JSON_RoundTrip.thy ===== *)
theory JSON_RoundTrip
  imports JSON_ParseHandler
begin

text \<open>
  Printing a value and parsing the text again: what \<open>Stringifier::stringify\<close>, \<open>Array::stringify\<close> and
  \<open>Object::doStringify\<close> (\<open>JSON/src/Stringifier.cpp\<close>, \<open>Array.cpp\<close>, \<open>include/Poco/JSON/Object.h\<close>) write for a tree
  of containers is a text of the grammar of \<open>JSON_Grammar\<close>, for every indentation, so the parser builds the same tree
  from it. The side conditions are those of the code: the names of an object are written without escapes, a null character
  in a string is written raw, and the widths of the indentation are \<open>int\<close> and \<open>unsigned\<close>.
\<close>

section \<open>Strings\<close>

definition escape_text :: "char \<Rightarrow> string" where
  "escape_text c = os_text (format_char c empty_stream)"

lemma format_char_text: "os_text (format_char c os) = os_text os @ escape_text c"
  by (simp add: format_char_def escape_text_def put_str_def put_unicode_def empty_stream_def Let_def)

lemma fold_format_text: "os_text (fold format_char s os) = os_text os @ concat (map escape_text s)"
  by (induction s arbitrary: os) (simp_all add: format_char_text)

lemma formatString_text: "os_text (formatString s os) = os_text os @ [CHR 0x22] @ concat (map escape_text s) @ [CHR 0x22]"
  by (simp add: formatString_def put_str_def fold_format_text)

text \<open>Text in UTF-8 without a null character, and a name, which has no character that would have to be escaped.\<close>

definition text_ok :: "string \<Rightarrow> bool" where
  "text_ok s \<longleftrightarrow> (\<exists>cs. list_all (\<lambda>ch. scalar ch \<and> 0 < ch) cs \<and> s = concat (map encoded cs))"

definition name_ok :: "string \<Rightarrow> bool" where
  "name_ok s \<longleftrightarrow> (\<exists>cs. list_all (\<lambda>ch. scalar ch \<and> 0x20 \<le> ch \<and> ch \<noteq> 0x22 \<and> ch \<noteq> 0x5C) cs \<and> s = concat (map encoded cs))"

lemma escape_control:
  assumes "0 < uchar c" "uchar c < 0x20" "c \<notin> {CHR 0x08, CHR 0x0C, CHR 0x0A, CHR 0x0D, CHR 0x09}"
  shows "\<exists>d. escape_text c = CHR 0x5C # CHR ''u'' # d \<and> hex4 d (int (uchar c))"
proof -
  have "list_all (\<lambda>n. let e = escape_text (char_of n)
      in n \<in> {8, 9, 10, 12, 13} \<or> (take 2 e = [CHR 0x5C, CHR ''u''] \<and> hex4 (drop 2 e) (int n))) [1..<32]"
    by code_simp
  moreover have "uchar c \<in> set [1..<32]" using assms(1,2) by simp
  ultimately have n: "uchar c \<in> {8, 9, 10, 12, 13} \<or> (take 2 (escape_text c) = [CHR 0x5C, CHR ''u''] \<and> hex4 (drop 2 (escape_text c)) (int (uchar c)))"
    unfolding list_all_iff Let_def by (metis char_of_uchar)
  have "uchar CHR 0x08 = 8" "uchar CHR 0x09 = 9" "uchar CHR 0x0A = 10" "uchar CHR 0x0C = 12" "uchar CHR 0x0D = 13" by code_simp+
  then have "uchar c \<noteq> 8" "uchar c \<noteq> 9" "uchar c \<noteq> 10" "uchar c \<noteq> 12" "uchar c \<noteq> 13"
    using assms(3) uchar_inject [of c] by (metis insertCI)+
  then have "take 2 (escape_text c) = [CHR 0x5C, CHR ''u'']" "hex4 (drop 2 (escape_text c)) (int (uchar c))" using n by auto
  then show ?thesis by (metis append_take_drop_id append_Cons append_Nil)
qed

lemma escape_plain:
  assumes "0x20 \<le> uchar c" "c \<noteq> CHR 0x22" "c \<noteq> CHR 0x5C"
  shows "escape_text c = [c]"
proof -
  have "uchar CHR 0x08 < 0x20" "uchar CHR 0x09 < 0x20" "uchar CHR 0x0A < 0x20" "uchar CHR 0x0C < 0x20" "uchar CHR 0x0D < 0x20" by code_simp+
  then have "c \<noteq> CHR 0x08" "c \<noteq> CHR 0x09" "c \<noteq> CHR 0x0A" "c \<noteq> CHR 0x0C" "c \<noteq> CHR 0x0D" using assms(1) by (metis not_le)+
  moreover have "\<not> (schar c > 0 \<and> schar c \<le> 0x1F)" unfolding schar_def using assms(1) uchar_less [of c] by (simp del: uchar_less)
  ultimately show ?thesis using assms(2,3) unfolding escape_text_def format_char_def by (simp only: if_False) (simp add: put_str_def empty_stream_def)
qed

lemma escape_ascii:
  assumes "0 < uchar c" "uchar c < 0x80" "str_body s v"
  shows "str_body (escape_text c @ s) (c # v)"
proof -
  consider "c \<in> {CHR 0x22, CHR 0x5C, CHR 0x08, CHR 0x0C, CHR 0x0A, CHR 0x0D, CHR 0x09}"
    | "uchar c < 0x20" "c \<notin> {CHR 0x08, CHR 0x0C, CHR 0x0A, CHR 0x0D, CHR 0x09}"
    | "0x20 \<le> uchar c" "c \<noteq> CHR 0x22" "c \<noteq> CHR 0x5C" by fastforce
  then show ?thesis
  proof cases
    case 1
    then show ?thesis
      using str_escape [OF _ assms(3), of "CHR 0x22"] str_escape [OF _ assms(3), of "CHR 0x5C"] str_escape [OF _ assms(3), of "CHR ''b''"]
        str_escape [OF _ assms(3), of "CHR ''f''"] str_escape [OF _ assms(3), of "CHR ''n''"] str_escape [OF _ assms(3), of "CHR ''r''"]
        str_escape [OF _ assms(3), of "CHR ''t''"]
      by (auto simp: escape_text_def format_char_def put_str_def empty_stream_def unescape_def)
  next
    case 2
    then obtain d where d: "escape_text c = CHR 0x5C # CHR ''u'' # d" "hex4 d (int (uchar c))" using escape_control assms(1) by blast
    have "encoded (int (uchar c)) = [c]" using assms(2) by (simp add: encoded_def convert_char_def to_char_nat)
    then show ?thesis using str_unicode [OF d(2) _ assms(3)] assms(2) d(1) by simp
  next
    case 3
    then show ?thesis using str_plain [OF 3(1) assms(2) 3(2,3) assms(3)] escape_plain by simp
  qed
qed

lemma encoded_high_bytes:
  assumes "scalar ch" "0x80 \<le> ch" "c \<in> set (encoded ch)"
  shows "0x80 \<le> uchar c"
proof -
  have d: "0 \<le> ch div 64" "0 \<le> ch div 4096" "0 \<le> ch div 262144" using assms(2) by simp_all
  have m: "0 \<le> ch mod 64" "0 \<le> ch div 64 mod 64" "0 \<le> ch div 4096 mod 64" by simp_all
  have "list_all (\<lambda>c. 0x80 \<le> byte c) (encoded ch)" using assms(1)
  proof (cases rule: encoded_cases)
    case one
    then show ?thesis using assms(2) by simp
  next
    case (two x y)
    have "0x80 \<le> byte x" "0x80 \<le> byte y" using two(5,6) d m by linarith+
    then show ?thesis using two(3) by simp
  next
    case (three x y z)
    have "0x80 \<le> byte x" "0x80 \<le> byte y" "0x80 \<le> byte z" using three(5-7) d m by linarith+
    then show ?thesis using three(3) by simp
  next
    case (four x y z w)
    have "0x80 \<le> byte x" "0x80 \<le> byte y" "0x80 \<le> byte z" "0x80 \<le> byte w" using four(5-8) d m by linarith+
    then show ?thesis using four(3) by simp
  qed
  then have "0x80 \<le> byte c" using assms(3) unfolding list_all_iff by blast
  then show ?thesis by (simp add: byte_def)
qed

lemma escape_scalar:
  assumes "scalar ch" "0 < ch" "str_body s v"
  shows "str_body (concat (map escape_text (encoded ch)) @ s) (encoded ch @ v)"
proof (cases "ch < 0x80")
  case True
  then have "encoded ch = [to_char ch]" by (simp add: encoded_def convert_char_def)
  moreover have "int (uchar (to_char ch)) = ch" using byte_to_char [of ch] True assms(2) unfolding byte_def by simp
  ultimately show ?thesis using escape_ascii [of "to_char ch" s v] True assms(2,3) by simp
next
  case False
  have "uchar CHR 0x22 < 0x80" "uchar CHR 0x5C < 0x80" by code_simp+
  then have "escape_text c = [c]" if "c \<in> set (encoded ch)" for c
    using encoded_high_bytes [OF assms(1) _ that] False by (intro escape_plain) auto
  then have "map escape_text (encoded ch) = map (\<lambda>c. [c]) (encoded ch)" by simp
  then have "concat (map escape_text (encoded ch)) = encoded ch" by (simp only: concat_map_singleton list.map_ident)
  then show ?thesis using str_utf8 [OF assms(1) _ assms(3)] False by simp
qed

lemma escape_str_body: "text_ok s \<Longrightarrow> str_body (concat (map escape_text s)) s"
proof -
  have "list_all (\<lambda>ch. scalar ch \<and> 0 < ch) cs \<Longrightarrow> str_body (concat (map escape_text (concat (map encoded cs)))) (concat (map encoded cs))" for cs
    by (induction cs) (simp_all add: str_Nil escape_scalar)
  then show "text_ok s \<Longrightarrow> ?thesis" unfolding text_ok_def by blast
qed

lemma name_str_body: "name_ok s \<Longrightarrow> str_body s s"
proof -
  have "str_body (encoded ch @ s) (encoded ch @ v)" if ch: "scalar ch" "0x20 \<le> ch" "ch \<noteq> 0x22" "ch \<noteq> 0x5C" and s: "str_body s v" for ch s v
  proof (cases "ch < 0x80")
    case True
    then have e: "encoded ch = [to_char ch]" by (simp add: encoded_def convert_char_def)
    have u: "int (uchar (to_char ch)) = ch" using byte_to_char [of ch] True ch(2) unfolding byte_def by simp
    have "to_char ch \<noteq> CHR 0x22" "to_char ch \<noteq> CHR 0x5C" using u ch(3,4) by (auto simp: uchar_def)
    then show ?thesis using str_plain [OF _ _ _ _ s, of "to_char ch"] e u ch(2) True by simp
  next
    case False
    then show ?thesis using str_utf8 [OF ch(1) _ s] by simp
  qed
  then have "list_all (\<lambda>ch. scalar ch \<and> 0x20 \<le> ch \<and> ch \<noteq> 0x22 \<and> ch \<noteq> 0x5C) cs \<Longrightarrow> str_body (concat (map encoded cs)) (concat (map encoded cs))" for cs
    by (induction cs) (simp_all add: str_Nil)
  then show "name_ok s \<Longrightarrow> ?thesis" unfolding name_ok_def by blast
qed

section \<open>Numbers\<close>

lemma hexd_zero: "d < 10 \<Longrightarrow> hexd d = CHR ''0'' \<longleftrightarrow> d = 0"
proof -
  assume d: "d < 10"
  have "uchar CHR ''0'' = 48" by code_simp
  then show ?thesis using hexd_dec(2) [OF d] by (metis add_cancel_right_right uchar_inject)
qed

lemma last_rdigits: "0 < n \<Longrightarrow> last (rdigits 10 n) \<noteq> CHR ''0''"
proof (induction n rule: less_induct)
  case (less n)
  show ?case
  proof (cases "n < 10")
    case True
    then show ?thesis using less.prems hexd_zero [of n] by (subst rdigits.simps) simp
  next
    case False
    then have "last (rdigits 10 (n div 10)) \<noteq> CHR ''0''" using less by simp
    then show ?thesis using False by (subst rdigits.simps) simp
  qed
qed

lemma digits_text_rdigits: "digits_text (rev (rdigits 10 n))"
proof (cases "n = 0")
  case True
  then show ?thesis using hexd_zero [of 0] rdigits_dec [of 0] by (simp add: digits_text_def rdigits.simps [of 10 0])
next
  case False
  then show ?thesis using last_rdigits [of n] rdigits_dec [of n] by (simp add: digits_text_def hd_rev)
qed

lemma format_int_token:
  assumes "\<bar>v\<bar> < 2 ^ 63"
  shows "\<exists>s. format_int v = Inr s \<and> int_text s \<and> integer_value s = Inr (if in_int32 v then VInt v else VInt64 v)"
proof -
  have a: "\<bar>v\<bar> < 2 ^ 64" using assms by simp
  obtain s where s: "format_int v = Inr s" "strToInt Int64 s 10 (CHR '','') = Inr (Some v)"
    using strToInt_format_int [of Int64 v "CHR '',''"] assms by (auto simp: Int64_def int_max_def)
  have "s = (if v < 0 then ''-'' else []) @ rev (rdigits 10 (nat \<bar>v\<bar>))" using format_int_text [OF a] s(1) by simp
  then have "int_text s" using digits_text_rdigits [of "nat \<bar>v\<bar>"] unfolding int_text_def by auto
  moreover have "parse64 s (CHR '','') = Inr v" using s(2) by (simp add: parse64_def tryParse64_def or_throw_def)
  then have "integer_value s = Inr (if in_int32 v then VInt v else VInt64 v)" by (simp add: integer_value_def)
  ultimately show ?thesis using s(1) by blast
qed

section \<open>Printable trees\<close>

text \<open>What can be printed and read back: integers in the form the parser gives them, text, and doubles that the conversions carry
  there and back.\<close>

fun leaf_ok :: "('f, 'h) env \<Rightarrow> ('f \<Rightarrow> string) \<Rightarrow> 'f jvalue \<Rightarrow> bool" where
  "leaf_ok E ff VNull \<longleftrightarrow> True"
| "leaf_ok E ff (VBool b) \<longleftrightarrow> True"
| "leaf_ok E ff (VInt v) \<longleftrightarrow> in_int32 v"
| "leaf_ok E ff (VInt64 v) \<longleftrightarrow> \<not> in_int32 v \<and> \<bar>v\<bar> < 2 ^ 63"
| "leaf_ok E ff (VUnsigned v) \<longleftrightarrow> False"
| "leaf_ok E ff (VUInt64 v) \<longleftrightarrow> False"
| "leaf_ok E ff (VDouble d) \<longleftrightarrow> float_text (ff d) \<and> (\<forall>w. list_all ws_char w \<longrightarrow> float_value E (ff d @ w) = Inr (VDouble d))"
| "leaf_ok E ff (VString s) \<longleftrightarrow> text_ok s"

fun printable :: "('f, 'h) env \<Rightarrow> ('f \<Rightarrow> string) \<Rightarrow> 'f jtree \<Rightarrow> bool" where
  "printable E ff (Leaf v) \<longleftrightarrow> leaf_ok E ff v"
| "printable E ff (Arr ts) \<longleftrightarrow> (\<forall>t \<in> set ts. printable E ff t)"
| "printable E ff (Obj ms) \<longleftrightarrow> (\<forall>(k, t) \<in> set ms. name_ok k \<and> printable E ff t)"

fun height :: "'f jtree \<Rightarrow> nat" where
  "height (Leaf v) = 0"
| "height (Arr ts) = Suc (foldr (\<lambda>t n. max (height t) n) ts 0)"
| "height (Obj ms) = Suc (foldr (\<lambda>(k, t) n. max (height t) n) ms 0)"

lemma foldr_max_le: "x \<in> set xs \<Longrightarrow> f x \<le> foldr (\<lambda>x n. max (f x) n) xs (0 :: nat)"
  by (induction xs) auto

lemma height_elem: "t \<in> set ts \<Longrightarrow> height t < height (Arr ts)"
  using foldr_max_le [of t ts height] by simp

lemma height_member: "(k, t) \<in> set ms \<Longrightarrow> height t < height (Obj ms)"
proof -
  have e: "(\<lambda>(k, t) n. max (height t) n) = (\<lambda>kt n. max (height (snd kt)) n)" by (auto simp: fun_eq_iff)
  show "(k, t) \<in> set ms \<Longrightarrow> height t < height (Obj ms)"
    using foldr_max_le [of "(k, t)" ms "\<lambda>kt. height (snd kt)"] by (simp add: e)
qed

lemma leaf_prints:
  assumes "leaf_ok E ff v"
  shows "\<exists>s os'. stringify (Suc n) ff H (Scalar v) indent step os = Returns os' \<and> os_text os' = os_text os @ s
    \<and> (\<forall>w. list_all ws_char w \<longrightarrow> json_token E v (s @ w))"
proof (cases v)
  case (VInt x)
  then have "\<bar>x\<bar> < 2 ^ 63" using assms by (auto simp: in_int32_def)
  from format_int_token [OF this] obtain s where s: "format_int x = Inr s" "int_text s" "integer_value s = Inr v" using assms VInt by auto
  then show ?thesis using VInt tok_int [OF _ s(2,3)] by (auto simp: emit_def put_str_def)
next
  case (VInt64 x)
  then have "\<bar>x\<bar> < 2 ^ 63" using assms by simp
  from format_int_token [OF this] obtain s where s: "format_int x = Inr s" "int_text s" "integer_value s = Inr v" using assms VInt64 by auto
  then show ?thesis using VInt64 tok_int [OF _ s(2,3)] by (auto simp: emit_def put_str_def)
next
  case (VString x)
  then have "json_token E v (CHR 0x22 # concat (map escape_text x) @ CHR 0x22 # w)" if "list_all ws_char w" for w
    using tok_string [OF that escape_str_body] assms by simp
  then show ?thesis using VString formatString_text [of x os] by (auto intro!: exI [of _ "CHR 0x22 # concat (map escape_text x) @ [CHR 0x22]"])
next
  case (VBool b)
  then show ?thesis using tok_true [of _ E] tok_false [of _ E] by (cases b) (auto simp: emit_def put_str_def)
next
  case VNull
  then show ?thesis using tok_null [of _ E] by (auto simp: emit_def put_str_def)
next
  case (VDouble d)
  then show ?thesis using assms tok_float [of _ "ff d" E v] by (auto simp: emit_def put_str_def)
qed (use assms in simp_all)

section \<open>Printing a tree\<close>

text \<open>A writer has printed a text of some shape, whatever white space stands around it.\<close>

definition printed :: "(string \<Rightarrow> bool) \<Rightarrow> ostream \<Rightarrow> ostream outcome \<Rightarrow> bool" where
  "printed P os m \<longleftrightarrow> (\<exists>s os'. m = Returns os' \<and> os_text os' = os_text os @ s
     \<and> (\<forall>w w'. list_all ws_char w \<longrightarrow> list_all ws_char w' \<longrightarrow> P (w @ s @ w')))"

definition prints :: "('f, 'h) env \<Rightarrow> ('f jvar \<Rightarrow> int \<Rightarrow> int \<Rightarrow> writer) \<Rightarrow> 'f jvar \<Rightarrow> 'f jtree \<Rightarrow> bool" where
  "prints E S v t \<longleftrightarrow> (\<forall>indent step os. 0 \<le> indent \<longrightarrow> 0 \<le> step \<longrightarrow> indent + step * int (height t) < 2 ^ 31 \<longrightarrow>
     printed (jval E t) os (S v indent step os))"

lemma ws_spaces [simp]: "list_all ws_char (spaces n)"
  by (simp add: spaces_def list_all_iff ws_char_def)

lemma ws_newline [simp]: "ws_char CHR 0x0A"
  by (simp add: ws_char_def)

lemma to_unsigned_small [simp]: "0 \<le> n \<Longrightarrow> n < 2 ^ 31 \<Longrightarrow> to_unsigned n = n"
  by (simp add: to_unsigned_def)

lemma to_int_small [simp]: "0 \<le> n \<Longrightarrow> n < 2 ^ 31 \<Longrightarrow> to_int n = n"
  by (simp add: to_int_def signed_take_bit_int_eq_self)

lemma array_items_printed:
  assumes "list_all2 (prints E S) vs ts" "vs \<noteq> []" "0 \<le> indent" "0 \<le> step" "indent + step < 2 ^ 31"
    "\<And>t. t \<in> set ts \<Longrightarrow> indent + step + step * int (height t) < 2 ^ 31"
  shows "printed (jelems E ts) os (array_items S indent step vs os)"
  using assms(1,2,6)
proof (induction vs ts arbitrary: os rule: list_all2_induct)
  case (Cons v vs t ts)
  have "printed (jval E t) (put_str (spaces indent) os) (S v (indent + step) step (put_str (spaces indent) os))"
    using Cons(1) assms(3,4) Cons.prems(2) [of t] unfolding prints_def by simp
  then obtain s os1 where s: "S v (indent + step) step (put_str (spaces indent) os) = Returns os1" "os_text os1 = os_text os @ spaces indent @ s"
    "\<And>w w'. list_all ws_char w \<Longrightarrow> list_all ws_char w' \<Longrightarrow> jval E t (w @ s @ w')" by (auto simp: printed_def put_str_def)
  show ?case
  proof (cases "vs = []")
    case True
    then have "ts = []" using Cons(2) by simp
    moreover have "jelems E [t] (w @ (spaces indent @ s) @ w')" if "list_all ws_char w" "list_all ws_char w'" for w w'
      using j_elem [OF s(3) [of "w @ spaces indent" w']] that by simp
    ultimately show ?thesis unfolding printed_def using True s(1,2) assms(3-5)
      by (intro exI [of _ "spaces indent @ s"] exI [of _ os1]) simp
  next
    case False
    let ?nl = "if step > 0 then [CHR 0x0A] else []"
    let ?os = "put_str ('','' @ ?nl) os1"
    have "printed (jelems E ts) ?os (array_items S indent step vs ?os)" using Cons.IH False Cons.prems(2) by simp
    then obtain s' os2 where s': "array_items S indent step vs ?os = Returns os2" "os_text os2 = os_text os1 @ '','' @ ?nl @ s'"
      "\<And>w w'. list_all ws_char w \<Longrightarrow> list_all ws_char w' \<Longrightarrow> jelems E ts (w @ s' @ w')" by (auto simp: printed_def put_str_def)
    have "jelems E (t # ts) (w @ (spaces indent @ s @ '','' @ ?nl @ s') @ w')" if "list_all ws_char w" "list_all ws_char w'" for w w'
    proof -
      have n: "list_all ws_char ?nl" by simp
      show ?thesis using j_elems [OF s(3) [of "w @ spaces indent" "[]"] s'(3) [OF n that(2)]] that by simp
    qed
    then show ?thesis unfolding printed_def using False s(1,2) s'(1,2) assms(3-5)
      by (intro exI [of _ "spaces indent @ s @ '','' @ ?nl @ s'"] exI [of _ os2]) simp
  qed
qed simp

lemma object_items_printed:
  assumes "list_all2 (rel_prod (=) (prints E S)) kvs ms" "kvs \<noteq> []" "0 \<le> indent" "0 \<le> step" "indent + step < 2 ^ 31"
    "\<And>k t. (k, t) \<in> set ms \<Longrightarrow> name_ok k \<and> indent + step + step * int (height t) < 2 ^ 31"
  shows "printed (jmembers E ms) os (object_items S (\<lambda>(k, v). Inr k) (\<lambda>(k, v). Inr v) indent step kvs os)"
  using assms(1,2,6)
proof (induction kvs ms arbitrary: os rule: list_all2_induct)
  case (Cons kv kvs m ms)
  obtain k v t where kv: "kv = (k, v)" "m = (k, t)" "prints E S v t" using Cons(1) by (cases kv; cases m) auto
  define nl where "nl = (if step > 0 then [CHR 0x0A] else [])"
  define c where "c = (if indent > 0 then '' : '' else '':'')"
  let ?pre = "spaces indent @ [CHR 0x22] @ k @ [CHR 0x22] @ c"
  let ?os0 = "put_str ?pre os" and ?items = "object_items S (\<lambda>(k, v). Inr k) (\<lambda>(k, v). Inr v) indent step"
  have "step < 2 ^ 31" using assms(3,5) by linarith
  then have step: "?items (kv # kvs) os = and_then (S v (indent + step) step ?os0) (\<lambda>os. ?items kvs (put_str ((if kvs \<noteq> [] then '','' else []) @ nl) os))"
    using kv(1) assms(3-5) by (simp add: Let_def put_str_def flip: nl_def c_def)
  have "printed (jval E t) ?os0 (S v (indent + step) step ?os0)"
    using kv(3) assms(3,4) Cons.prems(2) [of k t] kv(2) unfolding prints_def by simp
  then obtain s os1 where s: "S v (indent + step) step ?os0 = Returns os1" "os_text os1 = os_text os @ ?pre @ s"
    "\<And>w w'. list_all ws_char w \<Longrightarrow> list_all ws_char w' \<Longrightarrow> jval E t (w @ s @ w')" by (auto simp: printed_def put_str_def)
  have b: "str_body k k" using Cons.prems(2) [of k t] kv(2) name_str_body by simp
  have n: "list_all ws_char nl" by (simp add: nl_def)
  obtain c1 c2 where c: "c = c1 @ '':'' @ c2" "list_all ws_char c1" "list_all ws_char c2"
  proof (cases "indent > 0")
    case True
    then show ?thesis using that [of "'' ''" "'' ''"] by (simp add: c_def ws_char_def)
  next
    case False
    then show ?thesis using that [of "[]" "[]"] by (simp add: c_def)
  qed
  show ?case
  proof (cases "kvs = []")
    case True
    have "jmembers E [(k, t)] (w @ (?pre @ s @ nl) @ w')" if "list_all ws_char w" "list_all ws_char w'" for w w'
      using j_member [OF _ c(2) b s(3) [OF c(3), of "nl @ w'"], of "w @ spaces indent"] that n by (simp add: c(1))
    moreover have "ms = []" using Cons(2) True by simp
    moreover have "?items (kv # kvs) os = Returns (put_str nl os1)" unfolding step s(1) using True by simp
    ultimately show ?thesis unfolding printed_def using kv(2) s(2)
      by (intro exI [of _ "?pre @ s @ nl"] exI [of _ "put_str nl os1"]) (simp add: put_str_def)
  next
    case False
    have "printed (jmembers E ms) (put_str ('','' @ nl) os1) (?items kvs (put_str ('','' @ nl) os1))"
      by (rule Cons.IH [OF False], rule Cons.prems(2)) simp
    then obtain s' os2 where s': "?items kvs (put_str ('','' @ nl) os1) = Returns os2" "os_text os2 = os_text os1 @ '','' @ nl @ s'"
      "\<And>w w'. list_all ws_char w \<Longrightarrow> list_all ws_char w' \<Longrightarrow> jmembers E ms (w @ s' @ w')" by (auto simp: printed_def put_str_def)
    have "jmembers E (m # ms) (w @ (?pre @ s @ '','' @ nl @ s') @ w')" if "list_all ws_char w" "list_all ws_char w'" for w w'
      using j_members [OF _ c(2) b s(3) [OF c(3), of "[]"] s'(3) [OF n that(2)], of "w @ spaces indent"] that by (simp add: c(1) kv(2))
    moreover have "?items (kv # kvs) os = Returns os2" unfolding step s(1) using False s'(1) by simp
    ultimately show ?thesis unfolding printed_def using s(2) s'(2)
      by (intro exI [of _ "?pre @ s @ '','' @ nl @ s'"] exI [of _ os2]) simp
  qed
qed simp

lemma array_prints:
  assumes "list_all2 (prints E S) vs ts" "\<forall>t \<in> set ts. height t < h"
    and "0 \<le> indent" "0 \<le> step" "indent + step * int h < 2 ^ 31"
  shows "printed (jval E (Arr ts)) os (array_stringify S vs indent step os)"
proof -
  define nl0 where "nl0 = (if indent > 0 then [CHR 0x0A] else [])"
  define post where "post = (if step > 0 then [CHR 0x0A] else []) @ spaces (if indent \<ge> to_unsigned step then to_unsigned (indent - step) else indent)"
  have w: "list_all ws_char nl0" "list_all ws_char post" by (simp_all add: nl0_def post_def)
  have run: "array_stringify S vs indent step os
      = and_then (array_items S indent step vs (put_str (''['' @ nl0) os)) (\<lambda>os. emit (post @ '']'') os)"
    using assms(4) by (simp add: array_stringify_def Let_def nl0_def post_def)
  show ?thesis
  proof (cases "vs = []")
    case True
    then have "ts = []" using assms(1) by simp
    moreover have "jval E (Arr []) (v @ (''['' @ nl0 @ post @ '']'') @ v')" if "list_all ws_char v" "list_all ws_char v'" for v v'
      using j_arr_empty [OF that(1) _ that(2), of "nl0 @ post" E] w by simp
    ultimately show ?thesis unfolding printed_def run using True
      by (intro exI [of _ "''['' @ nl0 @ post @ '']''"] exI [of _ "put_str (post @ '']'') (put_str (''['' @ nl0) os)"]) (simp add: emit_def put_str_def)
  next
    case False
    then obtain t where t: "t \<in> set ts" using assms(1) by (cases ts) auto
    have le: "indent + step + step * int (height t) < 2 ^ 31" if "t \<in> set ts" for t
    proof -
      have "step * int (Suc (height t)) \<le> step * int h" using assms(2,4) that by (intro mult_left_mono) auto
      then show ?thesis using assms(5) by (simp add: algebra_simps)
    qed
    have "0 \<le> step * int (height t)" using assms(4) by simp
    then have "indent + step < 2 ^ 31" using le [OF t] by linarith
    from array_items_printed [OF assms(1) False assms(3,4) this le, of "put_str (''['' @ nl0) os"]
    obtain s os1 where s: "array_items S indent step vs (put_str (''['' @ nl0) os) = Returns os1" "os_text os1 = os_text os @ ''['' @ nl0 @ s"
      "\<And>w w'. list_all ws_char w \<Longrightarrow> list_all ws_char w' \<Longrightarrow> jelems E ts (w @ s @ w')" by (auto simp: printed_def put_str_def)
    have "jval E (Arr ts) (v @ (''['' @ nl0 @ s @ post @ '']'') @ v')" if "list_all ws_char v" "list_all ws_char v'" for v v'
      using j_arr [OF that s(3) [OF w]] by simp
    then show ?thesis unfolding printed_def run s(1) using s(2)
      by (intro exI [of _ "''['' @ nl0 @ s @ post @ '']''"] exI [of _ "put_str (post @ '']'') os1"]) (simp add: emit_def put_str_def)
  qed
qed

lemma object_prints:
  assumes "list_all2 (rel_prod (=) (prints E S)) (o_values ob) ms" "\<forall>(k, t) \<in> set ms. name_ok k \<and> height t < h" "\<not> o_preserveInsOrder ob"
    and "0 \<le> indent" "0 \<le> step" "step < 2 ^ 31" "indent + step * int h < 2 ^ 31"
  shows "printed (jval E (Obj ms)) os (object_stringify S conv ob indent step os)"
proof -
  let ?items = "object_items S (\<lambda>(k, v). Inr k) (\<lambda>(k, v). Inr v) indent step (o_values ob)"
  define nl0 where "nl0 = (if indent > 0 then [CHR 0x0A] else [])"
  define post where "post = spaces (if indent \<ge> step then indent - step else indent)"
  have w: "list_all ws_char nl0" "list_all ws_char post" by (simp_all add: nl0_def post_def)
  have run: "object_stringify S conv ob indent step os = and_then (?items (put_str (''{'' @ nl0) os)) (\<lambda>os. emit (post @ ''}'') os)"
    using assms(3,5,6) by (simp add: object_stringify_def doStringify_def Let_def nl0_def post_def)
  show ?thesis
  proof (cases "o_values ob = []")
    case True
    then have "ms = []" using assms(1) by simp
    moreover have "jval E (Obj []) (v @ (''{'' @ nl0 @ post @ ''}'') @ v')" if "list_all ws_char v" "list_all ws_char v'" for v v'
      using j_obj_empty [OF that(1) _ that(2), of "nl0 @ post" E] w by simp
    ultimately show ?thesis unfolding printed_def run using True
      by (intro exI [of _ "''{'' @ nl0 @ post @ ''}''"] exI [of _ "put_str (post @ ''}'') (put_str (''{'' @ nl0) os)"]) (simp add: emit_def put_str_def)
  next
    case False
    then obtain k t where t: "(k, t) \<in> set ms" using assms(1) by (cases ms) auto
    have le: "name_ok k \<and> indent + step + step * int (height t) < 2 ^ 31" if "(k, t) \<in> set ms" for k t
    proof -
      have "step * int (Suc (height t)) \<le> step * int h" using assms(2,5) that by (intro mult_left_mono) auto
      then show ?thesis using assms(2,7) that by (auto simp: algebra_simps)
    qed
    have "0 \<le> step * int (height t)" using assms(5) by simp
    then have "indent + step < 2 ^ 31" using le [OF t] by linarith
    from object_items_printed [OF assms(1) False assms(4,5) this le, of "put_str (''{'' @ nl0) os"]
    obtain s os1 where s: "?items (put_str (''{'' @ nl0) os) = Returns os1" "os_text os1 = os_text os @ ''{'' @ nl0 @ s"
      "\<And>w w'. list_all ws_char w \<Longrightarrow> list_all ws_char w' \<Longrightarrow> jmembers E ms (w @ s @ w')" by (auto simp: printed_def put_str_def)
    have "jval E (Obj ms) (v @ (''{'' @ nl0 @ s @ post @ ''}'') @ v')" if "list_all ws_char v" "list_all ws_char v'" for v v'
      using j_obj [OF that s(3) [OF w]] by simp
    then show ?thesis unfolding printed_def run s(1) using s(2)
      by (intro exI [of _ "''{'' @ nl0 @ s @ post @ ''}''"] exI [of _ "put_str (post @ ''}'') os1"]) (simp add: emit_def put_str_def)
  qed
qed

lemma leaf_node_prints: "leaf_ok E ff v \<Longrightarrow> prints E (stringify (Suc m) ff H) (Scalar v) (Leaf v)"
  unfolding prints_def printed_def
proof (intro allI impI)
  fix indent step os assume "leaf_ok E ff v"
  from leaf_prints [OF this, of m H indent step os]
  obtain s os' where s: "stringify (Suc m) ff H (Scalar v) indent step os = Returns os'" "os_text os' = os_text os @ s"
    "\<And>w. list_all ws_char w \<Longrightarrow> json_token E v (s @ w)" by blast
  then show "\<exists>s os'. stringify (Suc m) ff H (Scalar v) indent step os = Returns os' \<and> os_text os' = os_text os @ s \<and>
    (\<forall>w w'. list_all ws_char w \<longrightarrow> list_all ws_char w' \<longrightarrow> jval E (Leaf v) (w @ s @ w'))" using j_leaf by blast
qed

lemma array_node_prints:
  assumes "a < length H" "H ! a = ArrayNode vs" "list_all2 (prints E (stringify m ff H)) vs ts"
  shows "prints E (stringify (Suc m) ff H) (ArrayPtr a) (Arr ts)"
proof -
  have "\<forall>t \<in> set ts. height t < height (Arr ts)" using height_elem by blast
  from array_prints [OF assms(3) this]
  have "printed (jval E (Arr ts)) os (stringify (Suc m) ff H (ArrayPtr a) indent step os)"
    if "0 \<le> indent" "0 \<le> step" "indent + step * int (height (Arr ts)) < 2 ^ 31" for indent step os
    using assms(1,2) that by simp
  then show ?thesis unfolding prints_def by blast
qed

lemma object_node_prints:
  assumes "a < length H" "H ! a = ObjectNode ob" "\<not> o_preserveInsOrder ob" "\<forall>(k, t) \<in> set ms. name_ok k"
    "list_all2 (rel_prod (=) (prints E (stringify m ff H))) (o_values ob) ms"
  shows "prints E (stringify (Suc m) ff H) (ObjectPtr a) (Obj ms)"
proof -
  have h: "\<forall>(k, t) \<in> set ms. name_ok k \<and> height t < height (Obj ms)" using height_member assms(4) by fastforce
  have "step * 1 \<le> step * int (height (Obj ms))" if "0 \<le> step" for step :: int using that by (intro mult_left_mono) auto
  then have "printed (jval E (Obj ms)) os (stringify (Suc m) ff H (ObjectPtr a) indent step os)"
    if "0 \<le> indent" "0 \<le> step" "indent + step * int (height (Obj ms)) < 2 ^ 31" for indent step os
    using object_prints [OF assms(5) h assms(3) that(1,2) _ that(3)] assms(1,2) that by fastforce
  then show ?thesis unfolding prints_def by blast
qed

lemma stringify_prints:
  assumes "tree_in lo hi H v t" "hi \<le> length H"
  shows "printable E ff t \<longrightarrow> (\<forall>m \<ge> height t. prints E (stringify (Suc m) ff H) v t)"
  using assms(1)
proof (induction rule: tree_in.induct)
  case (t_leaf v)
  then show ?case using leaf_node_prints [of E ff v] by (simp del: stringify.simps)
next
  case (t_arr a vs ts)
  have "list_all2 (prints E (stringify m ff H)) vs ts" if m: "printable E ff (Arr ts)" "height (Arr ts) \<le> m" for m
  proof (rule list.rel_mono_strong [OF t_arr(4)])
    fix v t assume t: "t \<in> set ts" "tree_in lo hi H v t \<and> (printable E ff t \<longrightarrow> (\<forall>m \<ge> height t. prints E (stringify (Suc m) ff H) v t))"
    then have "printable E ff t" "height t < m" using m height_elem [OF t(1)] by auto
    then show "prints E (stringify m ff H) v t" using t(2) by (cases m) (simp_all del: stringify.simps)
  qed
  then show ?case using array_node_prints [OF _ t_arr(3)] t_arr(2) assms(2) by (meson order_less_le_trans)
next
  case (t_obj a ob ms)
  have "list_all2 (rel_prod (=) (prints E (stringify m ff H))) (o_values ob) ms" if m: "printable E ff (Obj ms)" "height (Obj ms) \<le> m" for m
  proof (rule list.rel_mono_strong [OF t_obj(5)])
    fix kv m' assume "m' \<in> set ms" and r: "rel_prod (=) (\<lambda>v t. tree_in lo hi H v t \<and> (printable E ff t \<longrightarrow> (\<forall>m \<ge> height t. prints E (stringify (Suc m) ff H) v t))) kv m'"
    then obtain k v t where k: "kv = (k, v)" "m' = (k, t)" "(k, t) \<in> set ms" "printable E ff t \<longrightarrow> (\<forall>m \<ge> height t. prints E (stringify (Suc m) ff H) v t)"
      by (auto simp: rel_prod_conv split: prod.splits)
    moreover have "printable E ff t" "height t < m" using m k(3) height_member [OF k(3)] by auto
    ultimately show "rel_prod (=) (prints E (stringify m ff H)) kv m'" by (cases m) (simp_all del: stringify.simps)
  qed
  moreover have "\<forall>(k, t) \<in> set ms. name_ok k" if "printable E ff (Obj ms)" using that by auto
  ultimately show ?case using object_node_prints [OF _ t_obj(3,4), of ms E] t_obj(2) assms(2) by (simp del: stringify.simps printable.simps)
qed

section \<open>There and back\<close>

text \<open>The members of every object are sorted by name, as in the \<open>std::map\<close> that holds them.\<close>

fun tidy :: "'f jtree \<Rightarrow> bool" where
  "tidy (Leaf v) \<longleftrightarrow> True"
| "tidy (Arr ts) \<longleftrightarrow> (\<forall>t \<in> set ts. tidy t)"
| "tidy (Obj ms) \<longleftrightarrow> sorted_wrt (<) (map fst ms) \<and> (\<forall>(k, t) \<in> set ms. tidy t)"

lemma map_set_last: "\<forall>k' \<in> set (map fst ps). k' < k \<Longrightarrow> map_set k v ps = ps @ [(k, v)]"
  by (induction ps) auto

lemma fold_map_set_sorted: "sorted_wrt (<) (map fst (ps @ qs)) \<Longrightarrow> fold (\<lambda>(k, t). map_set k t) qs ps = ps @ qs"
proof (induction qs arbitrary: ps)
  case (Cons q qs)
  then have "map_set (fst q) (snd q) ps = ps @ [q]" using map_set_last [of ps "fst q" "snd q"] by (simp add: sorted_wrt_append)
  then show ?case using Cons.IH [of "ps @ [q]"] Cons.prems by (cases q) simp
qed simp

lemma canon_tidy: "tidy t \<Longrightarrow> canon t = t"
proof (induction t rule: canon.induct)
  case (2 ts)
  then show ?case by (simp add: map_idI)
next
  case (3 ms)
  have "map (\<lambda>(k, t). (k, canon t)) ms = ms" using 3 by (fastforce intro: map_idI)
  then show ?case using fold_map_set_sorted [of "[]" ms] 3 by simp
qed simp

lemma stringify_text:
  assumes "tree_in lo (length H) H v t" "printable E ff t" "height t < n"
    and "0 \<le> indent" "-1 \<le> step" "indent + (if step = -1 then indent else step) * int (height t) < 2 ^ 31"
  shows "\<exists>s. text_of (stringify n ff H v indent step empty_stream) = Inr s \<and> jval E t s"
proof -
  let ?step = "if step = -1 then indent else step"
  obtain m where m: "n = Suc m" "height t \<le> m" using assms(3) by (cases n) auto
  have "prints E (stringify n ff H) v t" using stringify_prints [OF assms(1), of E ff] assms(2) m by blast
  moreover have "indent < 2 ^ 31" if "0 \<le> ?step * int (height t)" using that assms(6) by linarith
  then have "indent < 2 ^ 31" using assms(4,5) by simp
  then have "stringify n ff H v indent step = stringify n ff H v indent ?step"
    unfolding m(1) using assms(4) by (auto simp: fun_eq_iff)
  ultimately have "printed (jval E t) empty_stream (stringify n ff H v indent step empty_stream)"
    using assms(4-6) unfolding prints_def by simp
  then obtain s os where s: "stringify n ff H v indent step empty_stream = Returns os" "os_text os = os_text empty_stream @ s"
    "\<And>w w'. list_all ws_char w \<Longrightarrow> list_all ws_char w' \<Longrightarrow> jval E t (w @ s @ w')" unfolding printed_def by blast
  then show ?thesis using s(3) [of "[]" "[]"] by (simp add: text_of_def empty_stream_def)
qed


definition sample_heap :: "unit heap" where
  "sample_heap = [ObjectNode \<lparr>o_values = [(''k'', ArrayPtr 1)], o_keys = [], o_preserveInsOrder = False\<rparr>,
     ArrayNode [Scalar (VInt 1), Scalar (VString [CHR 0x0A])]]"

lemma sample_heap_tree: "tree_in 0 (length sample_heap) sample_heap (ObjectPtr 0) (Obj [(''k'', Arr [Leaf (VInt 1), Leaf (VString [CHR 0x0A])])])"
proof -
  have "tree_in 0 (length sample_heap) sample_heap (ArrayPtr 1) (Arr [Leaf (VInt 1), Leaf (VString [CHR 0x0A])])"
    by (rule t_arr [of 0 1 _ _ "[Scalar (VInt 1), Scalar (VString [CHR 0x0A])]"]) (simp_all add: sample_heap_def t_leaf)
  then show ?thesis by (intro t_obj [of 0 0 _ _ "\<lparr>o_values = [(''k'', ArrayPtr 1)], o_keys = [], o_preserveInsOrder = False\<rparr>"])
    (simp_all add: sample_heap_def)
qed

lemma sample_text_ok: "text_ok [CHR 0x0A]" "name_ok ''k''"
proof -
  have "scalar 10 \<and> [CHR 0x0A] = encoded 10" "scalar 107 \<and> ''k'' = encoded 107" by code_simp+
  then show "text_ok [CHR 0x0A]" "name_ok ''k''" unfolding text_ok_def name_ok_def
    by (intro exI [of _ "[10]"] exI [of _ "[107]"], simp)+
qed


text \<open>The names of an object are printed as they are: an object with the name \<open>"\<close>, which the parser builds from a JSON text, is
  printed as a text that the parser refuses.\<close>

theorem json_name_not_escaped:
  "text_of (stringify 2 (\<lambda>_. []) [ObjectNode \<lparr>o_values = [([CHR 0x22], Scalar (VInt 1))], o_keys = [], o_preserveInsOrder = False\<rparr>]
       (ObjectPtr 0 :: unit jvar) 0 (-1) empty_stream) = Inr (''{'' @ [CHR 0x22, CHR 0x22, CHR 0x22] @ '':1}'')
    \<and> \<not> returns (parse_string sample_env (Parser_new sample_env (Some (ParseHandler_new False)) 0) (''{'' @ [CHR 0x22, CHR 0x22, CHR 0x22] @ '':1}''))
    \<and> returns (parse_string sample_env (Parser_new sample_env (Some (ParseHandler_new False)) 0) (''{'' @ [CHR 0x22, CHR 0x5C, CHR 0x22, CHR 0x22] @ '':1}''))"
  by code_simp

text \<open>An object that keeps the order of insertion looks names up by value: after \<open>set("a", 1)\<close> and \<open>set("b", 1)\<close> it prints the
  name \<open>a\<close> twice, and setting one name twice prints it twice.\<close>

theorem json_insertion_order_names:
  "let conv = convert_string 1 (\<lambda>_. []) ([] :: unit heap); q = CHR 0x22;
       print = (\<lambda>ob. text_of (stringify 2 (\<lambda>_. []) [ObjectNode ob] (ObjectPtr 0 :: unit jvar) 0 (-1) empty_stream))
   in (case and_then (object_set conv ''a'' (Scalar (VInt 1)) (Object_new True)) (object_set conv ''b'' (Scalar (VInt 1))) of
         Returns ob \<Rightarrow> object_getNames ob = [''a'', ''b''] \<and> print ob = Inr (''{'' @ [q, CHR ''a'', q] @ '':1,'' @ [q, CHR ''a'', q] @ '':1}'')
       | Throws e ob \<Rightarrow> False)
    \<and> (case and_then (object_set conv ''a'' (Scalar (VInt 1)) (Object_new True)) (object_set conv ''a'' (Scalar (VInt 2))) of
         Returns ob \<Rightarrow> object_getNames ob = [''a''] \<and> print ob = Inr (''{'' @ [q, CHR ''a'', q] @ '':2,'' @ [q, CHR ''a'', q] @ '':2}'')
       | Throws e ob \<Rightarrow> False)"
  by code_simp

end
