(* ===== verification/LinearHashTable.thy ===== *)
theory LinearHashTable
  imports Poco_Prelude "HOL-Library.Multiset"
begin

text \<open>
  \<open>Poco::LinearHashTable\<close> (\<open>include/Poco/LinearHashTable.h\<close>): a hash table whose buckets are split one by one as it grows and merged as
  it shrinks. \<open>hash\<close> and \<open>eq\<close> stand for the template's hash functor and for \<open>==\<close> of its values; the locale \<open>hashed\<close> says what the
  table asks of them. \<open>std::size_t\<close> is a natural number: \<open>_front\<close> and \<open>_split\<close> are bounded by the number of buckets, which are in memory. The
  invariant is that every element is in the bucket of its address; splitting and merging keep it and the elements, and the
  operations change the elements as they promise.
\<close>

section \<open>The table\<close>

record 'v hash_table =
  t_buckets :: "'v list list"
  t_split :: nat
  t_front :: nat
  t_size :: nat

definition new_table :: "'v hash_table" where
  "new_table = \<lparr>t_buckets = [[]], t_split = 0, t_front = 1, t_size = 0\<rparr>"

definition bucketAddressForHash :: "nat \<Rightarrow> 'v hash_table \<Rightarrow> nat" where
  "bucketAddressForHash n t = (if n mod t_front t \<ge> t_split t then n mod t_front t else n mod (2 * t_front t))"

definition bucketAddress :: "('v \<Rightarrow> nat) \<Rightarrow> 'v \<Rightarrow> 'v hash_table \<Rightarrow> nat" where
  "bucketAddress hash v t =
     (let n = hash v in if n mod t_front t \<ge> t_split t then n mod t_front t else n mod (2 * t_front t))"

text \<open>An iterator is the index of a bucket and of an element in it, or \<open>None\<close> for \<open>end()\<close>. \<open>std::find\<close> on a bucket.\<close>

type_synonym position = "(nat \<times> nat) option"

definition std_find :: "('v \<Rightarrow> 'v \<Rightarrow> bool) \<Rightarrow> 'v \<Rightarrow> 'v list \<Rightarrow> nat option" where
  "std_find eq v xs = (let n = length (takeWhile (\<lambda>x. \<not> eq x v) xs) in if n < length xs then Some n else None)"

definition table_find :: "('v \<Rightarrow> nat) \<Rightarrow> ('v \<Rightarrow> 'v \<Rightarrow> bool) \<Rightarrow> 'v \<Rightarrow> 'v hash_table \<Rightarrow> exn + position" where
  "table_find hash eq v t =
     (let addr = bucketAddress hash v t
      in if addr < length (t_buckets t) then Inr (map_option (Pair addr) (std_find eq v (t_buckets t ! addr)))
         else Inl UndefinedBehaviour)"

definition table_count :: "('v \<Rightarrow> nat) \<Rightarrow> ('v \<Rightarrow> 'v \<Rightarrow> bool) \<Rightarrow> 'v \<Rightarrow> 'v hash_table \<Rightarrow> exn + nat" where
  "table_count hash eq v t = map_sum id (\<lambda>p. if p \<noteq> None then 1 else 0) (table_find hash eq v t)"

text \<open>The loop of \<open>split\<close> and \<open>merge\<close> over the elements of the bucket that was taken out.\<close>

fun rehash :: "('v \<Rightarrow> nat) \<Rightarrow> 'v list \<Rightarrow> 'v hash_table \<Rightarrow> 'v hash_table outcome" where
  "rehash hash [] t = Returns t"
| "rehash hash (x # tmp) t =
     (let addr = bucketAddress hash x t
      in if addr < length (t_buckets t)
         then rehash hash tmp (t\<lparr>t_buckets := (t_buckets t)[addr := t_buckets t ! addr @ [x]]\<rparr>)
         else Throws UndefinedBehaviour t)"

definition split :: "('v \<Rightarrow> nat) \<Rightarrow> 'v hash_table \<Rightarrow> 'v hash_table outcome" where
  "split hash t =
     (let t = (if t_split t = t_front t then t\<lparr>t_split := 0, t_front := t_front t * 2\<rparr> else t);
          buckets = t_buckets t @ [[]]
      in if t_split t < length buckets
         then rehash hash (buckets ! t_split t) (t\<lparr>t_buckets := buckets[t_split t := []], t_split := t_split t + 1\<rparr>)
         else Throws UndefinedBehaviour t)"

text \<open>With a front of 1 and nothing split there is only one bucket, which cannot be merged: \<open>_front\<close> would become 0, and
  \<open>_split\<close> would wrap.\<close>

definition merge :: "('v \<Rightarrow> nat) \<Rightarrow> 'v hash_table \<Rightarrow> 'v hash_table outcome" where
  "merge hash t =
     (let t = (if t_split t = 0 then t\<lparr>t_front := t_front t div 2, t_split := t_front t div 2\<rparr> else t)
      in if t_split t = 0 \<or> t_buckets t = [] then Throws UndefinedBehaviour t
         else rehash hash (last (t_buckets t)) (t\<lparr>t_buckets := butlast (t_buckets t), t_split := t_split t - 1\<rparr>))"

text \<open>\<open>insert\<close> gives the table, the position of the element, and whether it is new.\<close>

definition table_insert :: "('v \<Rightarrow> nat) \<Rightarrow> ('v \<Rightarrow> 'v \<Rightarrow> bool) \<Rightarrow> 'v \<Rightarrow> 'v hash_table \<Rightarrow> exn + 'v hash_table \<times> position \<times> bool" where
  "table_insert hash eq v t =
     (let n = hash v; addr = bucketAddressForHash n t
      in if addr < length (t_buckets t) then
           (case std_find eq v (t_buckets t ! addr) of
              Some i \<Rightarrow> Inr (t, Some (addr, i), False)
            | None \<Rightarrow>
                (case split hash t of
                   Throws e t \<Rightarrow> Inl e
                 | Returns t \<Rightarrow>
                     let addr = bucketAddressForHash n t
                     in if addr < length (t_buckets t) then
                          Inr (t\<lparr>t_buckets := (t_buckets t)[addr := t_buckets t ! addr @ [v]], t_size := t_size t + 1\<rparr>,
                            Some (addr, length (t_buckets t ! addr)), True)
                        else Inl UndefinedBehaviour))
         else Inl UndefinedBehaviour)"

definition erase_at :: "('v \<Rightarrow> nat) \<Rightarrow> position \<Rightarrow> 'v hash_table \<Rightarrow> 'v hash_table outcome" where
  "erase_at hash p t =
     (case p of
        None \<Rightarrow> Returns t
      | Some (b, i) \<Rightarrow>
          if b < length (t_buckets t) \<and> i < length (t_buckets t ! b) then
            merge hash (t\<lparr>t_buckets := (t_buckets t)[b := take i (t_buckets t ! b) @ drop (i + 1) (t_buckets t ! b)], t_size := t_size t - 1\<rparr>)
          else Throws UndefinedBehaviour t)"

definition table_erase :: "('v \<Rightarrow> nat) \<Rightarrow> ('v \<Rightarrow> 'v \<Rightarrow> bool) \<Rightarrow> 'v \<Rightarrow> 'v hash_table \<Rightarrow> 'v hash_table outcome" where
  "table_erase hash eq v t = (case table_find hash eq v t of Inl e \<Rightarrow> Throws e t | Inr p \<Rightarrow> erase_at hash p t)"

definition table_clear :: "'v hash_table \<Rightarrow> 'v hash_table" where
  "table_clear t = new_table"

definition table_empty :: "'v hash_table \<Rightarrow> bool" where
  "table_empty t \<longleftrightarrow> t_size t = 0"

definition table_buckets :: "'v hash_table \<Rightarrow> nat" where
  "table_buckets t = length (t_buckets t)"

text \<open>Iteration: the first position of a bucket from \<open>b\<close> on, and the one after \<open>(b, i)\<close>.\<close>

fun first_from :: "nat \<Rightarrow> 'v list list \<Rightarrow> position" where
  "first_from b [] = None"
| "first_from b (xs # rest) = (if xs = [] then first_from (b + 1) rest else Some (b, 0))"

definition table_begin :: "'v hash_table \<Rightarrow> position" where
  "table_begin t = first_from 0 (t_buckets t)"

definition next_position :: "'v hash_table \<Rightarrow> position \<Rightarrow> position" where
  "next_position t p =
     (case p of
        None \<Rightarrow> None
      | Some (b, i) \<Rightarrow>
          if i + 1 < length (t_buckets t ! b) then Some (b, i + 1) else first_from (b + 1) (drop (b + 1) (t_buckets t)))"

fun walk :: "nat \<Rightarrow> 'v hash_table \<Rightarrow> position \<Rightarrow> 'v list" where
  "walk 0 t p = []"
| "walk (Suc n) t p = (case p of None \<Rightarrow> [] | Some (b, i) \<Rightarrow> t_buckets t ! b ! i # walk n t (next_position t p))"

section \<open>The invariant\<close>

text \<open>Every element is in the bucket of its address, no two elements of a bucket are equal, and there is one bucket more than there are
  elements. The number of buckets is \<open>front + split\<close> with \<open>front\<close> a power of two.\<close>

definition addresses :: "('v \<Rightarrow> nat) \<Rightarrow> 'v hash_table \<Rightarrow> bool" where
  "addresses hash t \<longleftrightarrow> (\<forall>b < length (t_buckets t). \<forall>x \<in> set (t_buckets t ! b). bucketAddress hash x t = b)"

definition geometry :: "'v hash_table \<Rightarrow> bool" where
  "geometry t \<longleftrightarrow> (\<exists>k. t_front t = 2 ^ k) \<and> t_split t \<le> t_front t \<and> length (t_buckets t) = t_front t + t_split t"

definition elems :: "'v hash_table \<Rightarrow> 'v multiset" where
  "elems t = mset (concat (t_buckets t))"

text \<open>No two elements of a multiset are equal.\<close>

definition apart :: "('v \<Rightarrow> 'v \<Rightarrow> bool) \<Rightarrow> 'v multiset \<Rightarrow> bool" where
  "apart eq M \<longleftrightarrow> (\<forall>x \<in># M. \<forall>y \<in># M - {#x#}. \<not> eq x y)"

definition table_inv :: "('v \<Rightarrow> nat) \<Rightarrow> ('v \<Rightarrow> 'v \<Rightarrow> bool) \<Rightarrow> 'v hash_table \<Rightarrow> bool" where
  "table_inv hash eq t \<longleftrightarrow> geometry t \<and> addresses hash t \<and> apart eq (elems t)
     \<and> t_size t = size (elems t) \<and> length (t_buckets t) = t_size t + 1"

lemma new_table_inv: "table_inv hash eq new_table"
proof -
  have "\<exists>k. Suc 0 = 2 ^ k" by (rule exI [of _ 0]) simp
  then show ?thesis by (simp add: table_inv_def new_table_def geometry_def addresses_def elems_def apart_def)
qed

lemma mod_double: "0 < f \<Longrightarrow> n mod (2 * f) = n mod f \<or> n mod (2 * f) = n mod f + (f :: nat)"
  using mod_mult2_eq [of n f 2] by (auto simp: mult.commute)

lemma address_less: "geometry t \<Longrightarrow> bucketAddress hash v t < length (t_buckets t)"
proof -
  assume g: "geometry t"
  have "0 < t_front t" using g by (auto simp: geometry_def)
  moreover from mod_double [OF this, of "hash v"]
  have "hash v mod (2 * t_front t) = hash v mod t_front t \<or> hash v mod (2 * t_front t) = hash v mod t_front t + t_front t" .
  moreover have "hash v mod t_front t < t_front t" using \<open>0 < t_front t\<close> by simp
  ultimately show ?thesis using g unfolding bucketAddress_def geometry_def Let_def by auto
qed

lemma address_for_hash [simp]: "bucketAddressForHash (hash v) t = bucketAddress hash v t"
  by (simp add: bucketAddressForHash_def bucketAddress_def)

lemma address_cong: "t_split t = t_split t' \<Longrightarrow> t_front t = t_front t' \<Longrightarrow> bucketAddress hash v t = bucketAddress hash v t'"
  by (simp add: bucketAddress_def Let_def)

lemma address_update [simp]:
  "bucketAddress hash v (t\<lparr>t_buckets := bs\<rparr>) = bucketAddress hash v t" "bucketAddress hash v (t\<lparr>t_size := n\<rparr>) = bucketAddress hash v t"
  by (rule address_cong; simp)+

lemma addressesD: "addresses hash t \<Longrightarrow> b < length (t_buckets t) \<Longrightarrow> x \<in> set (t_buckets t ! b) \<Longrightarrow> bucketAddress hash x t = b"
  by (simp add: addresses_def)

lemma mset_concat_update:
  "b < length xss \<Longrightarrow> mset (concat (xss[b := xss ! b @ ys])) = mset (concat xss) + mset ys"
  by (induction xss arbitrary: b) (auto split: nat.split)

lemma mset_concat_replace:
  "b < length xss \<Longrightarrow> mset (concat (xss[b := ys])) + mset (xss ! b) = mset (concat xss) + mset ys"
  by (induction xss arbitrary: b) (auto split: nat.split simp: union_ac)

section \<open>Splitting and merging\<close>

text \<open>One more element in the bucket of its address.\<close>

lemma push_addresses:
  assumes "addresses hash t" "bucketAddress hash x t = b" "b < length (t_buckets t)"
  shows "addresses hash (t\<lparr>t_buckets := (t_buckets t)[b := t_buckets t ! b @ [x]]\<rparr>)"
  using assms unfolding addresses_def by (auto simp: nth_list_update)

lemma rehash_keeps:
  assumes "geometry t" "addresses hash t"
  shows "\<exists>t'. rehash hash tmp t = Returns t' \<and> geometry t' \<and> addresses hash t' \<and> elems t' = elems t + mset tmp
    \<and> length (t_buckets t') = length (t_buckets t) \<and> t_size t' = t_size t"
  using assms
proof (induction tmp arbitrary: t)
  case (Cons x tmp)
  let ?a = "bucketAddress hash x t"
  let ?t = "t\<lparr>t_buckets := (t_buckets t)[?a := t_buckets t ! ?a @ [x]]\<rparr>"
  have a: "?a < length (t_buckets t)" by (rule address_less) (rule Cons.prems)
  have "geometry ?t" using Cons.prems by (simp add: geometry_def)
  moreover have "addresses hash ?t" using push_addresses [OF Cons.prems(2) _ a] by simp
  ultimately obtain t' where t': "rehash hash tmp ?t = Returns t' \<and> geometry t' \<and> addresses hash t' \<and> elems t' = elems ?t + mset tmp
    \<and> length (t_buckets t') = length (t_buckets ?t) \<and> t_size t' = t_size ?t" using Cons.IH by blast
  moreover have "elems ?t = elems t + {#x#}" using mset_concat_update [OF a, of "[x]"] by (simp add: elems_def)
  ultimately show ?case using a by simp
qed simp

text \<open>A front whose buckets are all split is a doubled front with none split.\<close>

lemma address_double:
  assumes "t_split t = t_front t" "0 < t_front t" "t_split t' = 0" "t_front t' = 2 * t_front t"
  shows "bucketAddress hash v t = bucketAddress hash v t'"
proof -
  have "\<not> t_front t \<le> hash v mod t_front t" using assms(2) by (simp add: not_le)
  then show ?thesis using assms by (simp add: bucketAddress_def Let_def)
qed

text \<open>Splitting one bucket more changes the addresses of its elements only.\<close>

lemma address_next:
  assumes "t_front t' = t_front t" "t_split t' = t_split t + 1" "t_split t < t_front t" "hash v mod t_front t \<noteq> t_split t"
  shows "bucketAddress hash v t' = bucketAddress hash v t"
  using assms by (auto simp: bucketAddress_def Let_def)

definition kept :: "('v \<Rightarrow> nat) \<Rightarrow> 'v hash_table \<Rightarrow> 'v hash_table \<Rightarrow> bool" where
  "kept hash t t' \<longleftrightarrow> geometry t' \<and> addresses hash t' \<and> elems t' = elems t \<and> t_size t' = t_size t"

lemma split_keeps:
  assumes "geometry t" "addresses hash t"
  shows "\<exists>t'. split hash t = Returns t' \<and> kept hash t t' \<and> length (t_buckets t') = length (t_buckets t) + 1"
proof -
  define t1 where "t1 = (if t_split t = t_front t then t\<lparr>t_split := 0, t_front := t_front t * 2\<rparr> else t)"
  let ?n = "length (t_buckets t)" and ?s = "t_split t1"
  let ?u = "t1\<lparr>t_buckets := (t_buckets t @ [[]])[?s := []], t_split := ?s + 1\<rparr>"
  obtain k where k: "t_front t = 2 ^ k" using assms(1) by (auto simp: geometry_def)
  have t1: "t_buckets t1 = t_buckets t" "t_size t1 = t_size t" by (simp_all add: t1_def)
  have "t_front t1 = 2 ^ (if t_split t = t_front t then Suc k else k)" using k by (simp add: t1_def)
  then have g: "?s < t_front t1" "?n = t_front t1 + ?s" "\<exists>k. t_front t1 = 2 ^ k"
    using assms(1) k by (auto simp: geometry_def t1_def)
  have same: "bucketAddress hash x t1 = bucketAddress hash x t" for x
    using address_double [of t t1 hash x] k by (auto simp: t1_def)
  have b: "?s < ?n" using g by simp
  have "geometry ?u" using g by (simp add: geometry_def)
  moreover have "addresses hash ?u" unfolding addresses_def
  proof (intro allI impI ballI)
    fix b x assume bx: "b < length (t_buckets ?u)" "x \<in> set (t_buckets ?u ! b)"
    then have x: "b \<noteq> ?s" "b < ?n" "x \<in> set (t_buckets t ! b)" using b by (auto simp: nth_list_update nth_append split: if_splits)
    then have a: "bucketAddress hash x t1 = b" using addressesD [OF assms(2)] same by simp
    have "hash x mod t_front t1 \<noteq> ?s" using x(1) a unfolding bucketAddress_def Let_def by auto
    then show "bucketAddress hash x ?u = b" using address_next [of ?u t1 hash x] g a by simp
  qed
  ultimately obtain t' where t': "rehash hash (t_buckets t ! ?s) ?u = Returns t'" "geometry t'" "addresses hash t'" "elems t' = elems ?u + mset (t_buckets t ! ?s)"
    "length (t_buckets t') = length (t_buckets ?u)" "t_size t' = t_size ?u" using rehash_keeps [of ?u hash "t_buckets t ! ?s"] by blast
  moreover have "(t_buckets t @ [[]]) ! ?s = t_buckets t ! ?s" using b by (simp add: nth_append)
  then have "split hash t = rehash hash (t_buckets t ! ?s) ?u" using b t1 unfolding split_def t1_def [symmetric] Let_def by simp
  moreover have "elems ?u + mset (t_buckets t ! ?s) = elems t"
    using mset_concat_replace [OF b, of "[]"] b by (simp add: elems_def list_update_append)
  ultimately show ?thesis using t1 by (simp add: kept_def)
qed

lemma merge_keeps:
  assumes "geometry t" "addresses hash t" "1 < length (t_buckets t)"
  shows "\<exists>t'. merge hash t = Returns t' \<and> kept hash t t' \<and> length (t_buckets t') + 1 = length (t_buckets t)"
proof -
  define t1 where "t1 = (if t_split t = 0 then t\<lparr>t_front := t_front t div 2, t_split := t_front t div 2\<rparr> else t)"
  let ?u = "t1\<lparr>t_buckets := butlast (t_buckets t), t_split := t_split t1 - 1\<rparr>"
  obtain k where k: "t_front t = 2 ^ k" using assms(1) by (auto simp: geometry_def)
  have "k \<noteq> 0" if "t_split t = 0"
  proof
    assume "k = 0"
    then show False using assms(1,3) k that by (simp add: geometry_def)
  qed
  then obtain j where j: "t_split t = 0 \<Longrightarrow> k = Suc j" by (cases k) auto
  have t1: "t_buckets t1 = t_buckets t" "t_size t1 = t_size t" by (simp_all add: t1_def)
  have "t_front t1 = 2 ^ (if t_split t = 0 then j else k)" using k j by (simp add: t1_def)
  then have g: "0 < t_split t1" "t_split t1 \<le> t_front t1" "length (t_buckets t) = t_front t1 + t_split t1" "\<exists>k. t_front t1 = 2 ^ k"
    using assms(1) k j by (auto simp: geometry_def t1_def)
  have same: "bucketAddress hash x t1 = bucketAddress hash x t" for x
    using address_double [of t1 t hash x] k j by (auto simp: t1_def)
  have ne: "t_buckets t \<noteq> []" using assms(3) by auto
  have "geometry ?u" using g by (simp add: geometry_def)
  moreover have "addresses hash ?u" unfolding addresses_def
  proof (intro allI impI ballI)
    fix b x assume bx: "b < length (t_buckets ?u)" "x \<in> set (t_buckets ?u ! b)"
    then have "x \<in> set (t_buckets t ! b)" "b < t_front t1 + t_split t1 - 1" using g by (auto simp: nth_butlast)
    then have x: "bucketAddress hash x t1 = b" "b < t_front t1 + t_split t1 - 1" using addressesD [OF assms(2), of b x] same g by auto
    show "bucketAddress hash x ?u = b"
    proof (cases "hash x mod t_front t1 = t_split t1 - 1")
      case True
      then have "b = hash x mod (2 * t_front t1)" using x(1) g unfolding bucketAddress_def Let_def by auto
      then have "b = t_split t1 - 1" using mod_double [of "t_front t1" "hash x"] True x(2) g by auto
      then show ?thesis using True unfolding bucketAddress_def Let_def by simp
    next
      case False
      then show ?thesis using address_next [of t1 ?u hash x] g x(1) by simp
    qed
  qed
  ultimately obtain t' where t': "rehash hash (last (t_buckets t)) ?u = Returns t'" "geometry t'" "addresses hash t'" "elems t' = elems ?u + mset (last (t_buckets t))"
    "length (t_buckets t') = length (t_buckets ?u)" "t_size t' = t_size ?u" using rehash_keeps [of ?u hash "last (t_buckets t)"] by blast
  moreover have "merge hash t = rehash hash (last (t_buckets t)) ?u" using g ne t1 unfolding merge_def t1_def [symmetric] Let_def by simp
  moreover have "concat (t_buckets t) = concat (butlast (t_buckets t)) @ last (t_buckets t)"
    using append_butlast_last_id [OF ne] by (metis concat_append concat.simps append_Nil2)
  then have "elems ?u + mset (last (t_buckets t)) = elems t" by (simp add: elems_def)
  ultimately show ?thesis using ne t1 by (simp add: kept_def)
qed

section \<open>The operations\<close>

text \<open>What the table asks of its values: equality is an equivalence that the hash function respects.\<close>

locale hashed =
  fixes hash :: "'v \<Rightarrow> nat" and eq :: "'v \<Rightarrow> 'v \<Rightarrow> bool"
  assumes eq_refl: "eq x x"
    and eq_sym: "eq x y \<Longrightarrow> eq y x"
    and eq_trans: "eq x y \<Longrightarrow> eq y z \<Longrightarrow> eq x z"
    and eq_hash: "eq x y \<Longrightarrow> hash x = hash y"
begin

lemma std_find_Some: "std_find eq v xs = Some i \<Longrightarrow> i < length xs \<and> eq (xs ! i) v"
  using nth_length_takeWhile [of "\<lambda>x. \<not> eq x v" xs] by (auto simp: std_find_def Let_def split: if_splits)

lemma std_find_None: "std_find eq v xs = None \<longleftrightarrow> (\<forall>x \<in> set xs. \<not> eq x v)"
proof -
  have "length (takeWhile (\<lambda>x. \<not> eq x v) xs) < length xs \<longleftrightarrow> (\<exists>x \<in> set xs. eq x v)" by (induction xs) auto
  then show ?thesis by (auto simp: std_find_def Let_def)
qed

lemma elems_bucket: "x \<in># elems t \<longleftrightarrow> (\<exists>b < length (t_buckets t). x \<in> set (t_buckets t ! b))"
  unfolding elems_def set_mset_mset set_concat by (auto simp: set_conv_nth [of "t_buckets t"])

lemma find_None:
  assumes "table_inv hash eq t"
  shows "table_find hash eq v t = Inr None \<longleftrightarrow> (\<forall>x \<in># elems t. \<not> eq x v)"
proof -
  let ?a = "bucketAddress hash v t"
  have a: "?a < length (t_buckets t)" using assms by (intro address_less) (simp add: table_inv_def)
  have "b = ?a" if "b < length (t_buckets t)" "x \<in> set (t_buckets t ! b)" "eq x v" for b x
    using addressesD [of hash t b x] that eq_hash [OF that(3)] assms by (simp add: table_inv_def bucketAddress_def)
  then have "(\<forall>x \<in># elems t. \<not> eq x v) \<longleftrightarrow> (\<forall>x \<in> set (t_buckets t ! ?a). \<not> eq x v)"
    using a by (auto simp: elems_bucket)
  then show ?thesis using a by (simp add: table_find_def Let_def std_find_None)
qed

lemma find_Some:
  assumes "table_inv hash eq t" "table_find hash eq v t = Inr (Some (b, i))"
  shows "b = bucketAddress hash v t" "b < length (t_buckets t)" "i < length (t_buckets t ! b)" "eq (t_buckets t ! b ! i) v"
    "std_find eq v (t_buckets t ! b) = Some i"
  using assms(2) std_find_Some [of v "t_buckets t ! b" i] unfolding table_find_def Let_def by (auto split: if_splits)

lemma find_total:
  assumes "table_inv hash eq t"
  obtains "table_find hash eq v t = Inr None" | b i where "table_find hash eq v t = Inr (Some (b, i))"
proof -
  have "bucketAddress hash v t < length (t_buckets t)" using assms by (intro address_less) (simp add: table_inv_def)
  then have "\<exists>p. table_find hash eq v t = Inr p" unfolding table_find_def Let_def by simp
  then show ?thesis using that by (metis option.exhaust surj_pair)
qed

lemma apart_add: "apart eq M \<Longrightarrow> \<forall>x \<in># M. \<not> eq x v \<Longrightarrow> apart eq (add_mset v M)"
  unfolding apart_def
proof (intro ballI)
  fix x y assume a: "\<forall>x \<in># M. \<forall>y \<in># M - {#x#}. \<not> eq x y" "\<forall>x \<in># M. \<not> eq x v" and x: "x \<in># add_mset v M" "y \<in># add_mset v M - {#x#}"
  show "\<not> eq x y"
  proof (cases "x = v")
    case True
    then show ?thesis using a(2) x(2) eq_sym by auto
  next
    case False
    then have "x \<in># M" "y = v \<or> y \<in># M - {#x#}" using x False by (auto simp: diff_union_swap [OF False [symmetric]])
    then show ?thesis using a by blast
  qed
qed

lemma apart_remove: "apart eq M \<Longrightarrow> apart eq (M - N)"
  unfolding apart_def
proof (intro ballI)
  fix x y assume a: "\<forall>x \<in># M. \<forall>y \<in># M - {#x#}. \<not> eq x y" and x: "x \<in># M - N" "y \<in># M - N - {#x#}"
  have "M - N - {#x#} = M - {#x#} - N" by (rule diff_right_commute)
  then have "y \<in># M - {#x#}" "x \<in># M" using x in_diffD by metis+
  then show "\<not> eq x y" using a by blast
qed

lemma insert_old:
  assumes "table_inv hash eq t" "table_find hash eq v t = Inr (Some p)"
  shows "table_insert hash eq v t = Inr (t, Some p, False)"
proof -
  obtain b i where p: "p = (b, i)" by (cases p)
  then show ?thesis using find_Some [OF assms(1), of v b i] assms(2) by (simp add: table_insert_def Let_def)
qed

lemma insert_new:
  assumes "table_inv hash eq t" "table_find hash eq v t = Inr None"
  shows "\<exists>t' b i. table_insert hash eq v t = Inr (t', Some (b, i), True) \<and> table_inv hash eq t' \<and> elems t' = add_mset v (elems t)
    \<and> b < length (t_buckets t') \<and> i < length (t_buckets t' ! b) \<and> t_buckets t' ! b ! i = v"
proof -
  let ?a = "bucketAddress hash v t"
  have a: "?a < length (t_buckets t)" using assms by (intro address_less) (simp add: table_inv_def)
  have n: "std_find eq v (t_buckets t ! ?a) = None" using assms(2) a by (simp add: table_find_def Let_def)
  have t: "geometry t" "addresses hash t" "apart eq (elems t)" and sz: "t_size t = size (elems t)" "length (t_buckets t) = t_size t + 1"
    using assms(1) unfolding table_inv_def by blast+
  obtain t1 where t1: "split hash t = Returns t1" "kept hash t t1" "length (t_buckets t1) = length (t_buckets t) + 1"
    using split_keeps [OF t(1,2)] by blast
  then have k: "geometry t1" "addresses hash t1" "elems t1 = elems t" "t_size t1 = t_size t" unfolding kept_def by blast+
  let ?b = "bucketAddress hash v t1"
  define t2 where "t2 = t1\<lparr>t_buckets := (t_buckets t1)[?b := t_buckets t1 ! ?b @ [v]], t_size := t_size t1 + 1\<rparr>"
  have b: "?b < length (t_buckets t1)" using k(1) by (rule address_less)
  have e: "elems t2 = add_mset v (elems t)" using mset_concat_update [OF b, of "[v]"] k(3) by (simp add: elems_def t2_def)
  have "addresses hash t2 \<longleftrightarrow> addresses hash (t1\<lparr>t_buckets := (t_buckets t1)[?b := t_buckets t1 ! ?b @ [v]]\<rparr>)"
    unfolding addresses_def t2_def by simp
  then have "addresses hash t2" using push_addresses [OF k(2) refl b] by blast
  moreover have "geometry t2" using k(1) by (simp add: t2_def geometry_def)
  moreover have "apart eq (elems t2)" unfolding e using apart_add [OF t(3)] find_None [OF assms(1)] assms(2) by blast
  moreover have "t_size t2 = size (elems t2)" unfolding e using k(4) sz(1) by (simp add: t2_def)
  moreover have "length (t_buckets t2) = t_size t2 + 1" using k(4) t1(3) sz(2) by (simp add: t2_def)
  ultimately have "table_inv hash eq t2" unfolding table_inv_def by blast
  moreover have "table_insert hash eq v t = Inr (t2, Some (?b, length (t_buckets t1 ! ?b)), True)"
    using a n t1(1) b by (simp add: table_insert_def Let_def t2_def)
  moreover have "?b < length (t_buckets t2)" "length (t_buckets t1 ! ?b) < length (t_buckets t2 ! ?b)"
    "t_buckets t2 ! ?b ! length (t_buckets t1 ! ?b) = v" using b by (simp_all add: t2_def)
  ultimately show ?thesis using e by blast
qed

lemma erase_position:
  assumes "table_inv hash eq t" "b < length (t_buckets t)" "i < length (t_buckets t ! b)"
  shows "\<exists>t'. erase_at hash (Some (b, i)) t = Returns t' \<and> table_inv hash eq t' \<and> elems t' = elems t - {#t_buckets t ! b ! i#}"
proof -
  let ?xs = "t_buckets t ! b"
  let ?ys = "take i ?xs @ drop (i + 1) ?xs"
  let ?t = "t\<lparr>t_buckets := (t_buckets t)[b := ?ys], t_size := t_size t - 1\<rparr>"
  have "mset ?xs = add_mset (?xs ! i) (mset ?ys)"
    using assms(3) by (metis Suc_eq_plus1 id_take_nth_drop mset_append mset.simps(2) union_mset_add_mset_right)
  then have e: "elems t = add_mset (?xs ! i) (elems ?t)"
    using mset_concat_replace [OF assms(2), of ?ys] by (simp add: elems_def)
  have ys: "set ?ys \<subseteq> set ?xs" using set_take_subset [of i ?xs] set_drop_subset [of "i + 1" ?xs] by simp
  have "addresses hash ?t" unfolding addresses_def
  proof (intro allI impI ballI)
    fix c x assume c: "c < length (t_buckets ?t)" "x \<in> set (t_buckets ?t ! c)"
    then have "x \<in> set (t_buckets t ! c)" using ys by (cases "c = b") auto
    then show "bucketAddress hash x ?t = c" using c(1) addressesD [of hash t c x] assms(1) by (simp add: table_inv_def)
  qed
  moreover have "geometry ?t" using assms(1) by (simp add: table_inv_def geometry_def)
  moreover have "1 < length (t_buckets ?t)" using assms(1) e by (simp add: table_inv_def)
  ultimately obtain t' where t': "merge hash ?t = Returns t'" "kept hash ?t t'" "length (t_buckets t') + 1 = length (t_buckets ?t)"
    using merge_keeps [of ?t hash] by blast
  define u where "u = ?t"
  have u: "elems t = add_mset (?xs ! i) (elems u)" "kept hash u t'" "t_size u = t_size t - 1" "length (t_buckets u) = length (t_buckets t)"
    using e t'(2) by (simp_all add: u_def)
  then have e': "elems t = add_mset (?xs ! i) (elems t')" by (simp add: kept_def)
  have "apart eq (elems t - {#?xs ! i#})" using apart_remove assms(1) unfolding table_inv_def by blast
  then have "apart eq (elems t')" by (simp add: e')
  moreover have "t_size t' = size (elems t')" "length (t_buckets t') = t_size t' + 1"
    using u(2-4) t'(3) e' assms(1) unfolding table_inv_def kept_def u_def [symmetric] by auto
  moreover have "erase_at hash (Some (b, i)) t = Returns t'" using assms(2,3) t'(1) by (simp add: erase_at_def)
  ultimately show ?thesis using u(2) e' by (simp add: table_inv_def kept_def)
qed

lemma erase_old:
  assumes "table_inv hash eq t" "x \<in># elems t" "eq x v"
  shows "\<exists>t'. table_erase hash eq v t = Returns t' \<and> table_inv hash eq t' \<and> elems t' = elems t - {#x#}"
  using assms(1)
proof (cases rule: find_total [where v = v])
  case 1
  then show ?thesis using find_None [OF assms(1)] assms(2,3) by blast
next
  case (2 b i)
  note f = find_Some [OF assms(1) 2]
  have m: "t_buckets t ! b ! i \<in># elems t" unfolding elems_bucket using f(2,3) by (intro exI [of _ b]) simp
  have "t_buckets t ! b ! i = x"
  proof (rule ccontr)
    assume ne: "t_buckets t ! b ! i \<noteq> x"
    then have "t_buckets t ! b ! i \<in># elems t - {#x#}" using m ne by (simp add: in_diff_count)
    moreover have "eq x (t_buckets t ! b ! i)" using eq_trans [OF assms(3) eq_sym [OF f(4)]] .
    ultimately show False using assms(1,2) unfolding table_inv_def apart_def by blast
  qed
  then show ?thesis using erase_position [OF assms(1) f(2,3)] 2 by (simp add: table_erase_def)
qed

lemma erase_none:
  assumes "table_inv hash eq t" "\<forall>x \<in># elems t. \<not> eq x v"
  shows "table_erase hash eq v t = Returns t"
  using find_None [OF assms(1), of v] assms(2) by (simp add: table_erase_def erase_at_def)

end

section \<open>Iteration\<close>

lemma first_from_drop:
  assumes "b \<le> length bs"
  shows "(\<exists>c. b \<le> c \<and> c < length bs \<and> first_from b (drop b bs) = Some (c, 0) \<and> bs ! c \<noteq> [] \<and> concat (drop b bs) = concat (drop c bs))
    \<or> first_from b (drop b bs) = None \<and> concat (drop b bs) = []"
  using assms
proof (induction "length bs - b" arbitrary: b)
  case (Suc n)
  then have d: "drop b bs = bs ! b # drop (Suc b) bs" "Suc b \<le> length bs" "n = length bs - Suc b" by (auto simp: Cons_nth_drop_Suc)
  show ?case
  proof (cases "bs ! b = []")
    case True
    then show ?thesis using Suc.hyps(1) [OF d(3,2)] d(1) Suc_leD by fastforce
  next
    case False
    then show ?thesis using d by auto
  qed
qed simp

lemma walk_end [simp]: "walk n t None = []"
  by (cases n) simp_all

lemma walk_from:
  assumes "b < length (t_buckets t)" "i < length (t_buckets t ! b)" "n = length (drop i (t_buckets t ! b) @ concat (drop (Suc b) (t_buckets t)))"
  shows "walk n t (Some (b, i)) = drop i (t_buckets t ! b) @ concat (drop (Suc b) (t_buckets t))"
  using assms
proof (induction n arbitrary: b i)
  case (Suc n)
  let ?bs = "t_buckets t"
  have x: "drop i (?bs ! b) = ?bs ! b ! i # drop (Suc i) (?bs ! b)" using Suc.prems(2) by (simp add: Cons_nth_drop_Suc)
  show ?case
  proof (cases "Suc i < length (?bs ! b)")
    case True
    then show ?thesis using Suc.IH [OF Suc.prems(1) True] Suc.prems(3) x by (simp add: next_position_def)
  next
    case False
    then have np: "next_position t (Some (b, i)) = first_from (Suc b) (drop (Suc b) ?bs)" "drop (Suc i) (?bs ! b) = []" by (simp_all add: next_position_def)
    consider c where "c < length ?bs" "first_from (Suc b) (drop (Suc b) ?bs) = Some (c, 0)" "?bs ! c \<noteq> []" "concat (drop (Suc b) ?bs) = concat (drop c ?bs)"
      | "first_from (Suc b) (drop (Suc b) ?bs) = None" "concat (drop (Suc b) ?bs) = []"
      using first_from_drop [of "Suc b" ?bs] Suc.prems(1) by auto
    then show ?thesis
    proof cases
      case 1
      then have d: "concat (drop (Suc b) ?bs) = drop 0 (?bs ! c) @ concat (drop (Suc c) ?bs)" by (metis Cons_nth_drop_Suc concat.simps(2) drop0)
      then have "walk n t (Some (c, 0)) = drop 0 (?bs ! c) @ concat (drop (Suc c) ?bs)"
        using Suc.IH [of c 0] 1(1,3) Suc.prems(3) x np(2) by simp
      then show ?thesis using np 1(2) x d by simp
    next
      case 2
      then show ?thesis using np x Suc.prems(3) by (simp del: concat_eq_Nil_conv)
    qed
  qed
qed simp

lemma walk_all: "walk (length (concat (t_buckets t))) t (table_begin t) = concat (t_buckets t)"
proof -
  let ?bs = "t_buckets t"
  consider c where "c < length ?bs" "table_begin t = Some (c, 0)" "?bs ! c \<noteq> []" "concat ?bs = concat (drop c ?bs)"
    | "table_begin t = None" "concat ?bs = []"
    using first_from_drop [of 0 ?bs] by (auto simp: table_begin_def)
  then show ?thesis
  proof cases
    case 1
    then have "concat ?bs = drop 0 (?bs ! c) @ concat (drop (Suc c) ?bs)" by (metis Cons_nth_drop_Suc concat.simps(2) drop0)
    then show ?thesis using walk_from [of c t 0 "length (concat ?bs)"] 1 by simp
  next
    case 2
    then show ?thesis by (simp del: concat_eq_Nil_conv)
  qed
qed

end
