(* ===== verification/HashMap.thy ===== *)
theory HashMap
  imports LinearHashTable
begin

text \<open>
  \<open>Poco::HashMap\<close> and \<open>Poco::HashSet\<close> (\<open>include/Poco/HashMap.h\<close>, \<open>HashSet.h\<close>) over \<open>LinearHashTable\<close>: the interface \<open>hashed\<close> interpreted for
  values and for entries compared by key, the operations of the map, and the refinement of maps and sets by sequences of operations.
\<close>

section \<open>Sets and maps\<close>

text \<open>\<open>HashSet\<close> compares its values, \<open>HashMap\<close> the keys of its entries.\<close>

interpretation set_values: hashed hash "(=)" for hash :: "'v \<Rightarrow> nat"
  by unfold_locales simp_all

definition entry_hash :: "('k \<Rightarrow> nat) \<Rightarrow> 'k \<times> 'm \<Rightarrow> nat" where
  "entry_hash hash e = hash (fst e)"

definition entry_equal :: "'k \<times> 'm \<Rightarrow> 'k \<times> 'm \<Rightarrow> bool" where
  "entry_equal e f \<longleftrightarrow> fst e = fst f"

interpretation map_entries: hashed "entry_hash hash" "entry_equal :: 'k \<times> 'm \<Rightarrow> 'k \<times> 'm \<Rightarrow> bool" for hash :: "'k \<Rightarrow> nat"
  by unfold_locales (simp_all add: entry_hash_def entry_equal_def)

text \<open>\<open>HashMap\<close>; \<open>d\<close> is \<open>Mapped()\<close>.\<close>

definition hashmap_find :: "('k \<Rightarrow> nat) \<Rightarrow> 'm \<Rightarrow> 'k \<Rightarrow> ('k \<times> 'm) hash_table \<Rightarrow> exn + position" where
  "hashmap_find hash d key t = table_find (entry_hash hash) entry_equal (key, d) t"

definition hashmap_count :: "('k \<Rightarrow> nat) \<Rightarrow> 'm \<Rightarrow> 'k \<Rightarrow> ('k \<times> 'm) hash_table \<Rightarrow> exn + nat" where
  "hashmap_count hash d key t = map_sum id (\<lambda>p. if p \<noteq> None then 1 else 0) (hashmap_find hash d key t)"

definition hashmap_insert :: "('k \<Rightarrow> nat) \<Rightarrow> 'k \<times> 'm \<Rightarrow> ('k \<times> 'm) hash_table \<Rightarrow> exn + ('k \<times> 'm) hash_table \<times> position \<times> bool" where
  "hashmap_insert hash e t = table_insert (entry_hash hash) entry_equal e t"

definition hashmap_erase :: "('k \<Rightarrow> nat) \<Rightarrow> 'm \<Rightarrow> 'k \<Rightarrow> ('k \<times> 'm) hash_table \<Rightarrow> ('k \<times> 'm) hash_table outcome" where
  "hashmap_erase hash d key t =
     (case hashmap_find hash d key t of Inl e \<Rightarrow> Throws e t | Inr p \<Rightarrow> erase_at (entry_hash hash) p t)"

text \<open>\<open>operator []\<close> of a constant map, of a map that may change, and an assignment to the reference that it gives.\<close>

definition hashmap_at :: "('k \<Rightarrow> nat) \<Rightarrow> 'm \<Rightarrow> 'k \<Rightarrow> ('k \<times> 'm) hash_table \<Rightarrow> exn + 'm" where
  "hashmap_at hash d key t =
     (case table_find (entry_hash hash) entry_equal (key, d) t of
        Inl e \<Rightarrow> Inl e
      | Inr None \<Rightarrow> Inl (NotFoundException [])
      | Inr (Some (b, i)) \<Rightarrow> Inr (snd (t_buckets t ! b ! i)))"

definition hashmap_ref :: "('k \<Rightarrow> nat) \<Rightarrow> 'm \<Rightarrow> 'k \<Rightarrow> ('k \<times> 'm) hash_table \<Rightarrow> exn + ('k \<times> 'm) hash_table \<times> position" where
  "hashmap_ref hash d key t =
     map_sum id (\<lambda>(t, p, new). (t, p)) (table_insert (entry_hash hash) entry_equal (key, d) t)"

definition store_second :: "position \<Rightarrow> 'm \<Rightarrow> ('k \<times> 'm) hash_table \<Rightarrow> ('k \<times> 'm) hash_table" where
  "store_second p v t =
     (case p of
        None \<Rightarrow> t
      | Some (b, i) \<Rightarrow> t\<lparr>t_buckets := (t_buckets t)[b := (t_buckets t ! b)[i := (fst (t_buckets t ! b ! i), v)]]\<rparr>)"

definition hashmap_assign :: "('k \<Rightarrow> nat) \<Rightarrow> 'm \<Rightarrow> 'k \<Rightarrow> 'm \<Rightarrow> ('k \<times> 'm) hash_table \<Rightarrow> exn + ('k \<times> 'm) hash_table" where
  "hashmap_assign hash d key v t = map_sum id (\<lambda>(t, p). store_second p v t) (hashmap_ref hash d key t)"

text \<open>The map that a table stands for.\<close>

definition map_abs :: "('k \<times> 'm) hash_table \<Rightarrow> ('k \<rightharpoonup> 'm)" where
  "map_abs t = map_of (concat (t_buckets t))"

abbreviation map_inv :: "('k \<Rightarrow> nat) \<Rightarrow> ('k \<times> 'm) hash_table \<Rightarrow> bool" where
  "map_inv hash t \<equiv> table_inv (entry_hash hash) entry_equal t"

lemma apart_distinct: "apart entry_equal (mset xs) \<longleftrightarrow> distinct (map fst xs)"
proof (induction xs)
  case (Cons x xs)
  have "apart entry_equal (mset (x # xs)) \<longleftrightarrow> apart entry_equal (mset xs) \<and> (\<forall>y \<in># mset xs. \<not> entry_equal y x)"
  proof
    assume a: "apart entry_equal (mset (x # xs))"
    then have "apart entry_equal (mset (x # xs) - {#x#})" by (rule map_entries.apart_remove)
    moreover have "\<forall>y \<in># mset xs. \<not> entry_equal x y" using a unfolding apart_def by simp
    ultimately show "apart entry_equal (mset xs) \<and> (\<forall>y \<in># mset xs. \<not> entry_equal y x)" by (simp add: entry_equal_def eq_commute)
  next
    assume "apart entry_equal (mset xs) \<and> (\<forall>y \<in># mset xs. \<not> entry_equal y x)"
    then show "apart entry_equal (mset (x # xs))" using map_entries.apart_add [of "mset xs" x] by simp
  qed
  moreover have "(\<forall>y \<in># mset xs. \<not> entry_equal y x) \<longleftrightarrow> fst x \<notin> fst ` set xs" unfolding entry_equal_def by (auto simp: image_iff)
  ultimately show ?case using Cons.IH by auto
qed (simp add: apart_def)

lemma map_inv_distinct: "map_inv hash t \<Longrightarrow> distinct (map fst (concat (t_buckets t)))"
  by (simp add: table_inv_def elems_def apart_distinct)

lemma map_abs_Some: "map_inv hash t \<Longrightarrow> map_abs t k = Some v \<longleftrightarrow> (k, v) \<in># elems t"
  using map_inv_distinct [of hash t] by (simp add: map_abs_def elems_def map_of_eq_Some_iff)

lemma map_abs_None: "map_inv hash t \<Longrightarrow> map_abs t k = None \<longleftrightarrow> (\<forall>x \<in># elems t. \<not> entry_equal x (k, d))"
  by (auto simp: map_abs_def elems_def map_of_eq_None_iff entry_equal_def image_iff)

lemma map_abs_eqI: "map_inv hash t \<Longrightarrow> (\<And>k v. (k, v) \<in># elems t \<longleftrightarrow> m k = Some v) \<Longrightarrow> map_abs t = m"
  by (rule ext) (metis map_abs_Some option.exhaust)

lemma size_dom: "map_inv hash t \<Longrightarrow> t_size t = card (dom (map_abs t))"
proof -
  assume i: "map_inv hash t"
  have "card (dom (map_abs t)) = card (set (map fst (concat (t_buckets t))))" by (simp add: map_abs_def dom_map_of_conv_image_fst)
  also have "\<dots> = length (concat (t_buckets t))" using distinct_card [OF map_inv_distinct [OF i]] by simp
  finally show ?thesis using i by (simp add: table_inv_def elems_def)
qed

lemma map_find:
  assumes "map_inv hash t"
  shows "(map_abs t k = None \<and> table_find (entry_hash hash) entry_equal (k, d) t = Inr None)
    \<or> (\<exists>b i v. table_find (entry_hash hash) entry_equal (k, d) t = Inr (Some (b, i)) \<and> b < length (t_buckets t)
        \<and> i < length (t_buckets t ! b) \<and> t_buckets t ! b ! i = (k, v) \<and> map_abs t k = Some v)"
  using assms
proof (cases rule: map_entries.find_total [where v = "(k, d)"])
  case 1
  then show ?thesis using map_entries.find_None [OF assms, of "(k, d)"] map_abs_None [OF assms, of k d] by simp
next
  case (2 b i)
  note f = map_entries.find_Some [OF assms 2]
  obtain v where v: "t_buckets t ! b ! i = (k, v)" using f(4) by (cases "t_buckets t ! b ! i") (simp add: entry_equal_def)
  have "(k, v) \<in># elems t" unfolding map_entries.elems_bucket using f(2,3) v nth_mem by metis
  then show ?thesis using 2 f v map_abs_Some [OF assms] by auto
qed

lemma map_at: "map_inv hash t \<Longrightarrow> hashmap_at hash d k t = (case map_abs t k of None \<Rightarrow> Inl (NotFoundException []) | Some v \<Rightarrow> Inr v)"
  using map_find [of hash t k d] by (auto simp: hashmap_at_def)

lemma map_count: "map_inv hash t \<Longrightarrow> hashmap_count hash d k t = Inr (if k \<in> dom (map_abs t) then 1 else 0)"
  using map_find [of hash t k d] by (auto simp: hashmap_count_def hashmap_find_def)

lemma map_insert_step:
  assumes "map_inv hash t"
  shows "\<exists>t' b i. hashmap_insert hash (k, v) t = Inr (t', Some (b, i), map_abs t k = None) \<and> map_inv hash t'
    \<and> b < length (t_buckets t') \<and> i < length (t_buckets t' ! b) \<and> fst (t_buckets t' ! b ! i) = k
    \<and> map_abs t' = (if map_abs t k = None then (map_abs t)(k \<mapsto> v) else map_abs t)"
  using map_find [OF assms, of k v]
proof (elim disjE exE conjE)
  assume n: "map_abs t k = None" and f: "table_find (entry_hash hash) entry_equal (k, v) t = Inr None"
  obtain t' b i where t': "table_insert (entry_hash hash) entry_equal (k, v) t = Inr (t', Some (b, i), True)" "map_inv hash t'"
    "elems t' = add_mset (k, v) (elems t)" "b < length (t_buckets t')" "i < length (t_buckets t' ! b)" "t_buckets t' ! b ! i = (k, v)"
    using map_entries.insert_new [OF assms f] by blast
  have "map_abs t' = (map_abs t)(k \<mapsto> v)" using t'(2)
  proof (rule map_abs_eqI)
    fix k' v' show "(k', v') \<in># elems t' \<longleftrightarrow> ((map_abs t)(k \<mapsto> v)) k' = Some v'"
      using t'(3) n map_abs_Some [OF assms, of k' v'] map_abs_Some [OF assms, of k v'] by auto
  qed
  then show ?thesis using t' n by (auto simp: hashmap_insert_def)
next
  fix b i w assume f: "table_find (entry_hash hash) entry_equal (k, v) t = Inr (Some (b, i))" "b < length (t_buckets t)"
    "i < length (t_buckets t ! b)" "t_buckets t ! b ! i = (k, w)" "map_abs t k = Some w"
  then show ?thesis using map_entries.insert_old [OF assms f(1)] assms by (simp add: hashmap_insert_def)
qed

lemma map_erase_step:
  assumes "map_inv hash t"
  shows "\<exists>t'. hashmap_erase hash d k t = Returns t' \<and> map_inv hash t' \<and> map_abs t' = (map_abs t)(k := None)"
  using map_find [OF assms, of k d]
proof (elim disjE exE conjE)
  assume "map_abs t k = None" "table_find (entry_hash hash) entry_equal (k, d) t = Inr None"
  then show ?thesis using assms by (simp add: hashmap_erase_def hashmap_find_def erase_at_def fun_upd_idem)
next
  fix b i v assume f: "table_find (entry_hash hash) entry_equal (k, d) t = Inr (Some (b, i))" "b < length (t_buckets t)"
    "i < length (t_buckets t ! b)" "t_buckets t ! b ! i = (k, v)" "map_abs t k = Some v"
  obtain t' where t': "erase_at (entry_hash hash) (Some (b, i)) t = Returns t'" "map_inv hash t'" "elems t' = elems t - {#(k, v)#}"
    using map_entries.erase_position [OF assms f(2,3)] f(4) by auto
  have "count (elems t) (k, v) = 1"
    using map_inv_distinct [OF assms] map_abs_Some [OF assms, of k v] f(5) distinct_map [of fst "concat (t_buckets t)"]
    by (simp add: elems_def distinct_count_atmost_1 [of "concat (t_buckets t)"])
  then have "map_abs t' = (map_abs t)(k := None)" using t'(2)
  proof (intro map_abs_eqI)
    fix k' v' show "(k', v') \<in># elems t' \<longleftrightarrow> ((map_abs t)(k := None)) k' = Some v'"
      using t'(3) \<open>count (elems t) (k, v) = 1\<close> map_abs_Some [OF assms, of k' v'] f(5) by (auto simp: in_diff_count)
  qed
  then show ?thesis using t' f(1) by (simp add: hashmap_erase_def hashmap_find_def)
qed

text \<open>Assigning to the second component of an entry keeps the keys of all buckets.\<close>

lemma store_keys: "map (map fst) (t_buckets (store_second p v t)) = map (map fst) (t_buckets t)"
proof (cases p)
  case (Some bi)
  obtain b i where bi: "bi = (b, i)" by (cases bi)
  have "map fst ((t_buckets t ! b)[i := (fst (t_buckets t ! b ! i), v)]) = map fst (t_buckets t ! b)"
    by (cases "i < length (t_buckets t ! b)") (simp_all add: map_update list_update_same_conv list_update_beyond)
  then show ?thesis using Some bi
    by (cases "b < length (t_buckets t)") (simp_all add: store_second_def map_update list_update_same_conv list_update_beyond)
qed (simp add: store_second_def)

lemma keys_inv:
  assumes "map_inv hash t" "map (map fst) (t_buckets t') = map (map fst) (t_buckets t)"
    "t_split t' = t_split t" "t_front t' = t_front t" "t_size t' = t_size t"
  shows "map_inv hash t'"
proof -
  have l: "length (t_buckets t') = length (t_buckets t)" using assms(2) map_eq_imp_length_eq by blast
  have c: "map fst (concat (t_buckets t')) = map fst (concat (t_buckets t))" using assms(2) by (simp add: map_concat)
  have a: "bucketAddress (entry_hash hash) x t' = bucketAddress (entry_hash hash) y t" if "fst x = fst y" for x y
    using that assms(3,4) by (simp add: bucketAddress_def entry_hash_def Let_def)
  have "addresses (entry_hash hash) t'" unfolding addresses_def
  proof (intro allI impI ballI)
    fix b x assume b: "b < length (t_buckets t')" "x \<in> set (t_buckets t' ! b)"
    have "map fst (t_buckets t' ! b) = map fst (t_buckets t ! b)" using assms(2) b(1) l by (metis nth_map)
    then have "fst x \<in> fst ` set (t_buckets t ! b)" using b(2) by (metis image_eqI list.set_map)
    then obtain y where y: "y \<in> set (t_buckets t ! b)" "fst x = fst y" by blast
    then have "bucketAddress (entry_hash hash) y t = b" using addressesD [of "entry_hash hash" t b y] assms(1) b(1) l by (simp add: table_inv_def)
    then show "bucketAddress (entry_hash hash) x t' = b" using a [OF y(2)] by simp
  qed
  moreover have "apart entry_equal (elems t')" using map_inv_distinct [OF assms(1)] c unfolding elems_def apart_distinct by simp
  moreover have "size (elems t') = size (elems t)" unfolding elems_def using c by (metis length_map size_mset)
  moreover have "geometry t'" using assms(1,3,4) l by (simp add: table_inv_def geometry_def)
  ultimately show ?thesis using assms(1,5) l unfolding table_inv_def by simp
qed

lemma mset_exchange:
  assumes "X + A = T + add_mset e (A - {#x#})" "x \<in># A" "x \<in># T"
  shows "X = add_mset e (T - {#x#})"
proof -
  obtain A' T' where "A = add_mset x A'" "T = add_mset x T'" using assms(2,3) multi_member_split by metis
  then show ?thesis using assms(1) by simp
qed

lemma store_elems:
  assumes "b < length (t_buckets t)" "i < length (t_buckets t ! b)"
  shows "elems (store_second (Some (b, i)) v t) = add_mset (fst (t_buckets t ! b ! i), v) (elems t - {#t_buckets t ! b ! i#})"
proof -
  let ?xs = "t_buckets t ! b" and ?e = "(fst (t_buckets t ! b ! i), v)"
  have m: "mset (?xs[i := ?e]) = add_mset ?e (mset ?xs - {#?xs ! i#})" using assms(2) by (rule mset_update)
  have x: "?xs ! i \<in># mset ?xs" using assms(2) by simp
  have "elems (store_second (Some (b, i)) v t) + mset ?xs = elems t + add_mset ?e (mset ?xs - {#?xs ! i#})"
    using mset_concat_replace [OF assms(1), of "?xs[i := ?e]"] m by (simp add: elems_def store_second_def)
  moreover have "?xs ! i \<in># elems t" unfolding map_entries.elems_bucket using assms by (intro exI [of _ b]) simp
  then show ?thesis using mset_exchange [OF calculation x] by simp
qed

lemma map_assign_step:
  assumes "map_inv hash t"
  shows "\<exists>t'. hashmap_assign hash d k v t = Inr t' \<and> map_inv hash t' \<and> map_abs t' = (map_abs t)(k \<mapsto> v)"
proof -
  obtain t1 b i where t1: "hashmap_insert hash (k, d) t = Inr (t1, Some (b, i), map_abs t k = None)" "map_inv hash t1"
    "b < length (t_buckets t1)" "i < length (t_buckets t1 ! b)" "fst (t_buckets t1 ! b ! i) = k"
    "map_abs t1 = (if map_abs t k = None then (map_abs t)(k \<mapsto> d) else map_abs t)" using map_insert_step [OF assms, of k d] by blast
  define t2 where "t2 = store_second (Some (b, i)) v t1"
  have i2: "map_inv hash t2" using keys_inv [OF t1(2) store_keys [of "Some (b, i)" v t1]] by (simp add: t2_def store_second_def)
  have e: "elems t2 = add_mset (k, v) (elems t1 - {#t_buckets t1 ! b ! i#})" unfolding t2_def using store_elems [OF t1(3,4)] t1(5) by simp
  obtain w where w: "t_buckets t1 ! b ! i = (k, w)" using t1(5) by (metis prod.collapse)
  have o: "((map_abs t)(k \<mapsto> v)) k' = ((map_abs t1)(k \<mapsto> v)) k'" for k' using t1(6) by simp
  have "map_abs t2 = (map_abs t)(k \<mapsto> v)" using i2
  proof (rule map_abs_eqI)
    fix k' v'
    have "(k', v') \<in># elems t2 \<Longrightarrow> k' = k \<Longrightarrow> v' = v" using map_abs_Some [OF i2, of k] e by (metis option.inject union_single_eq_member add_mset_add_single)
    then show "(k', v') \<in># elems t2 \<longleftrightarrow> ((map_abs t)(k \<mapsto> v)) k' = Some v'"
      unfolding o using e w map_abs_Some [OF t1(2), of k' v'] by (cases "k' = k") (auto simp: in_diff_count)
  qed
  moreover have "hashmap_assign hash d k v t = Inr t2" using t1(1) by (simp add: hashmap_assign_def hashmap_ref_def hashmap_insert_def t2_def)
  ultimately show ?thesis using i2 by blast
qed

section \<open>Sequences of operations\<close>

datatype ('k, 'm) map_op = Assign 'k 'm | Insert 'k 'm | Erase 'k | Clear

definition map_step :: "('k \<Rightarrow> nat) \<Rightarrow> 'm \<Rightarrow> ('k, 'm) map_op \<Rightarrow> ('k \<times> 'm) hash_table \<Rightarrow> exn + ('k \<times> 'm) hash_table" where
  "map_step hash d x t =
     (case x of
        Assign k v \<Rightarrow> hashmap_assign hash d k v t
      | Insert k v \<Rightarrow> map_sum id fst (hashmap_insert hash (k, v) t)
      | Erase k \<Rightarrow> (case hashmap_erase hash d k t of Returns t \<Rightarrow> Inr t | Throws e t \<Rightarrow> Inl e)
      | Clear \<Rightarrow> Inr (table_clear t))"

fun map_run :: "('k \<Rightarrow> nat) \<Rightarrow> 'm \<Rightarrow> ('k, 'm) map_op list \<Rightarrow> ('k \<times> 'm) hash_table \<Rightarrow> exn + ('k \<times> 'm) hash_table" where
  "map_run hash d [] t = Inr t"
| "map_run hash d (x # xs) t = (case map_step hash d x t of Inl e \<Rightarrow> Inl e | Inr t \<Rightarrow> map_run hash d xs t)"

fun spec_step :: "('k, 'm) map_op \<Rightarrow> ('k \<rightharpoonup> 'm) \<Rightarrow> ('k \<rightharpoonup> 'm)" where
  "spec_step (Assign k v) m = m(k \<mapsto> v)"
| "spec_step (Insert k v) m = (if m k = None then m(k \<mapsto> v) else m)"
| "spec_step (Erase k) m = m(k := None)"
| "spec_step Clear m = Map.empty"

lemma map_step_refines:
  assumes "map_inv hash t"
  shows "\<exists>t'. map_step hash d x t = Inr t' \<and> map_inv hash t' \<and> map_abs t' = spec_step x (map_abs t)"
proof (cases x)
  case (Assign k v)
  then show ?thesis using map_assign_step [OF assms, of d k v] by (simp add: map_step_def)
next
  case (Insert k v)
  obtain t' b i where "hashmap_insert hash (k, v) t = Inr (t', Some (b, i), map_abs t k = None)" "map_inv hash t'"
    "map_abs t' = (if map_abs t k = None then (map_abs t)(k \<mapsto> v) else map_abs t)" using map_insert_step [OF assms, of k v] by blast
  then show ?thesis using Insert by (simp add: map_step_def)
next
  case (Erase k)
  then show ?thesis using map_erase_step [OF assms, of d k] by (auto simp: map_step_def)
next
  case Clear
  have "map_abs (new_table :: ('a \<times> 'b) hash_table) = Map.empty" by (simp add: map_abs_def new_table_def)
  then show ?thesis using Clear new_table_inv [of "entry_hash hash" entry_equal] by (simp add: map_step_def table_clear_def)
qed

lemma map_run_refines:
  assumes "map_inv hash t"
  shows "\<exists>t'. map_run hash d xs t = Inr t' \<and> map_inv hash t' \<and> map_abs t' = fold spec_step xs (map_abs t)"
  using assms
proof (induction xs arbitrary: t)
  case (Cons x xs)
  obtain t1 where "map_step hash d x t = Inr t1" "map_inv hash t1" "map_abs t1 = spec_step x (map_abs t)"
    using map_step_refines [OF Cons.prems, of d x] by blast
  then show ?case using Cons.IH [of t1] by simp
qed simp

text \<open>C2: A \<open>HashMap\<close> is a map, whatever the hash function: every sequence of assignments through \<open>[]\<close>, insertions, erasures and clearings of a
  new one runs without undefined behaviour, and then \<open>[]\<close>, \<open>count\<close>, \<open>size\<close> and an iteration from \<open>begin()\<close> to \<open>end()\<close> show exactly the
  map that the sequence describes; there is one bucket more than there are entries.\<close>

theorem hashmap_refines:
  "\<exists>t. map_run hash d xs new_table = Inr t
     \<and> (let m = fold spec_step xs Map.empty
        in (\<forall>k. hashmap_at hash d k t = (case m k of None \<Rightarrow> Inl (NotFoundException []) | Some v \<Rightarrow> Inr v)
              \<and> hashmap_count hash d k t = Inr (if k \<in> dom m then 1 else 0))
         \<and> map_of (walk (t_size t) t (table_begin t)) = m \<and> distinct (map fst (walk (t_size t) t (table_begin t)))
         \<and> t_size t = card (dom m) \<and> table_buckets t = t_size t + 1)"
proof -
  have "map_abs (new_table :: ('a \<times> 'b) hash_table) = Map.empty" by (simp add: map_abs_def new_table_def)
  then obtain t where t: "map_run hash d xs new_table = Inr t" "map_inv hash t" "map_abs t = fold spec_step xs Map.empty"
    using map_run_refines [OF new_table_inv [of "entry_hash hash" entry_equal], of d xs] by auto
  have "t_size t = length (concat (t_buckets t))" using t(2) by (simp add: table_inv_def elems_def)
  then have w: "walk (t_size t) t (table_begin t) = concat (t_buckets t)" using walk_all by metis
  have "map_of (walk (t_size t) t (table_begin t)) = map_abs t" "distinct (map fst (walk (t_size t) t (table_begin t)))"
    unfolding w using map_inv_distinct [OF t(2)] by (simp_all add: map_abs_def)
  moreover have "table_buckets t = t_size t + 1" using t(2) by (simp add: table_inv_def table_buckets_def)
  ultimately show ?thesis unfolding Let_def t(3) [symmetric] using t(1) map_at [OF t(2)] map_count [OF t(2)] size_dom [OF t(2)] by blast
qed

text \<open>The same for the values of a \<open>HashSet\<close>.\<close>

datatype 'v set_op = Add 'v | Remove 'v | RemoveAll

definition set_step :: "('v \<Rightarrow> nat) \<Rightarrow> 'v set_op \<Rightarrow> 'v hash_table \<Rightarrow> exn + 'v hash_table" where
  "set_step hash x t =
     (case x of
        Add v \<Rightarrow> map_sum id fst (table_insert hash (=) v t)
      | Remove v \<Rightarrow> (case table_erase hash (=) v t of Returns t \<Rightarrow> Inr t | Throws e t \<Rightarrow> Inl e)
      | RemoveAll \<Rightarrow> Inr (table_clear t))"

fun set_run :: "('v \<Rightarrow> nat) \<Rightarrow> 'v set_op list \<Rightarrow> 'v hash_table \<Rightarrow> exn + 'v hash_table" where
  "set_run hash [] t = Inr t"
| "set_run hash (x # xs) t = (case set_step hash x t of Inl e \<Rightarrow> Inl e | Inr t \<Rightarrow> set_run hash xs t)"

fun set_spec :: "'v set_op \<Rightarrow> 'v set \<Rightarrow> 'v set" where
  "set_spec (Add v) A = insert v A"
| "set_spec (Remove v) A = A - {v}"
| "set_spec RemoveAll A = {}"

lemma apart_count: "apart (=) M \<Longrightarrow> count M x \<le> 1"
proof (rule ccontr)
  assume a: "apart (=) M" "\<not> count M x \<le> 1"
  then have "x \<in># M" "x \<in># M - {#x#}" by (auto simp: in_diff_count count_greater_zero_iff [symmetric] simp del: count_greater_zero_iff)
  then show False using a(1) unfolding apart_def by blast
qed

lemma set_mset_remove:
  assumes "count M v \<le> 1"
  shows "set_mset (M - {#v#}) = set_mset M - {v}"
proof -
  have "x \<in># M - {#v#} \<longleftrightarrow> x \<in># M \<and> x \<noteq> v" for x
    using assms by (cases "x = v") (simp_all add: in_diff_count count_greater_zero_iff [symmetric] del: count_greater_zero_iff)
  then show ?thesis by blast
qed

lemma apart_distinct_values: "apart (=) (mset xs) \<longleftrightarrow> distinct xs"
proof
  assume a: "apart (=) (mset xs)"
  have "count (mset xs) x = (if x \<in> set xs then 1 else 0)" for x
  proof -
    have "0 < count (mset xs) x \<longleftrightarrow> x \<in> set xs" by simp
    then show ?thesis using apart_count [OF a, of x] by (simp del: count_greater_zero_iff count_mset_0_iff) linarith
  qed
  then show "distinct xs" by (simp add: distinct_count_atmost_1)
next
  assume "distinct xs"
  then show "apart (=) (mset xs)" by (auto simp: apart_def in_diff_count distinct_count_atmost_1)
qed

lemma set_step_refines:
  assumes "table_inv hash (=) t"
  shows "\<exists>t'. set_step hash x t = Inr t' \<and> table_inv hash (=) t' \<and> set_mset (elems t') = set_spec x (set_mset (elems t))"
proof (cases x)
  case (Add v)
  show ?thesis using assms
  proof (cases rule: set_values.find_total [where v = v])
    case 1
    then obtain t' b i where "table_insert hash (=) v t = Inr (t', Some (b, i), True)" "table_inv hash (=) t'" "elems t' = add_mset v (elems t)"
      using set_values.insert_new [OF assms 1] by blast
    then show ?thesis using Add by (simp add: set_step_def)
  next
    case (2 b i)
    note f = set_values.find_Some [OF assms 2]
    have "v \<in># elems t" unfolding set_values.elems_bucket using f(2-4) nth_mem by blast
    then show ?thesis using set_values.insert_old [OF assms 2] assms Add by (simp add: set_step_def insert_absorb)
  qed
next
  case (Remove v)
  show ?thesis
  proof (cases "v \<in># elems t")
    case True
    then obtain t' where t': "table_erase hash (=) v t = Returns t'" "table_inv hash (=) t'" "elems t' = elems t - {#v#}"
      using set_values.erase_old [OF assms True refl] by blast
    have "apart (=) (elems t)" using assms unfolding table_inv_def by blast
    then have "count (elems t) v \<le> 1" by (rule apart_count)
    then have "set_mset (elems t') = set_mset (elems t) - {v}" unfolding t'(3) by (rule set_mset_remove)
    then show ?thesis using t'(1,2) Remove by (simp add: set_step_def)
  next
    case False
    then have "\<forall>x \<in># elems t. x \<noteq> v" "set_mset (elems t) - {v} = set_mset (elems t)" by blast+
    then show ?thesis using set_values.erase_none [OF assms, of v] assms Remove by (simp add: set_step_def)
  qed
next
  case RemoveAll
  have "elems (new_table :: 'a hash_table) = {#}" by (simp add: elems_def new_table_def)
  then show ?thesis using RemoveAll new_table_inv [of hash "(=)"] by (simp add: set_step_def table_clear_def)
qed

lemma set_run_refines:
  assumes "table_inv hash (=) t"
  shows "\<exists>t'. set_run hash xs t = Inr t' \<and> table_inv hash (=) t' \<and> set_mset (elems t') = fold set_spec xs (set_mset (elems t))"
  using assms
proof (induction xs arbitrary: t)
  case (Cons x xs)
  obtain t1 where "set_step hash x t = Inr t1" "table_inv hash (=) t1" "set_mset (elems t1) = set_spec x (set_mset (elems t))"
    using set_step_refines [OF Cons.prems, of x] by blast
  then show ?case using Cons.IH [of t1] by simp
qed simp

text \<open>C14: A \<open>HashSet\<close> is a set, whatever the hash function: every sequence of insertions, erasures and clearings of a new one runs without
  undefined behaviour, after which \<open>count\<close> tells the members, an iteration visits each of them once, and the number of buckets follows the
  number of members.\<close>

theorem hashset_refines:
  "\<exists>t. set_run hash xs new_table = Inr t
     \<and> (let A = fold set_spec xs {}
        in (\<forall>v. table_count hash (=) v t = Inr (if v \<in> A then 1 else 0))
         \<and> set (walk (t_size t) t (table_begin t)) = A \<and> length (walk (t_size t) t (table_begin t)) = card A
         \<and> t_size t = card A \<and> table_buckets t = card A + 1)"
proof -
  have "set_mset (elems (new_table :: 'a hash_table)) = {}" by (simp add: elems_def new_table_def)
  then obtain t where t: "set_run hash xs new_table = Inr t" "table_inv hash (=) t" "set_mset (elems t) = fold set_spec xs {}"
    using set_run_refines [OF new_table_inv [of hash "(=)"], of xs] by auto
  have i: "apart (=) (elems t)" "t_size t = size (elems t)" "length (t_buckets t) = t_size t + 1" using t(2) unfolding table_inv_def by blast+
  have "distinct (concat (t_buckets t))" using i(1) unfolding elems_def apart_distinct_values .
  then have c: "size (elems t) = card (set_mset (elems t))" unfolding elems_def by (metis distinct_card set_mset_mset size_mset)
  have w: "walk (t_size t) t (table_begin t) = concat (t_buckets t)" using walk_all i(2) by (metis elems_def size_mset)
  have "table_count hash (=) v t = Inr (if v \<in># elems t then 1 else 0)" for v using t(2)
  proof (cases rule: set_values.find_total [where v = v])
    case 1
    then show ?thesis using set_values.find_None [OF t(2), of v] by (auto simp: table_count_def)
  next
    case (2 b j)
    then show ?thesis using set_values.find_None [OF t(2), of v] by (auto simp: table_count_def)
  qed
  moreover have "set (walk (t_size t) t (table_begin t)) = set_mset (elems t)" "length (walk (t_size t) t (table_begin t)) = card (set_mset (elems t))"
    unfolding w c [symmetric] by (simp_all add: elems_def)
  moreover have "t_size t = card (set_mset (elems t))" "table_buckets t = card (set_mset (elems t)) + 1" using i c by (simp_all add: table_buckets_def)
  ultimately show ?thesis unfolding Let_def t(3) [symmetric] using t(1) by blast
qed

end
