(* ===== verification/Base64.thy ===== *)
theory Base64
  imports Poco_Prelude
begin

text \<open>
  \<open>Base64EncoderBuf\<close> and \<open>Base64DecoderBuf\<close> (\<open>src/Base64Encoder.cpp\<close>, \<open>src/Base64Decoder.cpp\<close>). The encoder writes to a stream buffer, a parameter
  (\<open>sputc\<close> may refuse a character); the decoder reads from the characters that are left. Bytes are words of eight bits. \<open>base64\<close> is the
  reference: the encoder writes exactly it, and the decoder inverts it.
\<close>

unbundle bit_operations_syntax

definition OUT_ENCODING :: string where
  "OUT_ENCODING = ''ABCDEFGHIJKLMNOPQRSTUVWXYZabcdefghijklmnopqrstuvwxyz0123456789+/''"

definition byte_of :: "char \<Rightarrow> 8 word" where
  "byte_of c = word_of_nat (uchar c)"

definition char_of_byte :: "8 word \<Rightarrow> char" where
  "char_of_byte w = char_of (unat w)"

definition IN_ENCODING :: "8 word list" where
  "IN_ENCODING =
     (fold (\<lambda>i t. t[uchar (OUT_ENCODING ! i) := word_of_nat i]) [0..<64] (replicate 256 0xFF))[uchar (CHR ''='') := 0]"

definition in_encoding :: "char \<Rightarrow> 8 word" where
  "in_encoding c = IN_ENCODING ! uchar c"

lemma byte_of_char [simp]: "char_of_byte (byte_of c) = c"
proof -
  have "take_bit 8 (uchar c) = uchar c" by (simp add: take_bit_nat_eq_self)
  then show ?thesis by (simp add: char_of_byte_def byte_of_def unsigned_of_nat)
qed

lemma fold_update_other: "k \<notin> f ` set is \<Longrightarrow> fold (\<lambda>i t. t[f i := g i]) is t ! k = t ! k"
  by (induction "is" arbitrary: t) auto

lemma fold_update_nth:
  "distinct (map f is) \<Longrightarrow> j \<in> set is \<Longrightarrow> f j < length t \<Longrightarrow> fold (\<lambda>i t. t[f i := g i]) is t ! f j = g j"
proof (induction "is" arbitrary: t)
  case (Cons i "is")
  then show ?case using fold_update_other [of "f j" f "is" g "t[f i := g i]"] by (cases "j = i") auto
qed simp

lemma OUT_ENCODING_facts: "length OUT_ENCODING = 64" "distinct OUT_ENCODING"
  "list_all (\<lambda>c. c \<notin> {CHR ''='', CHR '' '', CHR 0x0D, CHR 0x09, CHR 0x0A}) OUT_ENCODING"
  by code_simp+

lemma in_out: "unat (i :: 8 word) < 64 \<Longrightarrow> in_encoding (OUT_ENCODING ! unat i) = i"
proof -
  assume i: "unat (i :: 8 word) < 64"
  let ?f = "\<lambda>i. uchar (OUT_ENCODING ! i)"
  have "map (\<lambda>i. OUT_ENCODING ! i) [0..<64] = OUT_ENCODING" using map_nth [of OUT_ENCODING] OUT_ENCODING_facts(1) by simp
  then have "map ?f [0..<64] = map uchar OUT_ENCODING" using map_map [of uchar "(!) OUT_ENCODING" "[0..<64]"] by (simp add: comp_def)
  then have "distinct (map ?f [0..<64])" using OUT_ENCODING_facts(2) by (simp only: distinct_map) (simp add: inj_on_def uchar_inject)
  from fold_update_nth [OF this, of "unat i" "replicate 256 0xFF" "word_of_nat :: nat \<Rightarrow> 8 word"]
  have f: "fold (\<lambda>i t. t[?f i := word_of_nat i]) [0..<64] (replicate 256 0xFF) ! ?f (unat i) = i" using i by simp
  have "OUT_ENCODING ! unat i \<in> set OUT_ENCODING" using i OUT_ENCODING_facts(1) by simp
  then have "OUT_ENCODING ! unat i \<noteq> CHR ''=''" using OUT_ENCODING_facts(3) unfolding list_all_iff by blast
  then have "?f (unat i) \<noteq> uchar (CHR ''='')" by (simp add: uchar_inject)
  then show ?thesis using f unfolding in_encoding_def IN_ENCODING_def by simp
qed

text \<open>Three bytes in four groups of six bits, and back.\<close>

lemma pack1: "push_bit 2 (drop_bit 2 a) OR drop_bit 4 (push_bit 4 (a AND 3) OR drop_bit 4 b) = (a :: 8 word)"
  by (rule word8_eqI) (simp add: bit_simps bit_numeral_rec numeral_2_eq_2 [symmetric])

lemma pack2: "push_bit 4 ((push_bit 4 (a AND 3) OR drop_bit 4 b) AND 0xF) OR drop_bit 2 (push_bit 2 (b AND 0xF) OR drop_bit 6 c) = (b :: 8 word)"
  by (rule word8_eqI) (simp add: bit_simps bit_numeral_rec)

lemma pack3: "push_bit 6 (push_bit 2 (b AND 0xF) OR drop_bit 6 c) OR (c AND 0x3F) = (c :: 8 word)"
  by (rule word8_eqI) (simp add: bit_simps bit_numeral_rec)

lemma six_bits:
  "unat (drop_bit 2 (a :: 8 word)) < 64" "unat (push_bit 4 (a AND 3) OR drop_bit 4 b :: 8 word) < 64"
  "unat (push_bit 2 (b AND 0xF) OR drop_bit 6 c :: 8 word) < 64" "unat (c AND 0x3F :: 8 word) < 64"
proof -
  have *: "unat w < 64" if "\<not> bit w 6" "\<not> bit w 7" for w :: "8 word"
  proof -
    have "w = w AND 0x3F" using that by (intro word8_eqI) (simp add: bit_simps bit_numeral_rec)
    then have "w \<le> 0x3F" by (metis word_and_le2 and.commute)
    then show ?thesis by (simp add: word_le_nat_alt)
  qed
  show "unat (drop_bit 2 (a :: 8 word)) < 64" "unat (push_bit 4 (a AND 3) OR drop_bit 4 b :: 8 word) < 64"
    "unat (push_bit 2 (b AND 0xF) OR drop_bit 6 c :: 8 word) < 64" "unat (c AND 0x3F :: 8 word) < 64"
    by (rule *; simp add: bit_simps bit_numeral_rec)+
qed

section \<open>The encoder\<close>

text \<open>The stream buffer that is written to: \<open>sputc\<close> tells whether the character was taken.\<close>

type_synonym 'd sink = "char \<Rightarrow> 'd \<Rightarrow> 'd \<times> bool"

record 'd encoder_buf =
  en_group :: "8 word list"
  en_groupLength :: nat
  en_pos :: int
  en_lineLength :: int
  en_buf :: 'd

definition Base64EncoderBuf_new :: "8 word list \<Rightarrow> 'd \<Rightarrow> 'd encoder_buf" where
  "Base64EncoderBuf_new grp buf = \<lparr>en_group = grp, en_groupLength = 0, en_pos = 0, en_lineLength = 72, en_buf = buf\<rparr>"

definition setLineLength :: "int \<Rightarrow> 'd encoder_buf \<Rightarrow> 'd encoder_buf" where
  "setLineLength n e = e\<lparr>en_lineLength := n\<rparr>"

text \<open>\<open>if (_buf.sputc(c) == eof) return eof;\<close> for one character after another.\<close>

fun sputs :: "'d sink \<Rightarrow> string \<Rightarrow> 'd encoder_buf \<Rightarrow> 'd encoder_buf \<times> bool" where
  "sputs sputc [] e = (e, True)"
| "sputs sputc (c # cs) e =
     (let (buf, ok) = sputc c (en_buf e); e = e\<lparr>en_buf := buf\<rparr> in if ok then sputs sputc cs e else (e, False))"

definition sextet1 :: "8 word list \<Rightarrow> char" where
  "sextet1 g = OUT_ENCODING ! unat (drop_bit 2 (g ! 0))"

definition sextet2 :: "8 word list \<Rightarrow> char" where
  "sextet2 g = OUT_ENCODING ! unat (push_bit 4 (g ! 0 AND 3) OR drop_bit 4 (g ! 1))"

definition sextet3 :: "8 word list \<Rightarrow> char" where
  "sextet3 g = OUT_ENCODING ! unat (push_bit 2 (g ! 1 AND 0xF) OR drop_bit 6 (g ! 2))"

definition sextet4 :: "8 word list \<Rightarrow> char" where
  "sextet4 g = OUT_ENCODING ! unat (g ! 2 AND 0x3F)"

text \<open>\<open>_pos += 4\<close> is signed arithmetic in 32 bits, and \<open>_group\<close> has three elements. The result tells whether \<open>c\<close> was taken.\<close>

definition write_group :: "'d sink \<Rightarrow> 'd encoder_buf \<Rightarrow> ('d encoder_buf \<times> bool) outcome" where
  "write_group sputc e =
     (let g = en_group e; (e, ok) = sputs sputc [sextet1 g, sextet2 g, sextet3 g, sextet4 g] e
      in if \<not> ok then Returns (e, False)
         else if en_pos e + 4 \<ge> 2 ^ 31 then Throws UndefinedBehaviour (e, False)
         else
           let e = e\<lparr>en_pos := en_pos e + 4\<rparr>
           in if en_lineLength e > 0 \<and> en_pos e \<ge> en_lineLength e then
                let (e, ok) = sputs sputc [CHR 0x0D, CHR 0x0A] e
                in if ok then Returns (e\<lparr>en_pos := 0, en_groupLength := 0\<rparr>, True) else Returns (e, False)
              else Returns (e\<lparr>en_groupLength := 0\<rparr>, True))"

definition writeToDevice :: "'d sink \<Rightarrow> char \<Rightarrow> 'd encoder_buf \<Rightarrow> ('d encoder_buf \<times> bool) outcome" where
  "writeToDevice sputc c e =
     (if en_groupLength e \<ge> 3 then Throws UndefinedBehaviour (e, False)
      else
        let e = e\<lparr>en_group := (en_group e)[en_groupLength e := byte_of c], en_groupLength := en_groupLength e + 1\<rparr>
        in if en_groupLength e = 3 then write_group sputc e else Returns (e, True))"

text \<open>\<open>close\<close>: \<open>sync\<close> is the one of \<open>std::streambuf\<close>, which does nothing and succeeds; \<open>pubsync\<close> of the stream behind the encoder at the end is
  left to that stream, and takes no character.\<close>

definition encoder_close :: "'d sink \<Rightarrow> 'd encoder_buf \<Rightarrow> 'd encoder_buf \<times> bool" where
  "encoder_close sputc e =
     (let (e, ok) =
        (if en_groupLength e = 1 then
           let e = e\<lparr>en_group := (en_group e)[1 := 0]\<rparr>; g = en_group e
           in sputs sputc [sextet1 g, sextet2 g, CHR ''='', CHR ''=''] e
         else if en_groupLength e = 2 then
           let e = e\<lparr>en_group := (en_group e)[2 := 0]\<rparr>; g = en_group e
           in sputs sputc [sextet1 g, sextet2 g, sextet3 g, CHR ''=''] e
         else (e, True))
      in if ok then (e\<lparr>en_groupLength := 0\<rparr>, True) else (e, False))"

text \<open>A client: write a text character by character, as \<open>ostream::write\<close> does, and close the buffer. A character that was not taken ends
  the writing.\<close>

fun encoder_write :: "'d sink \<Rightarrow> string \<Rightarrow> 'd encoder_buf \<Rightarrow> ('d encoder_buf \<times> bool) outcome" where
  "encoder_write sputc [] e = Returns (e, True)"
| "encoder_write sputc (c # cs) e =
     and_then (writeToDevice sputc c e) (\<lambda>(e, ok). if ok then encoder_write sputc cs e else Returns (e, False))"

section \<open>The decoder\<close>

record decoder_buf =
  de_group :: "8 word list"
  de_groupLength :: nat
  de_groupIndex :: nat
  de_buf :: string

definition Base64DecoderBuf_new :: "8 word list \<Rightarrow> string \<Rightarrow> decoder_buf" where
  "Base64DecoderBuf_new grp buf = \<lparr>de_group = grp, de_groupLength = 0, de_groupIndex = 0, de_buf = buf\<rparr>"

definition blank :: "char \<Rightarrow> bool" where
  "blank c \<longleftrightarrow> c \<in> {CHR '' '', CHR 0x0D, CHR 0x09, CHR 0x0A}"

definition readOne :: "string \<Rightarrow> char option \<times> string" where
  "readOne buf = (case dropWhile blank buf of [] \<Rightarrow> (None, []) | c # cs \<Rightarrow> (Some c, cs))"

text \<open>\<open>if ((c = readOne()) == -1) throw ...; if (IN_ENCODING[c] == 0xFF) throw ...\<close> for one of the four characters of a group.\<close>

type_synonym read_result = "(decoder_buf \<times> char option) outcome"

definition check_code :: "char \<Rightarrow> (decoder_buf \<Rightarrow> read_result) \<Rightarrow> decoder_buf \<Rightarrow> read_result" where
  "check_code c k d = (if in_encoding c = 0xFF then Throws DataFormatException (d, None) else k d)"

definition next_code :: "(char \<Rightarrow> decoder_buf \<Rightarrow> read_result) \<Rightarrow> decoder_buf \<Rightarrow> read_result" where
  "next_code k d =
     (let (c, rest) = readOne (de_buf d); d = d\<lparr>de_buf := rest\<rparr>
      in case c of None \<Rightarrow> Throws DataFormatException (d, None) | Some c \<Rightarrow> check_code c (k c) d)"

definition decode_group :: "char \<Rightarrow> char \<Rightarrow> char \<Rightarrow> char \<Rightarrow> decoder_buf \<Rightarrow> read_result" where
  "decode_group b0 b1 b2 b3 d =
     (let g0 = push_bit 2 (in_encoding b0) OR drop_bit 4 (in_encoding b1);
          g1 = push_bit 4 (in_encoding b1 AND 0xF) OR drop_bit 2 (in_encoding b2);
          g2 = push_bit 6 (in_encoding b2) OR in_encoding b3;
          n = (if b2 = CHR ''='' then 1 else if b3 = CHR ''='' then 2 else 3)
      in Returns (d\<lparr>de_group := [g0, g1, g2], de_groupLength := n, de_groupIndex := 1\<rparr>, Some (char_of_byte g0)))"

definition readFromDevice :: "decoder_buf \<Rightarrow> read_result" where
  "readFromDevice d =
     (if de_groupIndex d < de_groupLength d then
        Returns (d\<lparr>de_groupIndex := de_groupIndex d + 1\<rparr>, Some (char_of_byte (de_group d ! de_groupIndex d)))
      else
        let (c, rest) = readOne (de_buf d); d = d\<lparr>de_buf := rest\<rparr>
        in case c of
             None \<Rightarrow> Returns (d, None)
           | Some b0 \<Rightarrow>
               check_code b0 (next_code (\<lambda>b1. next_code (\<lambda>b2. next_code (\<lambda>b3. decode_group b0 b1 b2 b3)))) d)"

text \<open>\<open>BasicUnbufferedStreamBuf::xsgetn\<close> without a character pushed back: at most \<open>n\<close> characters.\<close>

fun xsgetn :: "nat \<Rightarrow> decoder_buf \<Rightarrow> (decoder_buf \<times> string) outcome" where
  "xsgetn 0 d = Returns (d, [])"
| "xsgetn (Suc n) d =
     (case readFromDevice d of
        Throws e (d, c) \<Rightarrow> Throws e (d, [])
      | Returns (d, None) \<Rightarrow> Returns (d, [])
      | Returns (d, Some c) \<Rightarrow> map_outcome_state (\<lambda>(d, s). (d, c # s)) (xsgetn n d))"

section \<open>A reference encoding\<close>

text \<open>What RFC 2045 describes: groups of three bytes as four characters, the last one padded, with a line break when a line is full.\<close>

definition quad :: "char \<Rightarrow> char \<Rightarrow> char \<Rightarrow> string" where
  "quad a b c = (let g = [byte_of a, byte_of b, byte_of c] in [sextet1 g, sextet2 g, sextet3 g, sextet4 g])"

definition break :: "int \<Rightarrow> int \<Rightarrow> string \<times> int" where
  "break line pos = (if line > 0 \<and> pos + 4 \<ge> line then ([CHR 0x0D, CHR 0x0A], 0) else ([], pos + 4))"

fun base64 :: "int \<Rightarrow> int \<Rightarrow> string \<Rightarrow> string" where
  "base64 line pos (a # b # c # s) = (let (br, pos') = break line pos in quad a b c @ br @ base64 line pos' s)"
| "base64 line pos [a, b] = (let g = [byte_of a, byte_of b, 0] in [sextet1 g, sextet2 g, sextet3 g, CHR ''=''])"
| "base64 line pos [a] = (let g = [byte_of a, 0] in [sextet1 g, sextet2 g, CHR ''='', CHR ''=''])"
| "base64 line pos [] = []"

text \<open>The sink of a string stream takes every character.\<close>

definition string_sink :: "string sink" where
  "string_sink c buf = (buf @ [c], True)"

lemma sputs_string [simp]: "sputs string_sink cs e = (e\<lparr>en_buf := en_buf e @ cs\<rparr>, True)"
  by (induction cs arbitrary: e) (simp_all add: string_sink_def)

declare sputs.simps [simp del]

definition aligned :: "'d encoder_buf \<Rightarrow> bool" where
  "aligned e \<longleftrightarrow> en_groupLength e = 0 \<and> length (en_group e) = 3"

text \<open>The position never overflows: lines are shorter than the type is wide, or the text is short.\<close>

definition fits :: "string encoder_buf \<Rightarrow> string \<Rightarrow> bool" where
  "fits e s \<longleftrightarrow> 0 \<le> en_pos e \<and> (if en_lineLength e > 0 then en_pos e < en_lineLength e \<and> en_lineLength e < 2 ^ 31 - 4
     else en_pos e + 2 * int (length s) < 2 ^ 31)"

lemma aligned_group: "aligned e \<Longrightarrow> \<exists>x y z. en_group e = [x, y, z]"
  by (auto simp: aligned_def numeral_3_eq_3 length_Suc_conv)

lemma write_group_string:
  assumes "en_pos e + 4 < 2 ^ 31" "break (en_lineLength e) (en_pos e) = (br, pos')"
  shows "write_group string_sink e = Returns (e\<lparr>en_buf := en_buf e @ [sextet1 (en_group e), sextet2 (en_group e), sextet3 (en_group e), sextet4 (en_group e)] @ br,
    en_pos := pos', en_groupLength := 0\<rparr>, True)"
proof (cases "en_lineLength e > 0 \<and> en_pos e + 4 \<ge> en_lineLength e")
  case True
  then have "br = [CHR 0x0D, CHR 0x0A]" "pos' = 0" using assms(2) by (simp_all add: break_def)
  then show ?thesis using True assms(1) unfolding write_group_def Let_def by simp
next
  case False
  then have "br = []" "pos' = en_pos e + 4" using assms(2) by (auto simp: break_def)
  then show ?thesis using False assms(1) unfolding write_group_def Let_def by auto
qed

lemma write_three:
  assumes "aligned e" "fits e (a # b # c # s)" "break (en_lineLength e) (en_pos e) = (br, pos')"
  shows "\<exists>e'. encoder_write string_sink (a # b # c # s) e = encoder_write string_sink s e' \<and> aligned e' \<and> fits e' s
    \<and> en_buf e' = en_buf e @ quad a b c @ br \<and> en_pos e' = pos' \<and> en_lineLength e' = en_lineLength e"
proof -
  obtain x y z where g: "en_group e = [x, y, z]" using aligned_group [OF assms(1)] by blast
  let ?e1 = "e\<lparr>en_group := [byte_of a, y, z], en_groupLength := 1\<rparr>"
  let ?e2 = "e\<lparr>en_group := [byte_of a, byte_of b, z], en_groupLength := 2\<rparr>"
  let ?e3 = "e\<lparr>en_group := [byte_of a, byte_of b, byte_of c], en_groupLength := 3\<rparr>"
  let ?e = "?e3\<lparr>en_buf := en_buf e @ quad a b c @ br, en_pos := pos', en_groupLength := 0\<rparr>"
  have p: "en_pos e + 4 < 2 ^ 31" using assms(2) by (simp add: fits_def split: if_splits)
  have "writeToDevice string_sink a e = Returns (?e1, True)" "writeToDevice string_sink b ?e1 = Returns (?e2, True)"
    using assms(1) g by (simp_all add: aligned_def writeToDevice_def Let_def)
  moreover have "writeToDevice string_sink c ?e2 = write_group string_sink ?e3" by (simp add: writeToDevice_def Let_def)
  moreover have "write_group string_sink ?e3 = Returns (?e, True)"
    using write_group_string [of ?e3 br pos'] p assms(3) by (simp add: quad_def Let_def)
  ultimately have "encoder_write string_sink (a # b # c # s) e = encoder_write string_sink s ?e" by simp
  moreover have "fits ?e s"
  proof (cases "en_lineLength e > 0 \<and> en_pos e + 4 \<ge> en_lineLength e")
    case True
    then show ?thesis using assms(2,3) by (simp add: fits_def break_def)
  next
    case False
    then have "pos' = en_pos e + 4" using assms(3) by (simp add: break_def split: if_splits)
    then show ?thesis using assms(2) False by (simp add: fits_def split: if_splits)
  qed
  ultimately show ?thesis by (intro exI [of _ ?e]) (simp add: aligned_def)
qed

definition encode_with :: "'d sink \<Rightarrow> string \<Rightarrow> 'd encoder_buf \<Rightarrow> ('d encoder_buf \<times> bool) outcome" where
  "encode_with sputc s e = and_then (encoder_write sputc s e) (\<lambda>(e, ok). Returns (encoder_close sputc e))"

lemma encode_base64:
  assumes "aligned e" "fits e s"
  shows "\<exists>e'. encode_with string_sink s e = Returns (e', True) \<and> en_buf e' = en_buf e @ base64 (en_lineLength e) (en_pos e) s"
  using assms
proof (induction "en_lineLength e" "en_pos e" s arbitrary: e rule: base64.induct)
  case (1 a b c s)
  obtain br pos' where br: "break (en_lineLength e) (en_pos e) = (br, pos')" by (cases "break (en_lineLength e) (en_pos e)")
  obtain e' where e': "encoder_write string_sink (a # b # c # s) e = encoder_write string_sink s e'" "aligned e'" "fits e' s"
    "en_buf e' = en_buf e @ quad a b c @ br" "en_pos e' = pos'" "en_lineLength e' = en_lineLength e"
    using write_three [OF 1(2,3) br] by blast
  have "\<exists>e''. encode_with string_sink s e' = Returns (e'', True) \<and> en_buf e'' = en_buf e' @ base64 (en_lineLength e') (en_pos e') s"
    by (rule 1(1) [of "(br, pos')" br e']) (simp_all add: br e')
  then obtain e'' where "encode_with string_sink s e' = Returns (e'', True)" "en_buf e'' = en_buf e' @ base64 (en_lineLength e') (en_pos e') s" by blast
  then show ?case using e' br by (simp add: encode_with_def)
next
  case (2 a b)
  obtain x y z where g: "en_group e = [x, y, z]" using aligned_group [OF 2(1)] by blast
  then show ?case using 2 by (simp add: aligned_def encode_with_def writeToDevice_def encoder_close_def Let_def)
next
  case (3 a)
  obtain x y z where g: "en_group e = [x, y, z]" using aligned_group [OF 3(1)] by blast
  then show ?case using 3 by (simp add: aligned_def encode_with_def writeToDevice_def encoder_close_def Let_def sextet1_def sextet2_def)
next
  case 4
  then show ?case by (simp add: aligned_def encode_with_def encoder_close_def)
qed

section \<open>Decoding\<close>

definition code_char :: "char \<Rightarrow> bool" where
  "code_char c \<longleftrightarrow> \<not> blank c \<and> in_encoding c \<noteq> 0xFF"

lemma sextet_codes:
  "in_encoding (sextet1 (x # g)) = drop_bit 2 x" "in_encoding (sextet2 (x # y # g)) = push_bit 4 (x AND 3) OR drop_bit 4 y"
  "in_encoding (sextet3 [x, y, z]) = push_bit 2 (y AND 0xF) OR drop_bit 6 z" "in_encoding (sextet4 [x, y, z]) = z AND 0x3F"
proof -
  have n: "(x # g) ! 0 = x" "(x # y # g) ! 0 = x" "(x # y # g) ! 1 = y" "[x, y, z] ! 1 = y" "[x, y, z] ! 2 = z" by simp_all
  show "in_encoding (sextet1 (x # g)) = drop_bit 2 x" unfolding sextet1_def n by (rule in_out) (rule six_bits)
  show "in_encoding (sextet2 (x # y # g)) = push_bit 4 (x AND 3) OR drop_bit 4 y" unfolding sextet2_def n by (rule in_out) (rule six_bits)
  show "in_encoding (sextet3 [x, y, z]) = push_bit 2 (y AND 0xF) OR drop_bit 6 z" unfolding sextet3_def n by (rule in_out) (rule six_bits)
  show "in_encoding (sextet4 [x, y, z]) = z AND 0x3F" unfolding sextet4_def n by (rule in_out) (rule six_bits)
qed

lemma out_code_char:
  assumes "unat (i :: 8 word) < 64"
  shows "code_char (OUT_ENCODING ! unat i)" "OUT_ENCODING ! unat i \<noteq> CHR ''=''"
proof -
  have "OUT_ENCODING ! unat i \<in> set OUT_ENCODING" using assms OUT_ENCODING_facts(1) by simp
  then have c: "OUT_ENCODING ! unat i \<notin> {CHR ''='', CHR '' '', CHR 0x0D, CHR 0x09, CHR 0x0A}"
    using OUT_ENCODING_facts(3) unfolding list_all_iff by blast
  moreover have "i \<noteq> 0xFF" using assms by auto
  ultimately show "code_char (OUT_ENCODING ! unat i)" "OUT_ENCODING ! unat i \<noteq> CHR ''=''"
    using in_out [OF assms] by (simp_all add: code_char_def blank_def)
qed

lemma sextet_chars [simp]:
  "code_char (sextet1 g)" "code_char (sextet2 g)" "code_char (sextet3 g)" "code_char (sextet4 g)"
  "sextet3 g \<noteq> CHR ''=''" "sextet4 g \<noteq> CHR ''=''"
  unfolding sextet1_def sextet2_def sextet3_def sextet4_def by (rule out_code_char; rule six_bits)+

lemma pad_char: "code_char CHR ''=''" "in_encoding CHR ''='' = 0"
proof -
  have "length (fold (\<lambda>i t. t[uchar (OUT_ENCODING ! i) := word_of_nat i]) is t) = length t" for "is" :: "nat list" and t :: "8 word list"
    by (induction "is" arbitrary: t) simp_all
  then show z: "in_encoding CHR ''='' = 0" by (simp add: in_encoding_def IN_ENCODING_def)
  then show "code_char CHR ''=''" by (simp add: code_char_def blank_def)
qed

lemma readOne_code: "list_all blank ws \<Longrightarrow> code_char c \<Longrightarrow> readOne (ws @ c # r) = (Some c, r)"
  by (simp add: readOne_def code_char_def)

lemma readOne_end: "list_all blank ws \<Longrightarrow> readOne ws = (None, [])"
  by (simp add: readOne_def)

lemma next_code_char: "de_buf d = c # r \<Longrightarrow> code_char c \<Longrightarrow> next_code k d = k c (d\<lparr>de_buf := r\<rparr>)"
  using readOne_code [of "[]" c r] by (simp add: next_code_def check_code_def code_char_def)

lemma base64_decode_three:
  "decode_group (sextet1 [x, y, z]) (sextet2 [x, y, z]) (sextet3 [x, y, z]) (sextet4 [x, y, z]) d
    = Returns (d\<lparr>de_group := [x, y, z], de_groupLength := 3, de_groupIndex := 1\<rparr>, Some (char_of_byte x))"
  unfolding decode_group_def Let_def sextet_codes pack1 pack2 pack3 by simp

lemma base64_decode_two:
  "\<exists>w. decode_group (sextet1 [x, y, 0]) (sextet2 [x, y, 0]) (sextet3 [x, y, 0]) (CHR ''='') d
    = Returns (d\<lparr>de_group := [x, y, w], de_groupLength := 2, de_groupIndex := 1\<rparr>, Some (char_of_byte x))"
  unfolding decode_group_def Let_def sextet_codes pack1 pack2 by simp blast

lemma base64_decode_one:
  "\<exists>v w. decode_group (sextet1 [x, 0]) (sextet2 [x, 0]) (CHR ''='') (CHR ''='') d
    = Returns (d\<lparr>de_group := [x, v, w], de_groupLength := 1, de_groupIndex := 1\<rparr>, Some (char_of_byte x))"
  unfolding decode_group_def Let_def sextet_codes pack1 by simp blast

definition idle :: "decoder_buf \<Rightarrow> bool" where
  "idle d \<longleftrightarrow> de_groupLength d \<le> de_groupIndex d"

lemma read_group:
  assumes "idle d" "de_buf d = ws @ b0 # b1 # b2 # b3 # r" "list_all blank ws" "code_char b0" "code_char b1" "code_char b2" "code_char b3"
  shows "readFromDevice d = decode_group b0 b1 b2 b3 (d\<lparr>de_buf := r\<rparr>)"
proof -
  have "readOne (de_buf d) = (Some b0, b1 # b2 # b3 # r)" using readOne_code assms(2-4) by simp
  then show ?thesis using assms(1,4-7) by (simp add: readFromDevice_def idle_def check_code_def code_char_def next_code_char)
qed

lemma xsgetn_base64:
  assumes "idle d" "de_buf d = ws @ base64 line pos s" "list_all blank ws" "length s \<le> n"
  shows "\<exists>d'. xsgetn n d = Returns (d', s)"
  using assms
proof (induction line pos s arbitrary: d ws n rule: base64.induct)
  case (1 line pos a b c s)
  let ?g = "[byte_of a, byte_of b, byte_of c]"
  obtain br pos' where br: "break line pos = (br, pos')" by (cases "break line pos")
  obtain m where m: "n = Suc (Suc (Suc m))" "length s \<le> m" using 1(5) by (metis Suc_le_D length_Cons Suc_le_mono)
  let ?d = "d\<lparr>de_buf := br @ base64 line pos' s, de_group := ?g, de_groupLength := 3, de_groupIndex := 1\<rparr>"
  have "readFromDevice d = decode_group (sextet1 ?g) (sextet2 ?g) (sextet3 ?g) (sextet4 ?g) (d\<lparr>de_buf := br @ base64 line pos' s\<rparr>)"
    using 1(2-4) br by (intro read_group) (simp_all add: quad_def Let_def)
  also have "\<dots> = Returns (?d, Some a)" unfolding base64_decode_three by simp
  finally have r: "readFromDevice d = Returns (?d, Some a)" .
  have r2: "readFromDevice ?d = Returns (?d\<lparr>de_groupIndex := 2\<rparr>, Some b)" "readFromDevice (?d\<lparr>de_groupIndex := 2\<rparr>) = Returns (?d\<lparr>de_groupIndex := 3\<rparr>, Some c)"
    by (simp_all add: readFromDevice_def)
  have "list_all blank br" using br by (auto simp: break_def blank_def split: if_splits)
  then have "\<exists>d'. xsgetn m (?d\<lparr>de_groupIndex := 3\<rparr>) = Returns (d', s)"
    by (intro 1(1) [OF br [symmetric] refl, of _ br]) (simp_all add: idle_def m(2))
  then show ?case using r r2 m(1) by auto
next
  case (2 line pos a b)
  let ?g = "[byte_of a, byte_of b, 0]"
  have "readFromDevice d = decode_group (sextet1 ?g) (sextet2 ?g) (sextet3 ?g) (CHR ''='') (d\<lparr>de_buf := []\<rparr>)"
    using 2(1-3) by (intro read_group) (simp_all add: Let_def pad_char)
  then obtain w where "readFromDevice d = Returns (d\<lparr>de_buf := [], de_group := [byte_of a, byte_of b, w], de_groupLength := 2, de_groupIndex := 1\<rparr>, Some a)"
    using base64_decode_two [of "byte_of a" "byte_of b" "d\<lparr>de_buf := []\<rparr>"] by auto
  moreover obtain m where "n = Suc (Suc m)" using 2(4) by (metis Suc_le_D length_Cons Suc_le_mono)
  ultimately show ?case by (cases m) (simp_all add: readFromDevice_def readOne_end)
next
  case (3 line pos a)
  let ?g = "[byte_of a, 0]"
  have "readFromDevice d = decode_group (sextet1 ?g) (sextet2 ?g) (CHR ''='') (CHR ''='') (d\<lparr>de_buf := []\<rparr>)"
    using 3(1-3) by (intro read_group) (simp_all add: Let_def pad_char)
  then obtain v w where "readFromDevice d = Returns (d\<lparr>de_buf := [], de_group := [byte_of a, v, w], de_groupLength := 1, de_groupIndex := 1\<rparr>, Some a)"
    using base64_decode_one [of "byte_of a" "d\<lparr>de_buf := []\<rparr>"] by auto
  moreover obtain m where "n = Suc m" using 3(4) by (cases n) auto
  ultimately show ?case by (cases m) (simp_all add: readFromDevice_def readOne_end)
next
  case (4 line pos)
  have "readFromDevice d = Returns (d\<lparr>de_buf := []\<rparr>, None)" using 4 readOne_end [of ws] by (simp add: readFromDevice_def idle_def)
  then show ?case by (cases n) auto
qed




text \<open>The reference and the decoder as an encoder and its decoder.\<close>

definition decode_text :: "string \<Rightarrow> string option" where
  "decode_text t = (case xsgetn (length t) (Base64DecoderBuf_new [] t) of Returns (d, s) \<Rightarrow> Some s | Throws e x \<Rightarrow> None)"

lemma length_base64: "length s \<le> length (base64 line pos s)"
proof (induction line pos s rule: base64.induct)
  case (1 line pos a b c s)
  obtain br pos' where br: "break line pos = (br, pos')" by (cases "break line pos")
  then show ?case using 1 [OF br [symmetric] refl] by (simp add: quad_def Let_def)
qed (simp_all add: Let_def)

interpretation base64_text: codec "base64 line 0" decode_text "\<lambda>_. True" for line
proof unfold_locales
  fix s
  have "\<exists>d. xsgetn (length (base64 line 0 s)) (Base64DecoderBuf_new [] (base64 line 0 s)) = Returns (d, s)"
    by (rule xsgetn_base64 [of _ "[]" line 0]) (simp_all add: idle_def Base64DecoderBuf_new_def length_base64)
  then show "decode_text (base64 line 0 s) = Some s" by (auto simp: decode_text_def)
qed

end
