(* ===== verification/HexBinary.thy ===== *)
theory HexBinary
  imports Base64
begin

text \<open>
  \<open>HexBinaryEncoderBuf\<close> and \<open>HexBinaryDecoderBuf\<close> (\<open>src/HexBinaryEncoder.cpp\<close>, \<open>src/HexBinaryDecoder.cpp\<close>): two hexadecimal digits for a byte, with line breaks, over
  the same stream buffers as \<open>Base64\<close>.
\<close>

section \<open>The encoder\<close>

record 'd hex_encoder_buf =
  hx_pos :: int
  hx_lineLength :: int
  hx_uppercase :: nat
  hx_buf :: 'd

definition HexBinaryEncoderBuf_new :: "'d \<Rightarrow> 'd hex_encoder_buf" where
  "HexBinaryEncoderBuf_new buf = \<lparr>hx_pos = 0, hx_lineLength = 72, hx_uppercase = 0, hx_buf = buf\<rparr>"

definition hex_setLineLength :: "int \<Rightarrow> 'd hex_encoder_buf \<Rightarrow> 'd hex_encoder_buf" where
  "hex_setLineLength n e = e\<lparr>hx_lineLength := n\<rparr>"

definition setUppercase :: "bool \<Rightarrow> 'd hex_encoder_buf \<Rightarrow> 'd hex_encoder_buf" where
  "setUppercase flag e = e\<lparr>hx_uppercase := (if flag then 16 else 0)\<rparr>"

definition hex_digits :: string where
  "hex_digits = ''0123456789abcdef0123456789ABCDEF''"

text \<open>\<open>if (_buf.sputc(c) == eof) return eof;\<close> before the rest, and \<open>++_pos\<close> in 32 bits.\<close>

definition put_then :: "'d sink \<Rightarrow> char \<Rightarrow> ('d hex_encoder_buf \<Rightarrow> ('d hex_encoder_buf \<times> bool) outcome) \<Rightarrow> 'd hex_encoder_buf
    \<Rightarrow> ('d hex_encoder_buf \<times> bool) outcome" where
  "put_then sputc c k e =
     (let (buf, ok) = sputc c (hx_buf e); e = e\<lparr>hx_buf := buf\<rparr> in if ok then k e else Returns (e, False))"

definition advance_pos :: "('d hex_encoder_buf \<Rightarrow> ('d hex_encoder_buf \<times> bool) outcome) \<Rightarrow> 'd hex_encoder_buf \<Rightarrow> ('d hex_encoder_buf \<times> bool) outcome" where
  "advance_pos k e = (if hx_pos e + 1 \<ge> 2 ^ 31 then Throws UndefinedBehaviour (e, False) else k (e\<lparr>hx_pos := hx_pos e + 1\<rparr>))"

text \<open>\<open>c\<close> is promoted to \<open>int\<close> with its sign before it is shifted.\<close>

definition hex_writeToDevice :: "'d sink \<Rightarrow> char \<Rightarrow> 'd hex_encoder_buf \<Rightarrow> ('d hex_encoder_buf \<times> bool) outcome" where
  "hex_writeToDevice sputc c e =
     put_then sputc (hex_digits ! (hx_uppercase e + nat (drop_bit 4 (schar c) AND 0xF)))
       (advance_pos
         (put_then sputc (hex_digits ! (hx_uppercase e + nat (schar c AND 0xF)))
           (advance_pos
             (\<lambda>e. if hx_pos e \<ge> hx_lineLength e \<and> hx_lineLength e > 0
                  then put_then sputc (CHR 0x0A) (\<lambda>e. Returns (e\<lparr>hx_pos := 0\<rparr>, True)) e
                  else Returns (e, True))))) e"

fun hex_write :: "'d sink \<Rightarrow> string \<Rightarrow> 'd hex_encoder_buf \<Rightarrow> ('d hex_encoder_buf \<times> bool) outcome" where
  "hex_write sputc [] e = Returns (e, True)"
| "hex_write sputc (c # cs) e =
     and_then (hex_writeToDevice sputc c e) (\<lambda>(e, ok). if ok then hex_write sputc cs e else Returns (e, False))"

section \<open>The decoder\<close>

definition nibble_of :: "char \<Rightarrow> exn + int" where
  "nibble_of n =
     (if between (CHR ''0'') (CHR ''9'') n then Inr (schar n - schar (CHR ''0''))
      else if between (CHR ''A'') (CHR ''F'') n then Inr (schar n - schar (CHR ''A'') + 10)
      else if between (CHR ''a'') (CHR ''f'') n then Inr (schar n - schar (CHR ''a'') + 10)
      else Inl DataFormatException)"

definition hex_readFromDevice :: "string \<Rightarrow> (string \<times> char option) outcome" where
  "hex_readFromDevice buf =
     (case readOne buf of
        (None, buf) \<Rightarrow> Returns (buf, None)
      | (Some n, buf) \<Rightarrow>
          (case nibble_of n of
             Inl e \<Rightarrow> Throws e (buf, None)
           | Inr hi \<Rightarrow>
               (case readOne buf of
                  (None, buf) \<Rightarrow> Throws DataFormatException (buf, None)
                | (Some n, buf) \<Rightarrow>
                    (case nibble_of n of
                       Inl e \<Rightarrow> Throws e (buf, None)
                     | Inr lo \<Rightarrow> Returns (buf, Some (to_char (push_bit 4 hi OR lo)))))))"

fun hex_xsgetn :: "nat \<Rightarrow> string \<Rightarrow> (string \<times> string) outcome" where
  "hex_xsgetn 0 buf = Returns (buf, [])"
| "hex_xsgetn (Suc n) buf =
     (case hex_readFromDevice buf of
        Throws e (buf, c) \<Rightarrow> Throws e (buf, [])
      | Returns (buf, None) \<Rightarrow> Returns (buf, [])
      | Returns (buf, Some c) \<Rightarrow> map_outcome_state (\<lambda>(buf, s). (buf, c # s)) (hex_xsgetn n buf))"

section \<open>There and back\<close>

definition hex_pair :: "nat \<Rightarrow> char \<Rightarrow> string" where
  "hex_pair up c = [hex_digits ! (up + uchar c div 16), hex_digits ! (up + uchar c mod 16)]"

fun hex_text :: "nat \<Rightarrow> int \<Rightarrow> int \<Rightarrow> string \<Rightarrow> string" where
  "hex_text up line pos [] = []"
| "hex_text up line pos (c # s) =
     hex_pair up c @ (if line > 0 \<and> pos + 2 \<ge> line then CHR 0x0A # hex_text up line 0 s else hex_text up line (pos + 2) s)"

lemma signed_nibbles:
  fixes v :: int
  assumes "0 \<le> v" "v < 256"
  shows "v div 16 mod 16 = v div 16" "(v - 256) div 16 mod 16 = v div 16" "(v - 256) mod 16 = v mod 16"
proof -
  have "0 \<le> v div 16" using assms(1) by (simp add: pos_imp_zdiv_nonneg_iff)
  moreover have "v div 16 < 16" using zdiv_mono1 [of v 255 16] assms(2) by simp
  ultimately show a: "v div 16 mod 16 = v div 16" by (rule mod_pos_pos_trivial)
  have "(v - 256) div 16 = v div 16 - 16" using div_mult_self1 [of 16 v "- 16"] by simp
  then show "(v - 256) div 16 mod 16 = v div 16" by (simp only: minus_mod_self2 a)
  show "(v - 256) mod 16 = v mod 16" using mod_mult_self1 [of v "- 16" 16] by simp
qed

lemma schar_nibbles: "nat (drop_bit 4 (schar c) AND 0xF) = uchar c div 16" "nat (schar c AND 0xF) = uchar c mod 16"
proof -
  have m: "x AND 0xF = x mod 16" for x :: int using take_bit_eq_mask [of 4 x] by (simp add: take_bit_eq_mod mask_eq_exp_minus_1 and.commute)
  have d: "drop_bit 4 x = x div 16" for x :: int by (simp add: drop_bit_eq_div)
  have "0 \<le> int (uchar c)" "int (uchar c) < 256" using uchar_less [of c] by (simp_all del: uchar_less)
  note s = signed_nibbles [OF this]
  have "schar c div 16 mod 16 = int (uchar c) div 16 \<and> schar c mod 16 = int (uchar c) mod 16"
    unfolding schar_def by (cases "uchar c < 128") (simp_all only: if_True if_False s simp_thms)
  then have "drop_bit 4 (schar c) AND 0xF = int (uchar c div 16)" "schar c AND 0xF = int (uchar c mod 16)"
    unfolding m d by (simp_all add: zdiv_int zmod_int)
  then show "nat (drop_bit 4 (schar c) AND 0xF) = uchar c div 16" "nat (schar c AND 0xF) = uchar c mod 16" by simp_all
qed

lemma hex_write_text:
  assumes "0 \<le> hx_pos e" "hx_lineLength e < 2 ^ 31 - 2" "if hx_lineLength e > 0 then hx_pos e < hx_lineLength e else hx_pos e + 2 * int (length s) < 2 ^ 31"
  shows "\<exists>e'. hex_write string_sink s e = Returns (e', True) \<and> hx_buf e' = hx_buf e @ hex_text (hx_uppercase e) (hx_lineLength e) (hx_pos e) s"
  using assms
proof (induction s arbitrary: e)
  case (Cons c s)
  let ?t = "hex_pair (hx_uppercase e) c"
  have p: "hx_pos e + 2 < 2 ^ 31" using Cons.prems by (auto split: if_splits)
  show ?case
  proof (cases "hx_lineLength e > 0 \<and> hx_pos e + 2 \<ge> hx_lineLength e")
    case True
    let ?e = "e\<lparr>hx_buf := hx_buf e @ ?t @ [CHR 0x0A], hx_pos := 0\<rparr>"
    have "hex_writeToDevice string_sink c e = Returns (?e, True)"
      using True p by (simp add: hex_writeToDevice_def put_then_def advance_pos_def string_sink_def schar_nibbles hex_pair_def)
    moreover obtain e' where "hex_write string_sink s ?e = Returns (e', True)" "hx_buf e' = hx_buf ?e @ hex_text (hx_uppercase ?e) (hx_lineLength ?e) (hx_pos ?e) s"
      using Cons.IH [of ?e] Cons.prems True by auto
    ultimately show ?thesis using True by simp
  next
    case False
    let ?e = "e\<lparr>hx_buf := hx_buf e @ ?t, hx_pos := hx_pos e + 2\<rparr>"
    have "hex_writeToDevice string_sink c e = Returns (?e, True)"
      using False p by (auto simp: hex_writeToDevice_def put_then_def advance_pos_def string_sink_def schar_nibbles hex_pair_def)
    moreover obtain e' where "hex_write string_sink s ?e = Returns (e', True)" "hx_buf e' = hx_buf ?e @ hex_text (hx_uppercase ?e) (hx_lineLength ?e) (hx_pos ?e) s"
      using Cons.IH [of ?e] Cons.prems False by (auto split: if_splits)
    ultimately show ?thesis using False by auto
  qed
qed simp

lemma hex_digit_facts:
  assumes "up \<in> {0, 16}" "n < 16"
  shows "\<not> blank (hex_digits ! (up + n))" "nibble_of (hex_digits ! (up + n)) = Inr (int n)"
proof -
  have "list_all (\<lambda>up. list_all (\<lambda>n. \<not> blank (hex_digits ! (up + n)) \<and> nibble_of (hex_digits ! (up + n)) = Inr (int n)) [0..<16]) [0, 16]" by code_simp
  then show "\<not> blank (hex_digits ! (up + n))" "nibble_of (hex_digits ! (up + n)) = Inr (int n)" using assms unfolding list_all_iff by auto
qed

lemma hex_read_pair:
  assumes "up \<in> {0, 16}" "list_all blank ws"
  shows "hex_readFromDevice (ws @ hex_pair up c @ r) = Returns (r, Some c)"
proof -
  have u: "uchar c div 16 < 16" "uchar c mod 16 < 16" using uchar_less [of c] by (simp_all add: less_mult_imp_div_less)
  note h = hex_digit_facts [OF assms(1) u(1)] hex_digit_facts [OF assms(1) u(2)]
  have "push_bit 4 (int (uchar c div 16)) OR int (uchar c mod 16) = int (uchar c)"
  proof -
    have "push_bit 4 (drop_bit 4 x) OR take_bit 4 x = x" for x :: int by (rule bit_eqI) (auto simp: bit_simps)
    moreover have "int (uchar c div 16) = drop_bit 4 (int (uchar c))" "int (uchar c mod 16) = take_bit 4 (int (uchar c))"
      by (simp_all add: drop_bit_eq_div take_bit_eq_mod zdiv_int zmod_int)
    ultimately show ?thesis by metis
  qed
  then show ?thesis using h assms(2) by (simp add: hex_readFromDevice_def readOne_def hex_pair_def to_char_nat)
qed

lemma hex_xsgetn_text:
  assumes "up \<in> {0, 16}" "list_all blank ws" "length s \<le> n"
  shows "\<exists>r. hex_xsgetn n (ws @ hex_text up line pos s) = Returns (r, s)"
  using assms(2,3)
proof (induction s arbitrary: ws pos n)
  case Nil
  then have "hex_readFromDevice ws = Returns ([], None)" using readOne_end [of ws] by (simp add: hex_readFromDevice_def)
  then show ?case by (cases n) simp_all
next
  case (Cons c s)
  obtain m where m: "n = Suc m" "length s \<le> m" using Cons.prems(2) by (cases n) auto
  let ?full = "line > 0 \<and> pos + 2 \<ge> line"
  let ?ws = "if ?full then [CHR 0x0A] else []" and ?pos = "if ?full then 0 else pos + 2"
  have "hex_text up line pos (c # s) = hex_pair up c @ ?ws @ hex_text up line ?pos s" by simp
  then have "hex_readFromDevice (ws @ hex_text up line pos (c # s)) = Returns (?ws @ hex_text up line ?pos s, Some c)"
    using hex_read_pair [OF assms(1) Cons.prems(1)] by simp
  moreover have "list_all blank ?ws" by (simp add: blank_def)
  then obtain r where "hex_xsgetn m (?ws @ hex_text up line ?pos s) = Returns (r, s)" using Cons.IH m(2) by blast
  ultimately show ?case using m(1) by simp
qed

text \<open>C38: What is written to a \<open>HexBinaryEncoder\<close> comes back from a \<open>HexBinaryDecoder\<close>, for every length of lines and in both cases.\<close>

theorem hex_binary_round_trip:
  assumes "line < 2 ^ 31 - 2" "0 < line \<or> 2 * int (length s) < 2 ^ 31" "length s \<le> n"
  shows "\<exists>e r. hex_write string_sink s (setUppercase flag (hex_setLineLength line (HexBinaryEncoderBuf_new []))) = Returns (e, True)
    \<and> hex_xsgetn n (hx_buf e) = Returns (r, s)"
proof -
  let ?e = "setUppercase flag (hex_setLineLength line (HexBinaryEncoderBuf_new []))"
  have f: "hx_pos ?e = 0" "hx_lineLength ?e = line" "hx_uppercase ?e = (if flag then 16 else 0)" "hx_buf ?e = []"
    by (simp_all add: setUppercase_def hex_setLineLength_def HexBinaryEncoderBuf_new_def)
  have "0 \<le> hx_pos ?e" "hx_lineLength ?e < 2 ^ 31 - 2" "if hx_lineLength ?e > 0 then hx_pos ?e < hx_lineLength ?e else hx_pos ?e + 2 * int (length s) < 2 ^ 31"
    unfolding f using assms by auto
  from hex_write_text [OF this] obtain e where e: "hex_write string_sink s ?e = Returns (e, True)" "hx_buf e = hex_text (if flag then 16 else 0) line 0 s"
    unfolding f by auto
  have "(if flag then 16 else 0) \<in> {0 :: nat, 16}" by simp
  from hex_xsgetn_text [OF this, of "[]" s n line 0] obtain r where "hex_xsgetn n (hx_buf e) = Returns (r, s)"
    unfolding e(2) using assms(3) by auto
  then show ?thesis using e(1) by blast
qed

theorem hex_binary_round_trip_witness:
  "\<exists>e r. hex_write string_sink [CHR 0xFF, CHR ''a''] (setUppercase True (hex_setLineLength 2 (HexBinaryEncoderBuf_new []))) = Returns (e, True)
    \<and> hex_xsgetn 5 (hx_buf e) = Returns (r, [CHR 0xFF, CHR ''a''])"
  using hex_binary_round_trip [of 2 "[CHR 0xFF, CHR ''a'']" 5 True] by simp

end
