(* ===== verification/UUID.thy ===== *)
theory UUID
  imports Strings
begin

text \<open>
  \<open>Poco::UUID\<close> (\<open>src/UUID.cpp\<close>, \<open>include/Poco/UUID.h\<close>): fields of 32, 16 and 8 bits, their text, their bytes in network order, and their order. Where the
  language leaves the order of evaluation open (\<open>tryParse\<close>) or the machine the order of bytes, the model has a parameter.
\<close>

unbundle bit_operations_syntax

section \<open>The identifier\<close>

record uuid =
  u_timeLow :: "32 word"
  u_timeMid :: "16 word"
  u_timeHiAndVersion :: "16 word"
  u_clockSeq :: "16 word"
  u_node :: "8 word list"

definition null_uuid :: uuid where
  "null_uuid = \<lparr>u_timeLow = 0, u_timeMid = 0, u_timeHiAndVersion = 0, u_clockSeq = 0, u_node = replicate 6 0\<rparr>"

definition nibble :: "char \<Rightarrow> 8 word" where
  "nibble h =
     (if between (CHR ''a'') (CHR ''f'') h then of_int (schar h - schar (CHR ''a'') + 10)
      else if between (CHR ''A'') (CHR ''F'') h then of_int (schar h - schar (CHR ''A'') + 10)
      else if between (CHR ''0'') (CHR ''9'') h then of_int (schar h - schar (CHR ''0''))
      else 0)"

text \<open>\<open>for (int i = 0; i < n; ++i) w = (w << 4) | nibble( *it++);\<close> and the skipping of a hyphen.\<close>

fun read_nibbles :: "nat \<Rightarrow> string \<Rightarrow> 'a :: len word \<Rightarrow> 'a word \<times> string" where
  "read_nibbles (Suc n) (c # it) w = read_nibbles n it (push_bit 4 w OR ucast (nibble c))"
| "read_nibbles n it w = (w, it)"

definition skip_hyphen :: "bool \<Rightarrow> string \<Rightarrow> string" where
  "skip_hyphen haveHyphens it = (if haveHyphens then tl it else it)"

text \<open>\<open>_node[i] = (nibble( *it++) << 4) | nibble( *it++)\<close>: the language does not say which of the two operands is evaluated first; \<open>ltr\<close> tells
  whether the compiler takes the left one.\<close>

fun read_node :: "bool \<Rightarrow> nat \<Rightarrow> string \<Rightarrow> 8 word list" where
  "read_node ltr (Suc n) (c # c' # it) =
     (if ltr then push_bit 4 (nibble c) OR nibble c' else push_bit 4 (nibble c') OR nibble c) # read_node ltr n it"
| "read_node ltr n it = []"

definition tryParse :: "bool \<Rightarrow> string \<Rightarrow> uuid \<Rightarrow> uuid \<times> bool" where
  "tryParse ltr s u =
     (if length s < 32 then (u, False)
      else
        let hyphens = s ! 8 = CHR ''-'' \<and> s ! 13 = CHR ''-'' \<and> s ! 18 = CHR ''-'' \<and> s ! 23 = CHR ''-''
        in if hyphens \<and> length s < 36 then (u, False)
           else
             let (timeLow, it) = read_nibbles 8 s 0;
                 (timeMid, it) = read_nibbles 4 (skip_hyphen hyphens it) 0;
                 (timeHi, it) = read_nibbles 4 (skip_hyphen hyphens it) 0;
                 (clockSeq, it) = read_nibbles 4 (skip_hyphen hyphens it) 0
             in (\<lparr>u_timeLow = timeLow, u_timeMid = timeMid, u_timeHiAndVersion = timeHi, u_clockSeq = clockSeq,
                   u_node = read_node ltr 6 (skip_hyphen hyphens it)\<rparr>, True))"

definition parse :: "bool \<Rightarrow> string \<Rightarrow> uuid \<Rightarrow> uuid outcome" where
  "parse ltr s u = (let (u', ok) = tryParse ltr s u in if ok then Returns u' else Throws (SyntaxException s) u')"

definition digits :: string where
  "digits = ''0123456789abcdef''"

definition appendHex8 :: "8 word \<Rightarrow> string" where
  "appendHex8 n = [digits ! unat (drop_bit 4 n AND 0xF), digits ! unat (n AND 0xF)]"

definition appendHex16 :: "16 word \<Rightarrow> string" where
  "appendHex16 n = appendHex8 (ucast (drop_bit 8 n)) @ appendHex8 (ucast (n AND 0xFF))"

definition appendHex32 :: "32 word \<Rightarrow> string" where
  "appendHex32 n = appendHex16 (ucast (drop_bit 16 n)) @ appendHex16 (ucast (n AND 0xFFFF))"

definition toString :: "uuid \<Rightarrow> string" where
  "toString u =
     appendHex32 (u_timeLow u) @ ''-'' @ appendHex16 (u_timeMid u) @ ''-'' @ appendHex16 (u_timeHiAndVersion u) @ ''-''
       @ appendHex16 (u_clockSeq u) @ ''-'' @ concat (map appendHex8 (u_node u))"

section \<open>Bytes\<close>

text \<open>\<open>std::memcpy\<close> of an integer on a machine that stores the high byte first (\<open>big\<close>) or last, and the conversion to network order.\<close>

definition mem16 :: "bool \<Rightarrow> 16 word \<Rightarrow> 8 word list" where
  "mem16 big w = (let bs = [ucast (drop_bit 8 w), ucast w] in if big then bs else rev bs)"

definition mem32 :: "bool \<Rightarrow> 32 word \<Rightarrow> 8 word list" where
  "mem32 big w = (let bs = [ucast (drop_bit 24 w), ucast (drop_bit 16 w), ucast (drop_bit 8 w), ucast w] in if big then bs else rev bs)"

definition load16 :: "bool \<Rightarrow> 8 word list \<Rightarrow> 16 word" where
  "load16 big bs = (let bs = (if big then bs else rev bs) in push_bit 8 (ucast (bs ! 0)) OR ucast (bs ! 1))"

definition load32 :: "bool \<Rightarrow> 8 word list \<Rightarrow> 32 word" where
  "load32 big bs =
     (let bs = (if big then bs else rev bs)
      in push_bit 24 (ucast (bs ! 0)) OR push_bit 16 (ucast (bs ! 1)) OR push_bit 8 (ucast (bs ! 2)) OR ucast (bs ! 3))"

definition flipBytes16 :: "16 word \<Rightarrow> 16 word" where
  "flipBytes16 v = (drop_bit 8 v AND 0x00FF) OR (push_bit 8 v AND 0xFF00)"

definition flipBytes32 :: "32 word \<Rightarrow> 32 word" where
  "flipBytes32 v =
     (drop_bit 24 v AND 0x000000FF) OR (drop_bit 8 v AND 0x0000FF00) OR (push_bit 8 v AND 0x00FF0000) OR (push_bit 24 v AND 0xFF000000)"

definition toNetwork16 :: "bool \<Rightarrow> 16 word \<Rightarrow> 16 word" where
  "toNetwork16 big v = (if big then v else flipBytes16 v)"

definition toNetwork32 :: "bool \<Rightarrow> 32 word \<Rightarrow> 32 word" where
  "toNetwork32 big v = (if big then v else flipBytes32 v)"

definition fromNetwork :: "bool \<Rightarrow> uuid \<Rightarrow> uuid" where
  "fromNetwork big u =
     u\<lparr>u_timeLow := toNetwork32 big (u_timeLow u), u_timeMid := toNetwork16 big (u_timeMid u),
       u_timeHiAndVersion := toNetwork16 big (u_timeHiAndVersion u), u_clockSeq := toNetwork16 big (u_clockSeq u)\<rparr>"

definition toNetwork :: "bool \<Rightarrow> uuid \<Rightarrow> uuid" where
  "toNetwork big u =
     u\<lparr>u_timeLow := toNetwork32 big (u_timeLow u), u_timeMid := toNetwork16 big (u_timeMid u),
       u_timeHiAndVersion := toNetwork16 big (u_timeHiAndVersion u), u_clockSeq := toNetwork16 big (u_clockSeq u)\<rparr>"

definition copyTo :: "bool \<Rightarrow> uuid \<Rightarrow> 8 word list" where
  "copyTo big u =
     mem32 big (toNetwork32 big (u_timeLow u)) @ mem16 big (toNetwork16 big (u_timeMid u))
       @ mem16 big (toNetwork16 big (u_timeHiAndVersion u)) @ mem16 big (toNetwork16 big (u_clockSeq u)) @ u_node u"

text \<open>The buffer of 16 bytes that \<open>copyFrom\<close> reads.\<close>

definition copyFrom :: "bool \<Rightarrow> 8 word list \<Rightarrow> uuid" where
  "copyFrom big buffer =
     \<lparr>u_timeLow = toNetwork32 big (load32 big (take 4 buffer)),
      u_timeMid = toNetwork16 big (load16 big (take 2 (drop 4 buffer))),
      u_timeHiAndVersion = toNetwork16 big (load16 big (take 2 (drop 6 buffer))),
      u_clockSeq = toNetwork16 big (load16 big (take 2 (drop 8 buffer))),
      u_node = take 6 (drop 10 buffer)\<rparr>"

definition UUID_bytes :: "bool \<Rightarrow> 8 word list \<Rightarrow> 16 word \<Rightarrow> uuid" where
  "UUID_bytes big bytes version =
     (let u = copyFrom big bytes
      in u\<lparr>u_timeHiAndVersion := (u_timeHiAndVersion u AND 0x0FFF) OR push_bit 12 version,
           u_clockSeq := (u_clockSeq u AND 0x3FFF) OR 0x8000\<rparr>)"

definition version :: "uuid \<Rightarrow> 16 word" where
  "version u = drop_bit 12 (u_timeHiAndVersion u)"

definition variant :: "uuid \<Rightarrow> int" where
  "variant u =
     (let v = uint (drop_bit 13 (u_clockSeq u))
      in if v AND 6 = 6 then v else if v AND 4 \<noteq> 0 then 2 else 0)"

section \<open>Comparison\<close>

fun compare_node :: "8 word list \<Rightarrow> 8 word list \<Rightarrow> int" where
  "compare_node (x # xs) (y # ys) = (if x < y then -1 else if x > y then 1 else compare_node xs ys)"
| "compare_node _ _ = 0"

definition compare :: "uuid \<Rightarrow> uuid \<Rightarrow> int" where
  "compare u v =
     (if u_timeLow u \<noteq> u_timeLow v then (if u_timeLow u < u_timeLow v then -1 else 1)
      else if u_timeMid u \<noteq> u_timeMid v then (if u_timeMid u < u_timeMid v then -1 else 1)
      else if u_timeHiAndVersion u \<noteq> u_timeHiAndVersion v then (if u_timeHiAndVersion u < u_timeHiAndVersion v then -1 else 1)
      else if u_clockSeq u \<noteq> u_clockSeq v then (if u_clockSeq u < u_clockSeq v then -1 else 1)
      else compare_node (u_node u) (u_node v))"

definition isNull :: "uuid \<Rightarrow> bool" where
  "isNull u \<longleftrightarrow> compare u null_uuid = 0"

section \<open>Text\<close>

lemma nibble_digit: "unat (w :: 8 word) < 16 \<Longrightarrow> nibble (digits ! unat w) = w"
proof -
  have "list_all (\<lambda>n. nibble (digits ! n) = word_of_nat n) [0..<16]" by code_simp
  then show "unat w < 16 \<Longrightarrow> nibble (digits ! unat w) = w" unfolding list_all_iff by simp
qed

lemma low_nibble: "unat (w AND 0xF :: 8 word) < 16"
proof -
  have "w AND 0xF \<le> (0xF :: 8 word)" by (rule word_and_le1)
  then show ?thesis by (simp add: word_le_nat_alt)
qed

lemma nibbles_of_byte: "nibble (digits ! unat (drop_bit 4 n AND 0xF)) = drop_bit 4 n AND 0xF" "nibble (digits ! unat (n AND 0xF)) = n AND 0xF"
  by (rule nibble_digit, rule low_nibble)+

lemma mask_nibble: "w AND 0xF = take_bit 4 (w :: 8 word)"
  by (simp add: take_bit_eq_mask mask_eq_exp_minus_1)

text \<open>Two digits are read as the byte that they were printed from.\<close>

lemma read_hex8:
  "read_nibbles (Suc (Suc k)) (appendHex8 n @ it) w = read_nibbles k it (push_bit 8 w OR ucast n :: 'a :: len word)"
proof -
  have "push_bit 4 (push_bit 4 w OR ucast (drop_bit 4 n AND 0xF)) OR ucast (n AND 0xF) = (push_bit 8 w OR ucast n :: 'a word)"
    unfolding mask_nibble by (rule bit_word_eqI) (auto simp: bit_simps not_le less_diff_conv2 dest: bit_imp_le_length)
  then show ?thesis by (simp add: appendHex8_def nibbles_of_byte)
qed

lemma read_hex16:
  "read_nibbles (4 + k) (appendHex16 n @ it) w = read_nibbles k it (push_bit 16 w OR ucast n :: 'a :: len word)"
proof -
  have m: "n AND 0xFF = take_bit 8 n" by (simp add: take_bit_eq_mask mask_eq_exp_minus_1)
  have "push_bit 8 (push_bit 8 w OR ucast (ucast (drop_bit 8 n) :: 8 word)) OR ucast (ucast (n AND 0xFF) :: 8 word) = (push_bit 16 w OR ucast n :: 'a word)"
    unfolding m by (rule bit_word_eqI) (auto simp: bit_simps not_le less_diff_conv2 dest: bit_imp_le_length)
  moreover have "4 + k = Suc (Suc (Suc (Suc k)))" by simp
  ultimately show ?thesis by (simp only: appendHex16_def append_assoc read_hex8)
qed

lemma read_hex32: "read_nibbles 8 (appendHex32 n @ it) 0 = (n, it)"
proof -
  have m: "n AND 0xFFFF = take_bit 16 n" by (simp add: take_bit_eq_mask mask_eq_exp_minus_1)
  have "push_bit 16 (push_bit 16 0 OR ucast (ucast (drop_bit 16 n) :: 16 word)) OR ucast (ucast (n AND 0xFFFF) :: 16 word) = n"
    unfolding m by (rule bit_word_eqI) (auto simp: bit_simps)
  moreover have "(8 :: nat) = 4 + (4 + 0)" by simp
  ultimately show ?thesis by (simp only: appendHex32_def append_assoc read_hex16 read_nibbles.simps)
qed

lemma read_hex16_all: "read_nibbles 4 (appendHex16 n @ it) 0 = (n, it)"
  using read_hex16 [of 0 n it "0 :: 16 word"] by simp

text \<open>The byte whose halves are exchanged.\<close>

definition swap_nibbles :: "8 word \<Rightarrow> 8 word" where
  "swap_nibbles n = push_bit 4 n OR drop_bit 4 n"

lemma read_node_hex:
  "length node = n \<Longrightarrow> read_node ltr n (concat (map appendHex8 node)) = map (if ltr then id else swap_nibbles) node"
proof (induction node arbitrary: n)
  case (Cons x node)
  have "push_bit 4 (drop_bit 4 x AND 0xF) OR (x AND 0xF) = x" "push_bit 4 (x AND 0xF) OR (drop_bit 4 x AND 0xF) = swap_nibbles x"
    unfolding mask_nibble swap_nibbles_def by (rule bit_word_eqI; auto simp: bit_simps dest: bit_imp_le_length)+
  then show ?case using Cons by (auto simp: appendHex8_def nibbles_of_byte)
qed simp

lemma length_hex [simp]: "length (appendHex8 a) = 2" "length (appendHex16 b) = 4" "length (appendHex32 c) = 8"
  by (simp_all add: appendHex8_def appendHex16_def appendHex32_def)

lemma length_node_hex: "length (concat (map appendHex8 node)) = 2 * length node"
  by (induction node) simp_all

text \<open>C16: A UUID is read back from its text when the compiler evaluates the left operand first; when it takes the right one first, the halves of
  the bytes of the node come back exchanged.\<close>

theorem uuid_round_trip:
  assumes "length (u_node u) = 6"
  shows "parse ltr (toString u) v = Returns (u\<lparr>u_node := map (if ltr then id else swap_nibbles) (u_node u)\<rparr>)"
proof -
  let ?a = "appendHex32 (u_timeLow u)" and ?b = "appendHex16 (u_timeMid u)" and ?c = "appendHex16 (u_timeHiAndVersion u)"
    and ?d = "appendHex16 (u_clockSeq u)" and ?e = "concat (map appendHex8 (u_node u))"
  have len: "length (toString u) = 36" using assms length_node_hex [of "u_node u"] by (simp add: toString_def)
  have h: "toString u ! 8 = CHR ''-''" "toString u ! 13 = CHR ''-''" "toString u ! 18 = CHR ''-''" "toString u ! 23 = CHR ''-''"
    by (simp_all add: toString_def nth_append)
  have r: "read_nibbles 8 (toString u) 0 = (u_timeLow u, CHR ''-'' # ?b @ CHR ''-'' # ?c @ CHR ''-'' # ?d @ CHR ''-'' # ?e)"
    by (simp add: toString_def read_hex32)
  have "tryParse ltr (toString u) v = (u\<lparr>u_node := read_node ltr 6 ?e\<rparr>, True)"
    unfolding tryParse_def using len h r by (simp add: skip_hyphen_def read_hex16_all Let_def)
  then show ?thesis using read_node_hex [OF assms, of ltr] by (simp add: parse_def)
qed

theorem uuid_round_trip_witness:
  "parse True (toString (null_uuid\<lparr>u_timeLow := 0x6BA7B810\<rparr>)) null_uuid = Returns (null_uuid\<lparr>u_timeLow := 0x6BA7B810\<rparr>)"
  using uuid_round_trip [of "null_uuid\<lparr>u_timeLow := 0x6BA7B810\<rparr>" True null_uuid] by (simp add: null_uuid_def)

section \<open>Bytes and order\<close>

text \<open>The bytes are those of the network order on every machine.\<close>

lemma flip16:
  fixes a b :: "8 word"
  shows "ucast (flipBytes16 w) = (ucast (drop_bit 8 w) :: 8 word)" "ucast (drop_bit 8 (flipBytes16 w)) = (ucast w :: 8 word)"
  "flipBytes16 (push_bit 8 (ucast b) OR ucast a) = push_bit 8 (ucast a) OR ucast b"
  unfolding flipBytes16_def by ((rule word8_eqI | rule word16_eqI), simp add: bit_simps bit_numeral_rec)+

lemma flip32:
  "ucast (flipBytes32 w) = (ucast (drop_bit 24 w) :: 8 word)" "ucast (drop_bit 8 (flipBytes32 w)) = (ucast (drop_bit 16 w) :: 8 word)"
  "ucast (drop_bit 16 (flipBytes32 w)) = (ucast (drop_bit 8 w) :: 8 word)" "ucast (drop_bit 24 (flipBytes32 w)) = (ucast w :: 8 word)"
  unfolding flipBytes32_def by (rule word8_eqI, simp add: bit_simps bit_numeral_rec)+

lemma flip32_load:
  fixes a b c d :: "8 word"
  shows "flipBytes32 (push_bit 24 (ucast d) OR push_bit 16 (ucast c) OR push_bit 8 (ucast b) OR ucast a)
    = push_bit 24 (ucast a) OR push_bit 16 (ucast b) OR push_bit 8 (ucast c) OR ucast d"
  unfolding flipBytes32_def by (rule word32_eqI, simp add: bit_simps bit_numeral_rec)

lemma flip_involution: "flipBytes16 (flipBytes16 v) = v" "flipBytes32 (flipBytes32 w) = w"
proof -
  show "flipBytes16 (flipBytes16 v) = v" unfolding flipBytes16_def by (rule word16_eqI) (simp add: bit_simps bit_numeral_rec)
  show "flipBytes32 (flipBytes32 w) = w" unfolding flipBytes32_def by (rule word32_eqI) (simp add: bit_simps bit_numeral_rec)
qed

lemma fromNetwork_toNetwork: "fromNetwork big (toNetwork big u) = u"
  by (cases u) (simp add: fromNetwork_def toNetwork_def toNetwork16_def toNetwork32_def flip_involution)

lemma network_bytes:
  "mem16 big (toNetwork16 big v) = [ucast (drop_bit 8 v), ucast v]"
  "mem32 big (toNetwork32 big w) = [ucast (drop_bit 24 w), ucast (drop_bit 16 w), ucast (drop_bit 8 w), ucast w]"
  by (simp_all add: mem16_def mem32_def toNetwork16_def toNetwork32_def flip16 flip32)

lemma network_load:
  "toNetwork16 big (load16 big [a, b]) = push_bit 8 (ucast a) OR ucast b"
  "toNetwork32 big (load32 big [a, b, c, d]) = push_bit 24 (ucast a) OR push_bit 16 (ucast b) OR push_bit 8 (ucast c) OR ucast d"
  by (simp_all add: load16_def load32_def toNetwork16_def toNetwork32_def flip16 flip32_load)

lemma join_bytes:
  "push_bit 8 (ucast (ucast (drop_bit 8 v) :: 8 word)) OR ucast (ucast v :: 8 word) = (v :: 16 word)"
  "push_bit 24 (ucast (ucast (drop_bit 24 w) :: 8 word)) OR push_bit 16 (ucast (ucast (drop_bit 16 w) :: 8 word))
     OR push_bit 8 (ucast (ucast (drop_bit 8 w) :: 8 word)) OR ucast (ucast w :: 8 word) = (w :: 32 word)"
  by (rule word16_eqI, simp add: bit_simps) (rule word32_eqI, simp add: bit_simps)

lemma copy_round_trip: "length (u_node u) = 6 \<Longrightarrow> copyFrom big' (copyTo big u) = u"
  by (simp add: copyFrom_def copyTo_def network_bytes network_load join_bytes)



text \<open>The order is the lexicographic one of the fields.\<close>

fun lex_compare :: "nat list \<Rightarrow> nat list \<Rightarrow> int" where
  "lex_compare [] [] = 0"
| "lex_compare [] (y # ys) = -1"
| "lex_compare (x # xs) [] = 1"
| "lex_compare (x # xs) (y # ys) = (if x < y then -1 else if y < x then 1 else lex_compare xs ys)"

definition fields :: "uuid \<Rightarrow> nat list" where
  "fields u = [unat (u_timeLow u), unat (u_timeMid u), unat (u_timeHiAndVersion u), unat (u_clockSeq u)] @ map unat (u_node u)"

lemma lex_compare_swap: "lex_compare ys xs = - lex_compare xs ys"
  by (induction xs ys rule: lex_compare.induct) auto

lemma lex_compare_Cons_le: "lex_compare (x # xs) (y # ys) \<le> 0 \<longleftrightarrow> x < y \<or> x = y \<and> lex_compare xs ys \<le> 0"
  by auto

lemma lex_compare_trans: "lex_compare xs ys \<le> 0 \<Longrightarrow> lex_compare ys zs \<le> 0 \<Longrightarrow> lex_compare xs zs \<le> 0"
proof (induction xs ys arbitrary: zs rule: lex_compare.induct)
  case (4 x xs y ys)
  show ?case
  proof (cases zs)
    case (Cons z zs')
    then show ?thesis using 4 unfolding Cons lex_compare_Cons_le by (metis less_trans less_not_refl)
  qed (use 4 in simp)
next
  case 1
  then show ?case by (cases zs) simp_all
next
  case (2 y ys)
  then show ?case by (cases zs) simp_all
qed simp

lemma lex_compare_eq: "lex_compare xs ys = 0 \<longleftrightarrow> xs = ys"
  by (induction xs ys rule: lex_compare.induct) auto

interpretation uuid_fields: comparator "\<lambda>u v. lex_compare (fields u) (fields v)"
  by unfold_locales (rule lex_compare_swap, rule lex_compare_trans)

lemma compare_node_lex: "length xs = length ys \<Longrightarrow> compare_node xs ys = lex_compare (map unat xs) (map unat ys)"
  by (induction xs ys rule: list_induct2) (auto simp: word_less_nat_alt)

lemma three_way:
  fixes x y :: "'a :: len word"
  shows "(if x \<noteq> y then (if x < y then -1 else 1) else r) = (if unat x < unat y then -1 else if unat y < unat x then 1 else (r :: int))"
  by (cases x y rule: linorder_cases) (auto simp: word_less_nat_alt)

lemma compare_lex: "length (u_node u) = 6 \<Longrightarrow> length (u_node v) = 6 \<Longrightarrow> compare u v = lex_compare (fields u) (fields v)"
proof -
  assume "length (u_node u) = 6" "length (u_node v) = 6"
  then have n: "compare_node (u_node u) (u_node v) = lex_compare (map unat (u_node u)) (map unat (u_node v))" by (intro compare_node_lex) simp
  show ?thesis unfolding compare_def fields_def three_way n by (simp only: append_Cons append_Nil lex_compare.simps)
qed

lemma fields_inject: "fields u = fields v \<longleftrightarrow> u = v"
proof
  have inj: "inj (unat :: 8 word \<Rightarrow> nat)" by (simp add: inj_def word_unat_eq_iff)
  assume "fields u = fields v"
  then show "u = v" by (intro uuid.equality) (simp_all add: fields_def word_unat_eq_iff inj_map_eq_map [OF inj])
qed simp

text \<open>C40: \<open>compare\<close> is a linear order on UUIDs: it is 0 for equal ones only, it changes its sign when its arguments are exchanged, and \<open><\<close> is
  transitive; so UUIDs can be keys of ordered containers.\<close>

theorem uuid_order:
  assumes "length (u_node u) = 6" "length (u_node v) = 6" "length (u_node w) = 6"
  shows "(compare u v = 0 \<longleftrightarrow> u = v) \<and> compare v u = - compare u v \<and> (compare u v < 0 \<and> compare v w < 0 \<longrightarrow> compare u w < 0)"
proof -
  note c = compare_lex [OF assms(1,2)] compare_lex [OF assms(2,1)] compare_lex [OF assms(2,3)] compare_lex [OF assms(1,3)]
  show ?thesis unfolding c lex_compare_eq fields_inject using uuid_fields.cmp_swap [of v u] uuid_fields.less_trans [of u v w] by blast
qed

theorem uuid_order_witness:
  "compare null_uuid (null_uuid\<lparr>u_clockSeq := 1\<rparr>) < 0 \<and> compare (null_uuid\<lparr>u_clockSeq := 1\<rparr>) null_uuid = - compare null_uuid (null_uuid\<lparr>u_clockSeq := 1\<rparr>)"
  using uuid_order [of null_uuid "null_uuid\<lparr>u_clockSeq := 1\<rparr>" null_uuid] by (simp add: null_uuid_def compare_def)

end
