(* ===== verification/Glob.thy ===== *)
theory Glob
  imports UTF8Encoding
begin

text \<open>
  Glob patterns and the text iterator under them: \<^verbatim>\<open>Foundation/src/TextIterator.cpp\<close>, and the matching part of
  \<^verbatim>\<open>Foundation/src/Glob.cpp\<close>. A \<open>TextIterator\<close> is the bytes from its position to the end of the string; dereferencing and
  incrementing one query the UTF-8 encoding. The matcher runs over the characters that the iterators give, which lemma \<open>units_total\<close>
  justifies: no dereference on the way to the end fails, so reading the characters ahead changes nothing. The functions that walk
  the file system (\<open>Glob::glob\<close>, \<open>Glob::collect\<close>) are not modelled, and \<open>Unicode::toLower\<close> is the parameter \<open>lower\<close>.
\<close>

unbundle bit_operations_syntax

section \<open>TextIterator\<close>

text \<open>\<open>*it\<close> with the UTF-8 encoding: one byte is queried, and then as many as it asks for when they are there. The second query has the
  whole sequence, so the loop of the code runs at most once.\<close>

definition deref :: "string \<Rightarrow> exn + int" where
  "deref it =
     (if it = [] then Inl AssertionViolation
      else
        case queryConvert (take 1 it) 1 of
          Inl e \<Rightarrow> Inl e
        | Inr n \<Rightarrow>
            if -1 > n \<and> int (length (tl it)) \<ge> - n - 1
            then map_sum id (\<lambda>n. if -1 > n then -1 else n) (queryConvert (take (nat (- n)) it) (- n))
            else Inr (if -1 > n then -1 else n))"

definition increment :: "string \<Rightarrow> exn + string" where
  "increment it =
     (if it = [] then Inl AssertionViolation
      else case sequenceLength (take 1 it) 1 of Inl e \<Rightarrow> Inl e | Inr n \<Rightarrow> Inr (drop (nat n) it))"

lemma increment_shorter: "increment it = Inr it' \<Longrightarrow> length it' < length it"
proof -
  assume a: "increment it = Inr it'"
  then obtain c cs where it: "it = c # cs" by (cases it) (auto simp: increment_def)
  then show ?thesis using a by (auto simp: increment_def sequenceLength_def Let_def split: if_splits)
qed

text \<open>The characters an iterator gives on its way to the end.\<close>

function units :: "string \<Rightarrow> exn + int list" where
  "units it =
     (if it = [] then Inr []
      else
        case deref it of
          Inl e \<Rightarrow> Inl e
        | Inr c \<Rightarrow>
            (case increment it of
               Inl e \<Rightarrow> Inl e
             | Inr it' \<Rightarrow> map_sum id (\<lambda>cs. c # cs) (units it')))"
  by pat_completeness auto
termination by (relation "measure length") (auto dest: increment_shorter)

declare units.simps [simp del]

lemma units_encoded:
  assumes "list_all scalar cs"
  shows "units (concat (map encoded cs)) = Inr cs"
  using assms
proof (induction cs)
  case Nil
  then show ?case by (simp add: units.simps)
next
  case (Cons ch cs)
  let ?r = "concat (map encoded cs)" and ?n = "int (length (encoded ch))"
  have s: "scalar ch" using Cons.prems by simp
  have ne: "encoded ch \<noteq> []" using length_encoded [OF s] by auto
  have "sequenceLength (take 1 (encoded ch @ ?r)) 1 = Inr ?n"
    using sequenceLength_encoded [OF s, of 1 "[]"] ne by (cases "encoded ch") (simp_all add: sequenceLength_def)
  then have i: "increment (encoded ch @ ?r) = Inr ?r" using ne by (simp add: increment_def)
  have "deref (encoded ch @ ?r) = Inr ch"
  proof (cases "length (encoded ch) = 1")
    case True
    then have "take 1 (encoded ch @ ?r) = encoded ch" by simp
    moreover have "queryConvert (encoded ch) 1 = Inr ch" using queryConvert_encoded [OF s, of 1 "[]"] True by simp
    ultimately show ?thesis using ne s by (simp add: deref_def scalar_def)
  next
    case False
    have q: "queryConvert (take 1 (encoded ch @ ?r)) 1 = Inr (- ?n)"
    proof -
      obtain a bs where e: "encoded ch = a # bs" using ne by (cases "encoded ch") auto
      have "(if charMap ! uchar a \<ge> 0 then 1 else - (charMap ! uchar a)) = ?n"
        using sequenceLength_encoded [OF s, of 1 "[]"] e by (simp add: sequenceLength_def Let_def)
      then have "charMap ! uchar a = - ?n" "?n > 1" using False ne by (auto split: if_splits)
      then show ?thesis using e by (simp add: queryConvert_def)
    qed
    have "queryConvert (encoded ch) ?n = Inr ch" using queryConvert_encoded [OF s, of ?n "[]"] by simp
    moreover have "\<not> - 1 > ch" using s by (simp add: scalar_def)
    moreover have "- 1 > - ?n" using False ne by (cases "encoded ch") auto
    moreover have "int (length (tl (encoded ch @ ?r))) \<ge> ?n - 1" by (cases "encoded ch") auto
    ultimately show ?thesis using q ne by (simp add: deref_def)
  qed
  then show ?case using Cons i ne by (simp add: units.simps [of "encoded ch @ ?r"])
qed

section \<open>Matching\<close>

definition GLOB_DOT_SPECIAL :: int where "GLOB_DOT_SPECIAL = 0x01"
definition GLOB_FOLLOW_SYMLINKS :: int where "GLOB_FOLLOW_SYMLINKS = 0x02"
definition GLOB_CASELESS :: int where "GLOB_CASELESS = 0x04"
definition GLOB_DIRS_ONLY :: int where "GLOB_DIRS_ONLY = 0x80"

abbreviation (input) quest :: int where "quest \<equiv> 0x3F"
abbreviation (input) asterisk :: int where "asterisk \<equiv> 0x2A"
abbreviation (input) bracket :: int where "bracket \<equiv> 0x5B"
abbreviation (input) closing :: int where "closing \<equiv> 0x5D"
abbreviation (input) backslash :: int where "backslash \<equiv> 0x5C"
abbreviation (input) hyphen :: int where "hyphen \<equiv> 0x2D"
abbreviation (input) bang :: int where "bang \<equiv> 0x21"

abbreviation bad_range :: exn where "bad_range \<equiv> SyntaxException ''bad range syntax in glob pattern''"
abbreviation bad_backslash :: exn where "bad_backslash \<equiv> SyntaxException ''backslash must be followed by character in glob pattern''"
abbreviation open_range :: exn where "open_range \<equiv> SyntaxException ''range must be terminated by closing bracket in glob pattern''"

text \<open>\<open>lower\<close> is \<open>Unicode::toLower\<close>. The comparison of two characters:\<close>

definition fold_case :: "(int \<Rightarrow> int) \<Rightarrow> int \<Rightarrow> int \<Rightarrow> int" where
  "fold_case lower options c = (if options AND GLOB_CASELESS \<noteq> 0 then lower c else c)"

text \<open>After a range that has the character, the loop to the closing bracket.\<close>

fun skip_set :: "int list \<Rightarrow> exn + bool \<times> int list" where
  "skip_set [] = Inl open_range"
| "skip_set (x # itp) =
     (if x = closing then Inr (True, itp)
      else if x = backslash then (case itp of [] \<Rightarrow> Inl open_range | y # itp \<Rightarrow> skip_set itp)
      else skip_set itp)"

text \<open>\<open>matchSet\<close> gives whether the set has the character \<open>c\<close>, whose case has been folded, and the rest of the pattern.\<close>

definition read_first :: "int list \<Rightarrow> exn + int \<times> int list" where
  "read_first itp =
     (case itp of
        [] \<Rightarrow> Inl AssertionViolation
      | x # itp \<Rightarrow> if x = backslash then (case itp of [] \<Rightarrow> Inl bad_backslash | y # itp \<Rightarrow> Inr (y, itp)) else Inr (x, itp))"

definition read_last :: "int \<Rightarrow> int list \<Rightarrow> exn + int \<times> int list" where
  "read_last first itp =
     (case itp of
        x # itp' \<Rightarrow> if x = hyphen then (case itp' of [] \<Rightarrow> Inl bad_range | z # itp' \<Rightarrow> Inr (z, itp')) else Inr (first, itp)
      | [] \<Rightarrow> Inr (first, itp))"

lemma read_first_shorter: "read_first itp = Inr (c, itp') \<Longrightarrow> length itp' < length itp"
  by (auto simp: read_first_def split: list.splits if_splits)

lemma read_last_shorter: "read_last c itp = Inr (d, itp') \<Longrightarrow> length itp' \<le> length itp"
  by (auto simp: read_last_def split: list.splits if_splits)

function set_loop :: "(int \<Rightarrow> int) \<Rightarrow> int \<Rightarrow> int \<Rightarrow> int list \<Rightarrow> exn + bool \<times> int list" where
  "set_loop lower options c itp =
     (if itp = [] then Inr (False, [])
      else if hd itp = closing then Inr (False, tl itp)
      else
        case read_first itp of
          Inl e \<Rightarrow> Inl e
        | Inr (first, itp') \<Rightarrow>
            (case read_last first itp' of
               Inl e \<Rightarrow> Inl e
             | Inr (final, itp'') \<Rightarrow>
                 if fold_case lower options first \<le> c \<and> c \<le> fold_case lower options final then skip_set itp''
                 else set_loop lower options c itp''))"
  by pat_completeness auto
termination by (relation "measure (\<lambda>(lower, options, c, itp). length itp)") (auto dest!: read_first_shorter read_last_shorter)

declare set_loop.simps [simp del]

definition matchSet :: "(int \<Rightarrow> int) \<Rightarrow> int \<Rightarrow> int list \<Rightarrow> int \<Rightarrow> exn + bool \<times> int list" where
  "matchSet lower options itp c = set_loop lower options (fold_case lower options c) itp"

lemma skip_set_shorter: "skip_set itp = Inr (b, itp') \<Longrightarrow> length itp' < length itp"
  by (induction itp rule: skip_set.induct) (auto split: if_splits list.splits simp: less_SucI)

lemma set_loop_shorter: "set_loop lower options c itp = Inr (b, itp') \<Longrightarrow> length itp' \<le> length itp"
proof (induction lower options c itp rule: set_loop.induct)
  case (1 lower options c itp)
  show ?case
  proof (cases "itp = [] \<or> hd itp = closing")
    case True
    then show ?thesis using 1(2) by (auto simp: set_loop.simps [of lower options c itp] split: if_splits)
  next
    case False
    then obtain first itp1 final itp2 where r: "read_first itp = Inr (first, itp1)" "read_last first itp1 = Inr (final, itp2)"
      using 1(2) by (auto simp: set_loop.simps [of lower options c itp] split: sum.splits)
    have l: "length itp2 < length itp" using read_first_shorter [OF r(1)] read_last_shorter [OF r(2)] by simp
    show ?thesis
    proof (cases "fold_case lower options first \<le> c \<and> c \<le> fold_case lower options final")
      case True
      then have "skip_set itp2 = Inr (b, itp')" using 1(2) False r by (simp add: set_loop.simps [of lower options c itp])
      then show ?thesis using skip_set_shorter l by fastforce
    next
      case F: False
      have "set_loop lower options c itp2 = Inr (b, itp')"
        using 1(2) False r if_not_P [OF F, of "skip_set itp2" "set_loop lower options c itp2"]
        by (simp add: set_loop.simps [of lower options c itp])
      then show ?thesis using 1(1) [of "(first, itp1)" first itp1 "(final, itp2)" final itp2] False F r l by auto
    qed
  qed
qed

function match_iter :: "(int \<Rightarrow> int) \<Rightarrow> int \<Rightarrow> int list \<Rightarrow> int list \<Rightarrow> exn + bool"
  and asterisk_loop :: "(int \<Rightarrow> int) \<Rightarrow> int \<Rightarrow> int list \<Rightarrow> int list \<Rightarrow> exn + bool" where
  "match_iter lower options itp its =
     (if itp = [] then Inr (its = [])
      else if its = [] then Inr (dropWhile (\<lambda>c. c = asterisk) itp = [])
      else if hd itp = quest then match_iter lower options (tl itp) (tl its)
      else if hd itp = asterisk then (if tl itp \<noteq> [] then asterisk_loop lower options (tl itp) its else Inr True)
      else if hd itp = bracket then
        (if tl itp = [] then Inl bad_range
         else
           let invert = hd (tl itp) = bang; itp' = (if invert then tl (tl itp) else tl itp)
           in if itp' = [] then Inl bad_range
              else
                case matchSet lower options itp' (hd its) of
                  Inl e \<Rightarrow> Inl e
                | Inr (mtch, itp'') \<Rightarrow> if invert \<and> mtch \<or> \<not> invert \<and> \<not> mtch then Inr False else match_iter lower options itp'' (tl its))
      else if hd itp = backslash \<and> tl itp = [] then Inl bad_backslash
      else
        let itp' = (if hd itp = backslash then tl itp else itp)
        in if fold_case lower options (hd itp') \<noteq> fold_case lower options (hd its) then Inr False
           else match_iter lower options (tl itp') (tl its))"
| "asterisk_loop lower options itp its =
     (if its = [] then Inr False
      else
        case match_iter lower options itp its of
          Inl e \<Rightarrow> Inl e
        | Inr b \<Rightarrow> if b then Inr True else asterisk_loop lower options itp (tl its))"
  by pat_completeness auto
termination
proof (relation "measures [\<lambda>x. case x of Inl (lower, options, itp, its) \<Rightarrow> length itp | Inr (lower, options, itp, its) \<Rightarrow> length itp,
    \<lambda>x. case x of Inl (lower, options, itp, its) \<Rightarrow> length its | Inr (lower, options, itp, its) \<Rightarrow> length its,
    \<lambda>x. case x of Inl _ \<Rightarrow> 0 | Inr _ \<Rightarrow> 1]")
qed (auto simp: matchSet_def dest!: set_loop_shorter split: if_splits)

declare match_iter.simps [simp del] asterisk_loop.simps [simp del]

text \<open>\<open>Glob::match\<close> of a subject; dereferencing the pattern at its end is an assertion.\<close>

definition glob_match :: "(int \<Rightarrow> int) \<Rightarrow> int \<Rightarrow> string \<Rightarrow> string \<Rightarrow> exn + bool" where
  "glob_match lower options pattern subject =
     (case units pattern of
        Inl e \<Rightarrow> Inl e
      | Inr itp \<Rightarrow>
          (case units subject of
             Inl e \<Rightarrow> Inl e
           | Inr its \<Rightarrow>
               if options AND GLOB_DOT_SPECIAL \<noteq> 0 \<and> its \<noteq> [] \<and> hd its = 0x2E then
                 (if itp = [] then Inl AssertionViolation
                  else if hd itp = quest \<or> hd itp = asterisk then Inr False
                  else match_iter lower options itp its)
               else match_iter lower options itp its))"

section \<open>The language of a pattern\<close>

datatype item = Any | Star | Lit int | Ranges bool "(int \<times> int) list"

function parse_set :: "int list \<Rightarrow> ((int \<times> int) list \<times> int list) option" where
  "parse_set itp =
     (if itp = [] then None
      else if hd itp = closing then Some ([], tl itp)
      else
        case read_first itp of
          Inl e \<Rightarrow> None
        | Inr (first, itp') \<Rightarrow>
            (case read_last first itp' of
               Inl e \<Rightarrow> None
             | Inr (final, itp'') \<Rightarrow>
                 if itp'' \<noteq> itp' \<and> final \<in> {closing, backslash} then None
                 else map_option (\<lambda>(rs, r). ((first, final) # rs, r)) (parse_set itp'')))"
  by pat_completeness auto
termination by (relation "measure length") (auto dest!: read_first_shorter read_last_shorter)

declare parse_set.simps [simp del]

lemma parse_set_Some:
  assumes "parse_set itp = Some (rs, r)"
  shows "itp \<noteq> [] \<and> hd itp = closing \<and> rs = [] \<and> r = tl itp \<or>
    (\<exists>first itp1 final itp2 rs'. itp \<noteq> [] \<and> hd itp \<noteq> closing \<and> read_first itp = Inr (first, itp1) \<and> read_last first itp1 = Inr (final, itp2) \<and>
       (itp2 \<noteq> itp1 \<longrightarrow> final \<notin> {closing, backslash}) \<and> rs = (first, final) # rs' \<and> parse_set itp2 = Some (rs', r))"
  using assms by (subst (asm) parse_set.simps) (auto split: if_splits sum.splits)

lemma parse_set_shorter: "parse_set itp = Some (rs, r) \<Longrightarrow> length r < length itp"
proof (induction rs arbitrary: itp)
  case Nil
  then show ?case using parse_set_Some [OF Nil] by auto
next
  case (Cons a rs)
  obtain first itp1 final itp2 where "read_first itp = Inr (first, itp1)" "read_last first itp1 = Inr (final, itp2)" "parse_set itp2 = Some (rs, r)"
    using parse_set_Some [OF Cons.prems] by auto
  then show ?case using Cons.IH [of itp2] read_first_shorter [of itp first itp1] read_last_shorter [of first itp1 final itp2] by simp
qed

lemma skip_set_first:
  assumes "read_first itp = Inr (first, itp1)" and "hd itp \<noteq> closing"
  shows "skip_set itp = skip_set itp1"
proof (cases itp)
  case (Cons x xs)
  then show ?thesis using assms by (cases "x = backslash"; cases xs) (simp_all add: read_first_def)
qed (use assms in \<open>simp add: read_first_def\<close>)

lemma skip_set_last:
  assumes "read_last first itp1 = Inr (final, itp2)" and "itp2 \<noteq> itp1 \<longrightarrow> final \<notin> {closing, backslash}"
  shows "skip_set itp1 = skip_set itp2"
proof (cases "\<exists>z. itp1 = hyphen # z # itp2 \<and> final = z")
  case True
  then show ?thesis using assms(2) by auto
next
  case False
  then have "itp2 = itp1" using assms(1) unfolding read_last_def by (auto split: list.splits if_splits)
  then show ?thesis by simp
qed

lemma skip_set_parsed: "parse_set itp = Some (rs, r) \<Longrightarrow> skip_set itp = Inr (True, r)"
proof (induction rs arbitrary: itp)
  case Nil
  then show ?case using parse_set_Some [OF Nil] by (cases itp) auto
next
  case (Cons a rs)
  obtain first itp1 final itp2 where *: "hd itp \<noteq> closing" "read_first itp = Inr (first, itp1)" "read_last first itp1 = Inr (final, itp2)"
      "itp2 \<noteq> itp1 \<longrightarrow> final \<notin> {closing, backslash}" "parse_set itp2 = Some (rs, r)"
    using parse_set_Some [OF Cons.prems] by auto
  show ?case using skip_set_first [OF *(2,1)] skip_set_last [OF *(3,4)] Cons.IH [OF *(5)] by simp
qed

definition in_ranges :: "(int \<Rightarrow> int) \<Rightarrow> int \<Rightarrow> (int \<times> int) list \<Rightarrow> int \<Rightarrow> bool" where
  "in_ranges lower options rs c \<longleftrightarrow>
     (\<exists>(first, final) \<in> set rs. fold_case lower options first \<le> fold_case lower options c \<and> fold_case lower options c \<le> fold_case lower options final)"

lemma matchSet_parsed: "parse_set itp = Some (rs, r) \<Longrightarrow> matchSet lower options itp c = Inr (in_ranges lower options rs c, r)"
proof (induction rs arbitrary: itp)
  case Nil
  then show ?case using parse_set_Some [OF Nil] by (auto simp: matchSet_def set_loop.simps [of _ _ _ itp] in_ranges_def)
next
  case (Cons a rs)
  obtain first itp1 final itp2 where *: "itp \<noteq> []" "hd itp \<noteq> closing" "read_first itp = Inr (first, itp1)" "read_last first itp1 = Inr (final, itp2)"
      "parse_set itp2 = Some (rs, r)" "a = (first, final)"
    using parse_set_Some [OF Cons.prems] by auto
  then show ?case using Cons.IH [OF *(5)] skip_set_parsed [OF *(5)]
    by (auto simp: matchSet_def set_loop.simps [of _ _ _ itp] in_ranges_def)
qed

function parse_glob :: "int list \<Rightarrow> item list option" where
  "parse_glob p =
     (if p = [] then Some []
      else if hd p = quest then map_option (\<lambda>is. Any # is) (parse_glob (tl p))
      else if hd p = asterisk then map_option (\<lambda>is. Star # is) (parse_glob (tl p))
      else if hd p = bracket then
        (if tl p = [] then None
         else
           let invert = hd (tl p) = bang
           in case parse_set (if invert then tl (tl p) else tl p) of
                None \<Rightarrow> None
              | Some (rs, r) \<Rightarrow> map_option (\<lambda>is. Ranges invert rs # is) (parse_glob r))
      else if hd p = backslash then
        (if tl p = [] then None else map_option (\<lambda>is. Lit (hd (tl p)) # is) (parse_glob (tl (tl p))))
      else map_option (\<lambda>is. Lit (hd p) # is) (parse_glob (tl p)))"
  by pat_completeness auto
termination by (relation "measure length") (auto dest!: parse_set_shorter split: if_splits)

declare parse_glob.simps [simp del]

text \<open>The words an item stands for.\<close>

definition fits1 :: "(int \<Rightarrow> int) \<Rightarrow> int \<Rightarrow> item \<Rightarrow> int \<Rightarrow> bool" where
  "fits1 lower options i c =
     (case i of
        Any \<Rightarrow> True
      | Star \<Rightarrow> False
      | Lit d \<Rightarrow> fold_case lower options d = fold_case lower options c
      | Ranges invert rs \<Rightarrow> invert \<noteq> in_ranges lower options rs c)"

definition fits_word :: "(int \<Rightarrow> int) \<Rightarrow> int \<Rightarrow> item \<Rightarrow> int list \<Rightarrow> bool" where
  "fits_word lower options i w \<longleftrightarrow> i = Star \<or> (\<exists>c. w = [c] \<and> fits1 lower options i c)"

definition matches :: "(int \<Rightarrow> int) \<Rightarrow> int \<Rightarrow> item list \<Rightarrow> int list \<Rightarrow> bool" where
  "matches lower options items s \<longleftrightarrow> (\<exists>ws. s = concat ws \<and> list_all2 (fits_word lower options) items ws)"

lemma matches_Nil [simp]: "matches lower options [] s \<longleftrightarrow> s = []"
  by (auto simp: matches_def)

lemma matches_Cons: "matches lower options (i # items) s \<longleftrightarrow> (\<exists>w r. s = w @ r \<and> fits_word lower options i w \<and> matches lower options items r)"
proof
  assume "matches lower options (i # items) s"
  then obtain w ws where "s = w @ concat ws" "fits_word lower options i w" "list_all2 (fits_word lower options) items ws"
    by (auto simp: matches_def list_all2_Cons1)
  then show "\<exists>w r. s = w @ r \<and> fits_word lower options i w \<and> matches lower options items r" unfolding matches_def by blast
next
  assume "\<exists>w r. s = w @ r \<and> fits_word lower options i w \<and> matches lower options items r"
  then obtain w ws where "s = w @ concat ws" "fits_word lower options i w" "list_all2 (fits_word lower options) items ws"
    unfolding matches_def by blast
  then show "matches lower options (i # items) s" unfolding matches_def by (intro exI [of _ "w # ws"]) simp
qed

lemma matches_one:
  assumes "i \<noteq> Star"
  shows "matches lower options (i # items) [] = False"
    and "matches lower options (i # items) (c # s) \<longleftrightarrow> fits1 lower options i c \<and> matches lower options items s"
proof -
  have f: "fits_word lower options i w \<longleftrightarrow> (\<exists>c. w = [c] \<and> fits1 lower options i c)" for w using assms by (simp add: fits_word_def)
  show "matches lower options (i # items) [] = False" by (auto simp: matches_Cons f)
  have "fits1 lower options i c \<Longrightarrow> matches lower options items s \<Longrightarrow> matches lower options (i # items) (c # s)"
    unfolding matches_Cons f by (intro exI [of _ "[c]"] exI [of _ s]) simp
  then show "matches lower options (i # items) (c # s) \<longleftrightarrow> fits1 lower options i c \<and> matches lower options items s"
    by (auto simp: matches_Cons f)
qed

lemma matches_Star: "matches lower options (Star # items) s \<longleftrightarrow> (\<exists>k \<le> length s. matches lower options items (drop k s))"
proof
  assume "matches lower options (Star # items) s"
  then obtain w r where "s = w @ r" "matches lower options items r" by (auto simp: matches_Cons)
  then show "\<exists>k \<le> length s. matches lower options items (drop k s)" by (intro exI [of _ "length w"]) simp
next
  assume "\<exists>k \<le> length s. matches lower options items (drop k s)"
  then obtain k where "matches lower options items (drop k s)" by auto
  then show "matches lower options (Star # items) s"
    unfolding matches_Cons by (intro exI [of _ "take k s"] exI [of _ "drop k s"]) (simp add: fits_word_def)
qed

lemma matches_empty: "matches lower options items [] \<longleftrightarrow> list_all (\<lambda>i. i = Star) items"
proof (induction items)
  case (Cons i items)
  then show ?case by (cases "i = Star") (auto simp: matches_Star matches_one)
qed simp

lemma matches_Stars: "list_all (\<lambda>i. i = Star) items \<Longrightarrow> items \<noteq> [] \<Longrightarrow> matches lower options items s"
  by (cases items) (auto simp: matches_Star matches_empty intro!: exI [of _ "length s"])

lemma parse_glob_Star: "parse_glob p = Some items \<Longrightarrow> p \<noteq> [] \<Longrightarrow> hd p = asterisk \<Longrightarrow> \<exists>is. items = Star # is \<and> parse_glob (tl p) = Some is"
  by (subst (asm) parse_glob.simps) auto

lemma parse_glob_other: "parse_glob p = Some items \<Longrightarrow> p \<noteq> [] \<Longrightarrow> hd p \<noteq> asterisk \<Longrightarrow> \<exists>i is. items = i # is \<and> i \<noteq> Star"
  by (subst (asm) parse_glob.simps) (auto simp: Let_def split: if_splits option.splits)

lemma parse_glob_Nil [simp]: "parse_glob [] = Some []"
  by (simp add: parse_glob.simps)

lemma asterisks: "parse_glob p = Some items \<Longrightarrow> dropWhile (\<lambda>c. c = asterisk) p = [] \<longleftrightarrow> list_all (\<lambda>i. i = Star) items"
proof (induction p arbitrary: items)
  case (Cons c p)
  show ?case
  proof (cases "c = asterisk")
    case True
    then show ?thesis using Cons.IH parse_glob_Star [OF Cons.prems] by auto
  next
    case False
    then show ?thesis using parse_glob_other [OF Cons.prems] by auto
  qed
qed simp

text \<open>The step of a pattern that starts with an item for one character.\<close>

lemma match_iter_one:
  assumes "parse_glob p = Some items" and "p \<noteq> []" and "hd p \<noteq> asterisk" and "s \<noteq> []"
  obtains i "is" p' where "items = i # is" and "i \<noteq> Star" and "parse_glob p' = Some is"
    and "length p' < length p"
    and "match_iter lower options p s = (if fits1 lower options i (hd s) then match_iter lower options p' (tl s) else Inr False)"
proof -
  consider "hd p = quest" | "hd p = bracket" | "hd p = backslash" | "hd p \<notin> {quest, bracket, backslash}" by auto
  then show ?thesis
  proof cases
    case 1
    then show ?thesis using assms that [of Any]
      by (subst (asm) parse_glob.simps) (auto simp: match_iter.simps [of _ _ p] fits1_def)
  next
    case 2
    let ?inv = "hd (tl p) = bang"
    let ?q = "if ?inv then tl (tl p) else tl p"
    obtain rs r "is" where *: "tl p \<noteq> []" "parse_set ?q = Some (rs, r)" "parse_glob r = Some is" "items = Ranges ?inv rs # is"
      using 2 assms(1,2) by (subst (asm) parse_glob.simps) (auto simp: Let_def split: if_splits option.splits)
    have q: "?q \<noteq> []" using parse_set_Some [OF *(2)] by auto
    have l: "length r < length p" using parse_set_shorter [OF *(2)] by (auto split: if_splits)
    have m: "match_iter lower options p s =
        (if fits1 lower options (Ranges ?inv rs) (hd s) then match_iter lower options r (tl s) else Inr False)"
      unfolding match_iter.simps [of _ _ p] fits1_def
      using 2 assms(2,4) *(1) q matchSet_parsed [OF *(2), of lower options "hd s"] by (auto simp: Let_def)
    show ?thesis using that [OF *(4) _ *(3) l m] by simp
  next
    case 3
    then show ?thesis using assms that [of "Lit (hd (tl p))" _ "tl (tl p)"]
      by (subst (asm) parse_glob.simps) (auto simp: match_iter.simps [of _ _ p] fits1_def split: if_splits)
  next
    case 4
    then show ?thesis using assms that [of "Lit (hd p)" _ "tl p"]
      by (subst (asm) parse_glob.simps) (auto simp: match_iter.simps [of _ _ p] fits1_def)
  qed
qed

lemma asterisk_loop_spec:
  assumes "\<And>s'. length s' \<le> length s \<Longrightarrow> match_iter lower options p s' = Inr (f s')"
  shows "asterisk_loop lower options p s = Inr (\<exists>k < length s. f (drop k s))"
  using assms
proof (induction s)
  case (Cons c s)
  have "(\<exists>k < Suc (length s). f (drop k (c # s))) \<longleftrightarrow> f (c # s) \<or> (\<exists>k < length s. f (drop k s))"
    by (auto simp: less_Suc_eq_0_disj)
  then show ?case using Cons by (auto simp: asterisk_loop.simps [of _ _ p "c # s"])
qed (simp add: asterisk_loop.simps)

lemma match_iter_spec: "parse_glob p = Some items \<Longrightarrow> match_iter lower options p s = Inr (matches lower options items s)"
proof (induction "length p" arbitrary: p items s rule: less_induct)
  case less
  show ?case
  proof (cases "p = [] \<or> s = []")
    case True
    then show ?thesis using less.prems asterisks [OF less.prems] by (auto simp: match_iter.simps [of _ _ p] matches_empty)
  next
    case False
    show ?thesis
    proof (cases "hd p = asterisk")
      case True
      obtain "is" where i: "items = Star # is" "parse_glob (tl p) = Some is" using parse_glob_Star [OF less.prems] True False by auto
      have "match_iter lower options (tl p) s' = Inr (matches lower options is s')" for s' using less.hyps [OF _ i(2)] False by simp
      then have a: "asterisk_loop lower options (tl p) s = Inr (\<exists>k < length s. matches lower options is (drop k s))"
        by (rule asterisk_loop_spec)
      have "matches lower options is [] \<Longrightarrow> is \<noteq> [] \<Longrightarrow> matches lower options is (drop 0 s)"
        using matches_Stars by (auto simp: matches_empty)
      then have "is \<noteq> [] \<Longrightarrow> matches lower options items s \<longleftrightarrow> (\<exists>k < length s. matches lower options is (drop k s))"
        unfolding i matches_Star using False by (metis drop_all le_eq_less_or_eq length_greater_0_conv order_refl)
      moreover have "is = [] \<longleftrightarrow> tl p = []" using i(2) parse_glob_Star [OF i(2)] parse_glob_other [OF i(2)] by auto
      ultimately show ?thesis using a True False i by (auto simp: match_iter.simps [of _ _ p] matches_Star)
    next
      case o: False
      obtain i "is" p' where "items = i # is" "i \<noteq> Star" "parse_glob p' = Some is" "length p' < length p"
        "match_iter lower options p s = (if fits1 lower options i (hd s) then match_iter lower options p' (tl s) else Inr False)"
        using match_iter_one [OF less.prems _ o] False by blast
      then show ?thesis using less.hyps [of p' "is" "tl s"] False matches_one [of i] by (cases s) auto
    qed
  qed
qed

lemma charMap_range: "charMap ! uchar a \<in> {-6..<128}"
proof -
  have "uchar a < length charMap" by (simp add: charMap_def uchar_def)
  then have "charMap ! uchar a \<in> set charMap" by simp
  then show ?thesis by (auto simp: charMap_def)
qed

lemma isLegal_total: "nat n \<le> length bytes \<Longrightarrow> \<exists>b. isLegal bytes n = Inr b"
  by (auto simp: isLegal_def Let_def)

lemma decode_sequence_total: "nat (- n) \<le> length bytes \<Longrightarrow> \<exists>c. decode_sequence n bytes = Inr c"
  using isLegal_total [of "- n" bytes] by (auto simp: decode_sequence_def Let_def)

lemma deref_total: "it \<noteq> [] \<Longrightarrow> \<exists>c. deref it = Inr c"
proof -
  assume "it \<noteq> []"
  then obtain a as where it: "it = a # as" by (cases it) auto
  let ?n = "charMap ! uchar a"
  show ?thesis
  proof (cases "- ?n > 1")
    case True
    show ?thesis
    proof (cases "- ?n - 1 \<le> int (length as)")
      case l: True
      then obtain c where "decode_sequence ?n (take (nat (- ?n)) it) = Inr c"
        using it decode_sequence_total [of ?n "take (nat (- ?n)) it"] by auto
      then show ?thesis using it True l by (cases "nat (- ?n)") (auto simp: deref_def queryConvert_def)
    next
      case False
      then show ?thesis using it True by (auto simp: deref_def queryConvert_def)
    qed
  next
    case False
    then have "queryConvert [a] 1 = Inr ?n" by (auto simp: queryConvert_def decode_sequence_def Let_def)
    then show ?thesis using it False by (simp add: deref_def)
  qed
qed

lemma increment_total: "it \<noteq> [] \<Longrightarrow> \<exists>it'. increment it = Inr it'"
  by (cases it) (auto simp: increment_def sequenceLength_def Let_def)

lemma units_total: "\<exists>cs. units s = Inr cs"
proof (induction s rule: units.induct)
  case (1 it)
  show ?case
  proof (cases "it = []")
    case True
    then show ?thesis by (simp add: units.simps)
  next
    case False
    obtain c it' where c: "deref it = Inr c" "increment it = Inr it'" using deref_total increment_total False by blast
    then obtain cs where "units it' = Inr cs" using 1 False by blast
    then show ?thesis using c False by (auto simp: units.simps [of it])
  qed
qed

lemma units_start:
  assumes "units s = Inr cs"
  shows "cs = [] \<longleftrightarrow> s = []" and "cs \<noteq> [] \<Longrightarrow> deref s = Inr (hd cs)"
proof -
  have "s \<noteq> [] \<Longrightarrow> \<exists>cs'. deref s = Inr (hd cs) \<and> cs = hd cs # cs'"
    using assms units.simps [of s] by (cases "deref s"; cases "increment s"; cases "units (projr (increment s))") auto
  moreover have "s = [] \<Longrightarrow> cs = []" using assms by (simp add: units.simps)
  ultimately show "cs = [] \<longleftrightarrow> s = []" "cs \<noteq> [] \<Longrightarrow> deref s = Inr (hd cs)" by auto
qed

lemma wildcards:
  assumes "parse_glob ps = Some items" and "ps \<noteq> []"
  shows "hd items \<in> {Any, Star} \<longleftrightarrow> hd ps = quest \<or> hd ps = asterisk"
  using assms by (subst (asm) parse_glob.simps) (auto simp: Let_def split: if_splits option.splits)

lemma skip_set_error: "skip_set itp = Inl e \<Longrightarrow> e = open_range"
  by (induction itp rule: skip_set.induct) (auto split: if_splits list.splits)

lemma read_errors:
  "read_first itp = Inl e \<Longrightarrow> itp \<noteq> [] \<Longrightarrow> e = bad_backslash"
  "read_last c itp = Inl e \<Longrightarrow> e = bad_range"
  by (auto simp: read_first_def read_last_def split: list.splits if_splits)

definition syntax_error :: "exn \<Rightarrow> bool" where
  "syntax_error e \<longleftrightarrow> e \<in> {bad_range, bad_backslash, open_range}"

lemma set_loop_error: "set_loop lower options c itp = Inl e \<Longrightarrow> syntax_error e"
proof (induction "length itp" arbitrary: itp rule: less_induct)
  case less
  have ne: "itp \<noteq> []" "hd itp \<noteq> closing" using less.prems by (auto simp: set_loop.simps [of _ _ _ itp] split: if_splits)
  show ?case
  proof (cases "read_first itp")
    case (Inl e')
    then show ?thesis using less.prems ne read_errors(1) [OF Inl] by (simp add: set_loop.simps [of _ _ _ itp] syntax_error_def)
  next
    case (Inr r)
    then obtain first itp1 where f: "read_first itp = Inr (first, itp1)" by (cases r) auto
    show ?thesis
    proof (cases "read_last first itp1")
      case (Inl e')
      then show ?thesis using less.prems ne f read_errors(2) [OF Inl] by (simp add: set_loop.simps [of _ _ _ itp] syntax_error_def)
    next
      case (Inr r)
      then obtain final itp2 where l: "read_last first itp1 = Inr (final, itp2)" by (cases r) auto
      have "length itp2 < length itp" using read_first_shorter [OF f] read_last_shorter [OF l] by simp
      then show ?thesis using less.prems less.hyps [of itp2] ne f l skip_set_error [of itp2 e]
        by (auto simp: set_loop.simps [of _ _ _ itp] syntax_error_def split: if_splits)
    qed
  qed
qed

lemma asterisk_loop_error:
  assumes "\<And>s. match_iter lower options p s = Inl e \<Longrightarrow> syntax_error e"
  shows "asterisk_loop lower options p s = Inl e \<Longrightarrow> syntax_error e"
proof (induction s)
  case (Cons c s)
  then show ?case using assms [of "c # s"] by (auto simp: asterisk_loop.simps [of _ _ p "c # s"] split: sum.splits if_splits)
qed (simp add: asterisk_loop.simps)

lemma match_iter_error: "match_iter lower options p s = Inl e \<Longrightarrow> syntax_error e"
proof (induction "length p" arbitrary: p s rule: less_induct)
  case less
  have ne: "p \<noteq> []" "s \<noteq> []" using less.prems by (auto simp: match_iter.simps [of _ _ p] split: if_splits)
  have r: "match_iter lower options p' s' = Inl e \<Longrightarrow> length p' < length p \<Longrightarrow> syntax_error e" for p' s' using less.hyps by blast
  have a: "asterisk_loop lower options (tl p) s = Inl e \<Longrightarrow> syntax_error e" using asterisk_loop_error [of lower options "tl p" e s] r ne by simp
  show ?case
  proof (cases "hd p = bracket \<and> tl p \<noteq> []")
    case True
    define q where "q = (if hd (tl p) = bang then tl (tl p) else tl p)"
    have l: "length q < length p" using ne by (cases p) (auto simp: q_def)
    consider "q = []" | e' where "q \<noteq> []" "matchSet lower options q (hd s) = Inl e'" | b q' where "q \<noteq> []" "matchSet lower options q (hd s) = Inr (b, q')"
      by (cases "matchSet lower options q (hd s)") auto
    then show ?thesis
    proof cases
      case 1
      then show ?thesis using less.prems ne True by (auto simp: match_iter.simps [of _ _ p] q_def syntax_error_def split: if_splits)
    next
      case 2
      then have "match_iter lower options p s = Inl e'" using ne True by (auto simp: match_iter.simps [of _ _ p] q_def Let_def)
      then show ?thesis using 2 less.prems set_loop_error by (auto simp: matchSet_def)
    next
      case 3
      then have "match_iter lower options q' (tl s) = Inl e"
        using less.prems ne True by (auto simp: match_iter.simps [of _ _ p] q_def Let_def split: if_splits)
      moreover have "length q' \<le> length q" using 3(2) set_loop_shorter unfolding matchSet_def by blast
      ultimately show ?thesis using r l by simp
    qed
  next
    case False
    have t: "match_iter lower options (tl p) (tl s) = Inl e \<Longrightarrow> syntax_error e" "match_iter lower options (tl (tl p)) (tl s) = Inl e \<Longrightarrow> syntax_error e"
      using r [of "tl p"] r [of "tl (tl p)"] ne by (cases p; auto)+
    show ?thesis using less.prems ne False a t
      by (auto simp: match_iter.simps [of _ _ p] Let_def syntax_error_def split: if_splits)
  qed
qed


text \<open>C9: A pattern that parses matches a name just when the name is cut into words, one for each item of the pattern, that the items stand
  for: any one character, any word at all, the given character, or one (not) in the ranges of a set, all up to case under \<open>GLOB_CASELESS\<close>.
  Under \<open>GLOB_DOT_SPECIAL\<close> a leading dot is not matched by a leading wildcard.\<close>

theorem glob_match_language:
  assumes "list_all scalar ps" and "list_all scalar cs" and "ps \<noteq> []" and "parse_glob ps = Some items"
  shows "glob_match lower options (concat (map encoded ps)) (concat (map encoded cs)) =
    Inr ((\<exists>ws. cs = concat ws \<and> list_all2 (fits_word lower options) items ws) \<and>
         \<not> (options AND GLOB_DOT_SPECIAL \<noteq> 0 \<and> cs \<noteq> [] \<and> hd cs = 0x2E \<and> hd items \<in> {Any, Star}))"
  using units_encoded [OF assms(1)] units_encoded [OF assms(2)] match_iter_spec [OF assms(4)] wildcards [OF assms(4,3)] assms(3)
  by (auto simp: glob_match_def matches_def)

theorem glob_match_language_witness:
  "glob_match id 4 (concat (map encoded [0x61, 0x2A, 0x5B, 0x30, 0x2D, 0x39, 0x5D])) (concat (map encoded [0x61, 0x20AC, 0x37])) = Inr True"
proof -
  have p: "parse_glob [0x61, 0x2A, 0x5B, 0x30, 0x2D, 0x39, 0x5D] = Some [Lit 0x61, Star, Ranges False [(0x30, 0x39)]]"
    by (simp add: parse_glob.simps parse_set.simps read_first_def read_last_def)
  have "list_all2 (fits_word id 4) [Lit 0x61, Star, Ranges False [(0x30, 0x39)]] [[0x61], [0x20AC], [0x37]]"
    by (simp add: fits_word_def fits1_def in_ranges_def fold_case_def)
  moreover have "[0x61, 0x20AC, 0x37] = concat [[0x61], [0x20AC], [0x37::int]]" by simp
  ultimately have "\<exists>ws. [0x61, 0x20AC, 0x37] = concat ws \<and> list_all2 (fits_word id 4) [Lit 0x61, Star, Ranges False [(0x30, 0x39)]] ws" by blast
  then show ?thesis using glob_match_language [OF _ _ _ p, of "[0x61, 0x20AC, 0x37]" id 4] by (simp add: scalar_def)
qed

end
