(* ===== verification/Spec2Isabelle.thy ===== *)
theory Spec2Isabelle
  imports URI Path FIFOBuffer JSON_RoundTrip HashMap HexBinary UUID Glob
begin

text \<open>
  A verification of parts of the POCO C++ Libraries: of Foundation the text, number, path, container and stream-coding classes, and of JSON
  the parser, the containers and the printer. File names below are those under \<^verbatim>\<open>src/\<close>.

  \<^bold>\<open>How C++ is represented\<close> (\<open>Poco_Prelude\<close>). An object is a record of its members. An operation that may throw gives an \<open>outcome\<close>,
  \<open>Returns s\<close> or \<open>Throws e s\<close>, both with the state it leaves behind, or a sum \<open>exn + 'a\<close> where it changes no state. Undefined behaviour (an access
  behind an array, a signed overflow) is the exception \<open>UndefinedBehaviour\<close>, so that a theorem which says that an operation returns excludes it. A
  pair of iterators is the list of the characters between them. Integers are kept at their width where the code can leave it: words for
  the bytes of \<open>Base64\<close> and \<open>UUID\<close>, integers with explicit bounds for the number parser, the positions of the encoders and the
  indentation of the printer. Hash functions, what the operating system answers, the stream behind an encoder, the content of
  fresh memory, the order of bytes of the machine and the conversion of floating point text are parameters.

  \<^bold>\<open>The theories\<close>

  \<^item> \<open>Ascii\<close>: \<^verbatim>\<open>Foundation/include/Poco/Ascii.h\<close>, \<^verbatim>\<open>src/Ascii.cpp\<close>. The table of character properties and the tests on it.
  \<^item> \<open>Strings\<close>: \<^verbatim>\<open>Foundation/include/Poco/String.h\<close>. Trimming, case conversion, comparison without case, translation, replacement. The locale
    \<open>comparator\<close> gives the laws of an order from a three-way comparison; \<open>icompare\<close> is an interpretation.
  \<^item> \<open>NumericString\<close>: \<^verbatim>\<open>NumericString.h\<close>, \<^verbatim>\<open>NumberParser.cpp\<close>, \<^verbatim>\<open>NumberFormatter.cpp\<close>. Integers to text and back, with the exact
    behaviour on small buffers and at the limits of a type.
  \<^item> \<open>StringTokenizer\<close>: the class of that name, against a specification by pieces between separators.
  \<^item> \<open>Dot_Segments\<close>: the contract that the path code of \<open>URI\<close> and \<open>Path\<close> share, the locale \<open>dot_stack\<close>; interpreted three times.
  \<^item> \<open>URI\<close>: \<^verbatim>\<open>Foundation/src/URI.cpp\<close>. Percent encoding, parsing, printing, normalisation, resolution of references.
  \<^item> \<open>Path\<close>: \<^verbatim>\<open>Foundation/src/Path.cpp\<close>. The three notations in both directions (each an interpretation of \<open>codec\<close>) and all operations on paths.
  \<^item> \<open>FIFOBuffer\<close>: \<^verbatim>\<open>Buffer.h\<close> and \<^verbatim>\<open>FIFOBuffer.h\<close>. The window over a block of memory, its events, and its refinement of a queue through
    the locale \<open>bounded_queue\<close>.
  \<^item> \<open>UTF8Encoding\<close>: \<^verbatim>\<open>Foundation/src/UTF8Encoding.cpp\<close>. Legal sequences and conversion in both directions.
  \<^item> \<open>Glob\<close>: \<^verbatim>\<open>TextIterator.cpp\<close> and the matcher of \<^verbatim>\<open>Glob.cpp\<close>, against the language of a pattern.
  \<^item> \<open>LinearHashTable\<close>, \<open>HashMap\<close>: \<^verbatim>\<open>LinearHashTable.h\<close>, \<^verbatim>\<open>HashMap.h\<close>, \<^verbatim>\<open>HashSet.h\<close>. Linear hashing with its splits and merges, iteration, and the
    refinement of finite maps and sets; the locale \<open>hashed\<close> is what a table asks of hash function and equality.
  \<^item> \<open>Base64\<close>, \<open>HexBinary\<close>: the encoders and decoders of these names over \<^verbatim>\<open>UnbufferedStreamBuf.h\<close>.
  \<^item> \<open>UUID\<close>: \<^verbatim>\<open>UUID.cpp\<close>, \<^verbatim>\<open>UUID.h\<close> and the byte order functions it uses.
  \<^item> \<open>JSON_Parser\<close>: \<^verbatim>\<open>JSON/src/Parser.cpp\<close>, \<^verbatim>\<open>Parser.h\<close>, with its tables, its buffers and its calls of a handler.
  \<^item> \<open>JSON_Automaton\<close>: the same automaton over lists, and the refinement of it by the parser (locale \<open>growing_text\<close> for the two ways in
    which buffers grow).
  \<^item> \<open>JSON_Grammar\<close>: the grammar of RFC 4627 as inductive relations, and completeness; \<open>JSON_Soundness\<close>: what is known of every text that is accepted.
  \<^item> \<open>JSON_Values\<close>: \<^verbatim>\<open>Object.cpp\<close>, \<^verbatim>\<open>Array.cpp\<close>, \<^verbatim>\<open>Stringifier.cpp\<close>, with containers in a store of shared nodes.
  \<^item> \<open>JSON_ParseHandler\<close>: \<^verbatim>\<open>ParseHandler.cpp\<close>, and the tree that parsing builds in the store.
  \<^item> \<open>JSON_RoundTrip\<close>: printing and parsing composed.

  \<^bold>\<open>What the theorems show\<close>

  \<^item> \<^emph>\<open>Round trips\<close>: a JSON tree that is printed, condensed or indented, is built again by the parser; URIs, paths in three notations, query
    parameters, integers in decimal and hexadecimal, UTF-8, Base64, HexBinary, the text and the bytes of UUIDs.
  \<^item> \<^emph>\<open>Refinement\<close>: the hash map and set implement finite maps and sets, the FIFO buffer a queue, the JSON parser a push-down automaton.
  \<^item> \<^emph>\<open>Invariants\<close>: paths stay in normal form, URIs well formed, the last readable event of a FIFO tells whether it holds data, and what the
    parser builds has no dangling pointer and no cycle.
  \<^item> \<^emph>\<open>Functional behaviour\<close>: resolution as in RFC 3986 5.2, walks along directories, the language of glob patterns, replacement, the members of a
    parsed object.
  \<^item> \<^emph>\<open>Errors and limits\<close>: which texts \<open>decode\<close> accepts, with which errors the glob matcher ends, what an integer leaves in a buffer
    that is too small.
  \<^item> Some theorems state what the code does where it departs from its documentation, for example that a partial \<open>drain\<close> of a FIFO loses the
    newest elements, or that the encoder of Base64 writes behind its group after an error of the stream.

  \<^bold>\<open>Bounds and fuel\<close>. All loops are structural recursions or functions with a termination proof, except \<open>stringify\<close>, whose first argument bounds
  the depth of the recursion through pointers and whose exhaustion is \<open>StackOverflow\<close>; the round trip needs it to exceed the height of the tree
  only. \<open>walk\<close> takes the number of elements to visit and is used with the size of the table. \<open>std::size_t\<close> in the hash table is a natural number, since
  all its values are bounded by the number of buckets in memory.

  \<^bold>\<open>Not modelled\<close>. The file system, threads, clocks, processes and sockets, and with them \<open>Glob::glob\<close>, logging, and
  the libraries Net, NetSSL, Crypto, Util, Data, MongoDB, Zip, PDF and the tools: they are calls of the operating system or of bundled
  libraries. Floating point text is converted by the bundled double-conversion library. \<open>Dynamic::Var\<close> is a
  template over type information; the values of JSON are the cases that the parser produces. The assertions that only a debug build checks are
  left out; the others are exceptions of the model. Locks are left out, since every operation of a locked object is atomic.
\<close>

section \<open>Queries\<close>

definition query_reserved :: string where
  "query_reserved = RESERVED_QUERY @ ''=&''"

definition query_item :: "string \<times> string \<Rightarrow> string" where
  "query_item = (\<lambda>(k, v). encode k query_reserved [] @ ''='' @ encode v query_reserved [])"

definition add_parameters :: "uri \<Rightarrow> (string \<times> string) list \<Rightarrow> uri" where
  "add_parameters u ps = foldl (\<lambda>u (k, v). addQueryParameter u k v) u ps"

lemma encode_query_lacks: "lacks ''#=&'' (encode s query_reserved [])"
  by (rule encode_lacks)
    (simp_all add: query_reserved_def RESERVED_QUERY_def unreserved_def between_def schar_def uchar_def)

lemma addQueryParameter_query:
  "u_query (addQueryParameter u k v) =
     (if u_query u = [] then query_item (k, v) else u_query u @ ''&'' @ query_item (k, v))"
  by (simp add: addQueryParameter_def query_item_def query_reserved_def encode_def Let_def)

lemma query_item_nonempty: "query_item kv \<noteq> []"
  by (cases kv) (simp add: query_item_def)

lemma query_item_no_amp: "CHR ''&'' \<notin> set (query_item kv)"
proof (cases kv)
  case (Pair k v)
  have "CHR ''&'' \<notin> set (encode s query_reserved [])" for s
    using encode_query_lacks [of s] unfolding lacks_def list_all_iff by auto
  then show ?thesis using Pair by (simp add: query_item_def)
qed

lemma pieces_query:
  "ps \<noteq> [] \<Longrightarrow> u_query (add_parameters (u\<lparr>u_query := []\<rparr>) ps) \<noteq> []
     \<and> pieces (\<lambda>c. c = CHR ''&'') (u_query (add_parameters (u\<lparr>u_query := []\<rparr>) ps)) = map query_item ps"
proof (induction ps rule: rev_nonempty_induct)
  case (single kv)
  have "pieces (\<lambda>c. c = CHR ''&'') s = [s]" if "CHR ''&'' \<notin> set s" for s
    using that by (induction s) auto
  then show ?case
    using query_item_no_amp [of kv] query_item_nonempty [of kv]
    by (cases kv) (simp add: add_parameters_def addQueryParameter_query)
next
  case (snoc kv ps)
  let ?u = "add_parameters (u\<lparr>u_query := []\<rparr>) ps"
  obtain k v where kv: "kv = (k, v)" by (cases kv)
  have "u_query (add_parameters (u\<lparr>u_query := []\<rparr>) (ps @ [kv])) = u_query ?u @ CHR ''&'' # query_item kv"
    using snoc kv by (simp add: add_parameters_def addQueryParameter_query)
  moreover have "\<not> list_ex (\<lambda>c. c = CHR ''&'') (query_item kv)"
    using query_item_no_amp by (auto simp: list_ex_iff)
  ultimately show ?case using snoc by (simp add: pieces_snoc)
qed

text \<open>C30: parameters added to an empty query with \<open>URI::addQueryParameter\<close> come back from a
  \<open>StringTokenizer\<close> at the ampersands, one token each, and name and value of every token at the
  first equals sign decode to what was added.\<close>

theorem query_parameters_round_trip:
  assumes "ps \<noteq> []"
  shows "map (\<lambda>item. case scan (\<lambda>c. c \<noteq> CHR ''='') item of
                (k, rest) \<Rightarrow> (decode k [] False, decode (drop 1 rest) [] False))
           (tokenize (u_query (add_parameters (u\<lparr>u_query := []\<rparr>) ps)) ''&'' 0)
         = map (\<lambda>(k, v). (Returns k, Returns v)) ps"
proof -
  have "tokenize (u_query (add_parameters (u\<lparr>u_query := []\<rparr>) ps)) ''&'' 0 = map query_item ps"
    using pieces_query [OF assms, of u] by (simp add: tokenize_plain)
  moreover have "scan (\<lambda>c. c \<noteq> CHR ''='') (query_item (k, v)) =
      (encode k query_reserved [], CHR ''='' # encode v query_reserved [])" for k v
    using lacks_scan [OF encode_query_lacks [of k], of "''=''"] by (simp add: query_item_def)
  ultimately show ?thesis by (auto simp: decode_encode)
qed

theorem query_parameters_round_trip_witness:
  "map (\<lambda>item. case scan (\<lambda>c. c \<noteq> CHR ''='') item of
                (k, rest) \<Rightarrow> (decode k [] False, decode (drop 1 rest) [] False))
     (tokenize (u_query (add_parameters (empty_uri\<lparr>u_query := []\<rparr>) [(''a&b'', ''1=2''), (''c'', ''#'')])) ''&'' 0)
   = [(Returns ''a&b'', Returns ''1=2''), (Returns ''c'', Returns ''#'')]"
  using query_parameters_round_trip [of "[(''a&b'', ''1=2''), (''c'', ''#'')]" empty_uri] by simp

end
